(* ===== verification/Prelude.thy ===== *)
theory Prelude
  imports Main "HOL-Library.Word" "HOL-Library.AList" "HOL-Library.Char_ord"
    "HOL-Library.List_Lexorder"
begin

text \<open>
  Shared by every theory of the development: the byte and integer types of the C++ code,
  the little-endian object representation that \<open>reinterpret_cast<char*>\<close> exposes, results
  with the exceptions the code can raise, and the generic list facts the components use.

  The platform fixed here is the one the code is built for: 64-bit little-endian, so that
  \<open>size_t\<close> is \<open>uint64_t\<close>, and a \<open>std::pair<uint64_t, uint64_t>\<close> occupies 16 bytes.
\<close>

named_theorems wf_intros "facts that establish well-formedness of model values"

section \<open>Machine types\<close>

type_synonym u8 = "8 word"
type_synonym u32 = "32 word"
type_synonym u64 = "64 word"
type_synonym u128 = "u64 \<times> u64"
type_synonym bytes = "u8 list"

section \<open>Exceptions and other ways a call can fail\<close>

text \<open>
  The first seven constructors are exceptions derived from \<open>std::exception\<close>. The others are not
  exceptions: an \<open>assert\<close> that fails, \<open>std::terminate\<close>, behaviour the C++ standard leaves
  undefined, and a loop that never ends.
\<close>

datatype error =
    Runtime_error string
  | Length_error
  | Filesystem_error
  | System_error
  | Interprocess_error
  | Future_error
  | Bad_any_cast
  | Assertion_failed
  | Terminate
  | Undefined_behaviour string
  | No_return

type_synonym 'a result = "error + 'a"

fun is_std_exception :: "error \<Rightarrow> bool" where
  "is_std_exception (Undefined_behaviour _) = False"
| "is_std_exception Assertion_failed = False"
| "is_std_exception Terminate = False"
| "is_std_exception No_return = False"
| "is_std_exception _ = True"

fun rbind :: "'a result \<Rightarrow> ('a \<Rightarrow> 'b result) \<Rightarrow> 'b result" where
  "rbind (Inl e) f = Inl e"
| "rbind (Inr x) f = f x"

fun rmap :: "('a \<Rightarrow> 'b) \<Rightarrow> 'a result \<Rightarrow> 'b result" where
  "rmap f (Inl e) = Inl e"
| "rmap f (Inr x) = Inr (f x)"

text \<open>An error code of the asynchronous operations: no error, or one with its message.\<close>

type_synonym boost_error = "string option"

lemma rbind_Inr_iff: "rbind m f = Inr y \<longleftrightarrow> (\<exists>x. m = Inr x \<and> f x = Inr y)"
  by (cases m) auto

lemma rmap_Inr_iff: "rmap f m = Inr y \<longleftrightarrow> (\<exists>x. m = Inr x \<and> y = f x)"
  by (cases m) auto

text \<open>A loop written as \<^theory_text>\<open>partial_function\<close> returns an option: \<open>None\<close> is "never returns".\<close>

definition returned :: "'a result option \<Rightarrow> 'a result" where
  "returned r = (case r of None \<Rightarrow> Inl No_return | Some x \<Rightarrow> x)"

lemma returned_simps [simp]: "returned None = Inl No_return" "returned (Some x) = x"
  by (simp_all add: returned_def)

section \<open>Little-endian object representation\<close>

fun le_of_int :: "nat \<Rightarrow> int \<Rightarrow> bytes" where
  "le_of_int 0 x = []"
| "le_of_int (Suc n) x = word_of_int x # le_of_int n (x div 256)"

fun int_of_le :: "bytes \<Rightarrow> int" where
  "int_of_le [] = 0"
| "int_of_le (b # bs) = uint b + 256 * int_of_le bs"

definition word_bytes :: "'a::len word \<Rightarrow> bytes" where
  "word_bytes w = le_of_int (LENGTH('a) div 8) (uint w)"

definition word_of_bytes :: "bytes \<Rightarrow> 'a::len word" where
  "word_of_bytes bs = word_of_int (int_of_le bs)"

lemma length_le_of_int [simp]: "length (le_of_int n x) = n"
  by (induction n arbitrary: x) auto

lemma le_of_int_numeral [simp]:
  "le_of_int (numeral k) x = word_of_int x # le_of_int (pred_numeral k) (x div 256)"
  by (simp add: numeral_eq_Suc)

lemma int_of_le_le_of_int: "int_of_le (le_of_int n x) = x mod 256 ^ n"
proof (induction n arbitrary: x)
  case 0
  show ?case by simp
next
  case (Suc n)
  have "x mod 256 + 256 * (x div 256 mod 256 ^ n) = x mod (256 * 256 ^ n)"
    by (simp add: zmod_zmult2_eq)
  then show ?case
    using Suc by (simp add: uint_word_of_int)
qed

lemma int_of_le_bounds: "0 \<le> int_of_le bs \<and> int_of_le bs < 256 ^ length bs"
proof (induction bs)
  case Nil
  show ?case by simp
next
  case (Cons b bs)
  have "0 \<le> uint b" "uint b < 256"
    using uint_lt2p [of b] by simp_all
  with Cons show ?case by simp
qed

lemma length_word_bytes [simp]: "length (word_bytes (w :: 'a::len word)) = LENGTH('a) div 8"
  by (simp add: word_bytes_def)

lemma word_of_bytes_word_bytes [simp]:
  fixes w :: "'a::len word"
  assumes "8 dvd LENGTH('a)"
  shows "word_of_bytes (word_bytes w) = w"
proof -
  have "(256::int) ^ (LENGTH('a) div 8) = 2 ^ (8 * (LENGTH('a) div 8))"
    by (simp add: power_mult)
  also have "\<dots> = 2 ^ LENGTH('a)"
    using assms by simp
  finally have "uint w mod 256 ^ (LENGTH('a) div 8) = uint w"
    using uint_lt2p [of w] by simp
  then show ?thesis
    by (simp add: word_of_bytes_def word_bytes_def int_of_le_le_of_int)
qed

lemma le_of_int_int_of_le: "le_of_int (length bs) (int_of_le bs) = bs"
proof (induction bs)
  case Nil
  show ?case by simp
next
  case (Cons b bs)
  have b: "0 \<le> uint b" "uint b < 256"
    using uint_lt2p [of b] by simp_all
  then have "(uint b + 256 * int_of_le bs) div 256 = int_of_le bs"
    by simp
  moreover have "word_of_int (uint b + 256 * int_of_le bs) = b"
  proof (rule word_uint_eqI)
    have "uint (word_of_int (uint b + 256 * int_of_le bs) :: u8) = (uint b + 256 * int_of_le bs) mod 256"
      by (simp only: uint_word_of_int) simp
    also have "\<dots> = uint b"
      using b by simp
    finally show "uint (word_of_int (uint b + 256 * int_of_le bs) :: u8) = uint b" .
  qed
  ultimately show ?case
    using Cons by simp
qed

lemma word_bytes_word_of_bytes:
  assumes "8 dvd LENGTH('a::len)" and "length bs = LENGTH('a) div 8"
  shows "word_bytes (word_of_bytes bs :: 'a word) = bs"
proof -
  have "(256::int) ^ (LENGTH('a) div 8) = 2 ^ (8 * (LENGTH('a) div 8))"
    by (simp add: power_mult)
  also have "\<dots> = 2 ^ LENGTH('a)"
    using assms by simp
  finally have "int_of_le bs mod 2 ^ LENGTH('a) = int_of_le bs"
    using int_of_le_bounds [of bs] assms(2) by simp
  then show ?thesis
    using assms(2) le_of_int_int_of_le [of bs]
    by (simp add: word_bytes_def word_of_bytes_def uint_word_of_int)
qed

lemma word_bytes_u8 [simp]: "word_bytes (b :: u8) = [b]"
  by (simp add: word_bytes_def)

lemma unat_word_of_nat:
  "n < 2 ^ LENGTH('a) \<Longrightarrow> unat (word_of_nat n :: 'a::len word) = n"
  by (simp add: unat_of_nat)

text \<open>\<open>size_t\<close> and \<open>uint32_t\<close> values of a list's length, with the code's truncation.\<close>

definition size_of_list :: "'a list \<Rightarrow> u64" where
  "size_of_list xs = word_of_nat (length xs)"

lemma unat_size_of_list: "unat (size_of_list xs) = length xs mod 2 ^ 64"
  by (simp add: size_of_list_def unat_of_nat)

lemma unat_size_of_list_small [simp]:
  "length xs < 2 ^ 64 \<Longrightarrow> unat (size_of_list xs) = length xs"
  by (simp add: unat_size_of_list)

section \<open>Decimal numerals: \<open>std::to_string\<close>\<close>

fun to_string :: "nat \<Rightarrow> string" where
  "to_string n = (if n < 10 then [char_of (48 + n)]
     else to_string (n div 10) @ [char_of (48 + n mod 10)])"

declare to_string.simps [simp del]

fun digits_value :: "nat \<Rightarrow> string \<Rightarrow> nat" where
  "digits_value acc [] = acc"
| "digits_value acc (c # cs) = digits_value (10 * acc + (of_char c - 48)) cs"

lemma digits_value_append: "digits_value a (xs @ ys) = digits_value (digits_value a xs) ys"
  by (induction xs arbitrary: a) auto

lemma digits_value_to_string: "digits_value 0 (to_string n) = n"
proof (induction n rule: to_string.induct)
  case (1 n)
  have d: "of_char (char_of (48 + m) :: char) = 48 + m" if "m < 10" for m :: nat
    using that by (simp add: of_char_of)
  show ?case
  proof (cases "n < 10")
    case True
    then show ?thesis by (simp add: to_string.simps [of n] d)
  next
    case False
    then show ?thesis
      using 1 by (simp add: to_string.simps [of n] digits_value_append d)
  qed
qed

lemma to_string_inject [simp]: "to_string m = to_string n \<longleftrightarrow> m = n"
  by (metis digits_value_to_string)

end
