(* ===== verification/Streams.thy ===== *)
theory Streams
  imports Prelude
begin

text \<open>
  The part of \<open><istream>\<close>, \<open><ostream>\<close> and \<open><filesystem>\<close> the code relies on: unformatted
  reads that may fall short and set \<open>eofbit\<close> and \<open>failbit\<close>, \<open>peek\<close>, \<open>seekg\<close>, the
  \<open>while (!stream.eof()) { ...; stream.peek(); }\<close> loop the loaders share, and a file system
  of directories and files.
\<close>

section \<open>Input streams\<close>

record istream =
  whole :: bytes
  rest :: bytes
  eofbit :: bool
  failbit :: bool
  badbit :: bool
  is_open :: bool

definition is_good :: "istream \<Rightarrow> bool" where
  "is_good s \<longleftrightarrow> \<not> eofbit s \<and> \<not> failbit s \<and> \<not> badbit s"

text \<open>A stream over a string, or over a file that was opened successfully.\<close>

definition fresh_stream :: "bytes \<Rightarrow> istream" where
  "fresh_stream bs = \<lparr>whole = bs, rest = bs, eofbit = False, failbit = False,
     badbit = False, is_open = True\<rparr>"

text \<open>An \<open>ifstream\<close> whose file could not be opened.\<close>

definition closed_stream :: istream where
  "closed_stream = \<lparr>whole = [], rest = [], eofbit = False, failbit = True,
     badbit = False, is_open = False\<rparr>"

text \<open>
  \<open>istream::read\<close>: on a stream that is not good nothing is extracted and \<open>failbit\<close> is set;
  where fewer bytes are left than asked for, those are extracted and both bits are set.
  The result is the bytes extracted.
\<close>

definition is_read :: "nat \<Rightarrow> istream \<Rightarrow> bytes \<times> istream" where
  "is_read n s =
     (if \<not> is_good s then ([], s\<lparr>failbit := True\<rparr>)
      else if n \<le> length (rest s) then (take n (rest s), s\<lparr>rest := drop n (rest s)\<rparr>)
      else (rest s, s\<lparr>rest := [], eofbit := True, failbit := True\<rparr>))"

definition peek :: "istream \<Rightarrow> istream" where
  "peek s =
     (if \<not> is_good s then s\<lparr>failbit := True\<rparr>
      else if rest s = [] then s\<lparr>eofbit := True\<rparr>
      else s)"

definition seekg :: "nat \<Rightarrow> istream \<Rightarrow> istream" where
  "seekg p s =
     (let s' = s\<lparr>eofbit := False\<rparr>
      in if failbit s' \<or> badbit s' then s' else s'\<lparr>rest := drop p (whole s')\<rparr>)"

text \<open>
  Reading \<open>n\<close> bytes into an object: the bytes extracted overwrite its first bytes, the rest
  of the object keeps what it held. Extracting more bytes than the object has runs over it.
\<close>

definition read_into :: "nat \<Rightarrow> bytes \<Rightarrow> istream \<Rightarrow> (bytes \<times> istream) result" where
  "read_into n old s =
     (let (got, s') = is_read n s
      in if length got > length old then Inl (Undefined_behaviour ''read past the object'')
         else Inr (got @ drop (length got) old, s'))"

definition read_word :: "nat \<Rightarrow> 'a::len word \<Rightarrow> istream \<Rightarrow> ('a word \<times> istream) result" where
  "read_word n old s =
     rmap (\<lambda>(bs, s'). (word_of_bytes bs, s')) (read_into n (word_bytes old) s)"

lemma fresh_stream_simps [simp]:
  "is_good (fresh_stream bs)" "rest (fresh_stream bs) = bs" "whole (fresh_stream bs) = bs"
  "is_open (fresh_stream bs)" "\<not> badbit (fresh_stream bs)" "\<not> eofbit (fresh_stream bs)"
  "\<not> failbit (fresh_stream bs)"
  by (simp_all add: fresh_stream_def is_good_def)

lemma is_good_rest [simp]: "is_good (s\<lparr>rest := r\<rparr>) = is_good s"
  by (simp add: is_good_def)

lemma is_good_eof [simp]: "\<not> is_good (s\<lparr>eofbit := True\<rparr>)"
  by (simp add: is_good_def)

lemma is_good_fail [simp]: "\<not> is_good (s\<lparr>failbit := True\<rparr>)"
  by (simp add: is_good_def)

lemma is_goodD: "is_good s \<Longrightarrow> \<not> eofbit s \<and> \<not> failbit s \<and> \<not> badbit s"
  by (simp add: is_good_def)

lemma is_read_prefix [simp]:
  "is_good s \<Longrightarrow> rest s = bs @ t \<Longrightarrow> n = length bs \<Longrightarrow> is_read n s = (bs, s\<lparr>rest := t\<rparr>)"
  by (simp add: is_read_def)

lemma is_read_not_good: "\<not> is_good s \<Longrightarrow> is_read n s = ([], s\<lparr>failbit := True\<rparr>)"
  by (simp add: is_read_def)

lemma read_into_prefix:
  "is_good s \<Longrightarrow> rest s = bs @ t \<Longrightarrow> n = length bs \<Longrightarrow> length bs = length old \<Longrightarrow>
   read_into n old s = Inr (bs, s\<lparr>rest := t\<rparr>)"
  by (simp add: read_into_def)

lemma read_word_prefix:
  fixes w old :: "'a::len word"
  assumes "is_good s" "rest s = word_bytes w @ t" "n = LENGTH('a) div 8" "8 dvd LENGTH('a)"
  shows "read_word n old s = Inr (w, s\<lparr>rest := t\<rparr>)"
  using assms by (simp add: read_word_def read_into_prefix)

text \<open>The same two facts, for a stream that is being read field by field.\<close>

text \<open>Reading words and bytes out of any buffer succeeds: what is missing keeps its old value.\<close>

lemma read_into_total: "length old = n \<Longrightarrow> \<exists>bs s'. read_into n old s = Inr (bs, s')"
  by (auto simp: read_into_def is_read_def Let_def)

lemma read_word_total:
  fixes old :: "'a::len word"
  shows "n = LENGTH('a) div 8 \<Longrightarrow> \<exists>w s'. read_word n old s = Inr (w, s')"
  using read_into_total [of "word_bytes old" n s] by (auto simp: read_word_def)

lemma read_into_step:
  "is_good s \<Longrightarrow> n = length bs \<Longrightarrow> length bs = length old \<Longrightarrow>
   read_into n old (s\<lparr>rest := bs @ t\<rparr>) = Inr (bs, s\<lparr>rest := t\<rparr>)"
  by (simp add: read_into_prefix)

lemma read_word_step:
  fixes w old :: "'a::len word"
  assumes "is_good s" "n = LENGTH('a) div 8" "8 dvd LENGTH('a)"
  shows "read_word n old (s\<lparr>rest := word_bytes w @ t\<rparr>) = Inr (w, s\<lparr>rest := t\<rparr>)"
  using assms by (simp add: read_word_prefix)

lemma read_word_not_good:
  fixes old :: "'a::len word"
  assumes "\<not> is_good s" "8 dvd LENGTH('a)"
  shows "read_word n old s = Inr (old, s\<lparr>failbit := True\<rparr>)"
  using assms by (simp add: read_word_def read_into_def is_read_not_good)

text \<open>Reading never un-reads, and a read that finds too little leaves \<open>eofbit\<close> set.\<close>

lemma is_read_cases:
  assumes "is_read n s = (got, s')"
  shows "(is_good s' \<and> rest s = got @ rest s' \<and> length got = n \<and> is_good s) \<or>
         (\<not> is_good s' \<and> length got \<le> n \<and> (is_good s \<longrightarrow> eofbit s') \<and> (eofbit s \<longrightarrow> eofbit s')
            \<and> failbit s')"
  using assms by (auto simp: is_read_def is_good_def split: if_splits)

section \<open>The load loop\<close>

text \<open>
  \<open>while (!stream.eof()) { body; stream.peek(); }\<close> over an accumulator. \<open>None\<close> is a loop
  that never ends, which happens when the stream fails without reaching its end.
\<close>

partial_function (option) stream_loop ::
    "('a \<Rightarrow> istream \<Rightarrow> ('a \<times> istream) result) \<Rightarrow> 'a \<Rightarrow> istream \<Rightarrow> ('a \<times> istream) result option"
  where
  "stream_loop body acc s =
     (if eofbit s then Some (Inr (acc, s))
      else case body acc s of
        Inl e \<Rightarrow> Some (Inl e)
      | Inr (acc', s') \<Rightarrow> stream_loop body acc' (peek s'))"

declare stream_loop.simps [code]

text \<open>A body that consumes input on a good stream, or reaches the end.\<close>

definition advances :: "('a \<Rightarrow> istream \<Rightarrow> ('a \<times> istream) result) \<Rightarrow> bool" where
  "advances body \<longleftrightarrow> (\<forall>acc s acc' s'. is_good s \<longrightarrow> body acc s = Inr (acc', s') \<longrightarrow>
     eofbit s' \<or> (is_good s' \<and> length (rest s') < length (rest s)))"

lemma eofbit_peek: "eofbit s \<Longrightarrow> eofbit (peek s)"
  by (simp add: peek_def is_good_def)

lemma stream_loop_eof: "eofbit s \<Longrightarrow> stream_loop body acc s = Some (Inr (acc, s))"
  by (simp add: stream_loop.simps)

lemma stream_loop_returns:
  assumes "advances body" and "is_good s \<or> eofbit s"
  shows "\<exists>r. stream_loop body acc s = Some r"
  using assms(2)
proof (induction "length (rest s)" arbitrary: acc s rule: less_induct)
  case less
  show ?case
  proof (cases "eofbit s")
    case True
    then show ?thesis by (simp add: stream_loop_eof)
  next
    case False
    with less.prems have good: "is_good s" by simp
    show ?thesis
    proof (cases "body acc s")
      case (Inl e)
      with False show ?thesis by (simp add: stream_loop.simps)
    next
      case (Inr r)
      obtain acc' s' where r: "r = (acc', s')" by (cases r)
      have *: "eofbit s' \<or> (is_good s' \<and> length (rest s') < length (rest s))"
        using assms(1) good Inr r unfolding advances_def by blast
      have "\<exists>r. stream_loop body acc' (peek s') = Some r"
      proof (cases "eofbit s' \<or> rest s' = []")
        case True
        with * have "eofbit (peek s')" by (auto simp: peek_def is_good_def)
        then show ?thesis by (simp add: stream_loop_eof)
      next
        case nonempty: False
        with * have "is_good s'" "length (rest s') < length (rest s)" "peek s' = s'"
          by (auto simp: peek_def)
        then show ?thesis using less.hyps [of s' acc'] by simp
      qed
      with False Inr r show ?thesis by (simp add: stream_loop.simps [of body acc s])
    qed
  qed
qed

text \<open>On a stream that has failed before its end, a body that only reads loops for ever.\<close>

lemma stream_loop_never_returns:
  assumes stuck: "\<And>acc s. failbit s \<Longrightarrow> \<not> eofbit s \<Longrightarrow>
      \<exists>acc' s'. body acc s = Inr (acc', s') \<and> failbit s' \<and> \<not> eofbit s'"
    and "failbit s" and "\<not> eofbit s"
  shows "stream_loop body acc s = None"
proof (rule ccontr)
  assume "stream_loop body acc s \<noteq> None"
  then obtain r where ret: "stream_loop body acc s = Some r" by blast
  have "body = body \<longrightarrow> failbit s \<longrightarrow> \<not> eofbit s \<longrightarrow> False"
  proof (rule stream_loop.raw_induct
      [where P = "\<lambda>b acc s r. b = body \<longrightarrow> failbit s \<longrightarrow> \<not> eofbit s \<longrightarrow> False", OF _ ret])
    fix f b acc s r
    assume IH: "\<And>b acc s r. f b acc s = Some r \<Longrightarrow> b = body \<longrightarrow> failbit s \<longrightarrow> \<not> eofbit s \<longrightarrow> False"
      and eq: "(if eofbit s then Some (Inr (acc, s))
        else case b acc s of Inl e \<Rightarrow> Some (Inl e) | Inr (acc', s') \<Rightarrow> f b acc' (peek s')) = Some r"
    show "b = body \<longrightarrow> failbit s \<longrightarrow> \<not> eofbit s \<longrightarrow> False"
    proof (intro impI)
      assume b: "b = body" and "failbit s" and "\<not> eofbit s"
      with stuck obtain acc' s' where
        step: "body acc s = Inr (acc', s')" "failbit s'" "\<not> eofbit s'" by blast
      with eq b \<open>\<not> eofbit s\<close> have "f body acc' (peek s') = Some r" by simp
      moreover have "failbit (peek s')" "\<not> eofbit (peek s')"
        using step by (simp_all add: peek_def is_good_def)
      ultimately show False using IH by blast
    qed
  qed
  then show False using assms(2,3) by simp
qed

section \<open>Formats that are read back record by record\<close>

text \<open>
  The contract between a writer of records and the loop that loads them: where the stream
  stands before a record's bytes, one round of the loop takes the record into account and
  stops behind it. The client lemmas say what the loop makes of a whole file.
\<close>

locale load_loop =
  fixes ser :: "'a \<Rightarrow> bytes"
    and wf :: "'a \<Rightarrow> bool"
    and body :: "'b \<Rightarrow> istream \<Rightarrow> ('b \<times> istream) result"
    and step :: "'b \<Rightarrow> 'a \<Rightarrow> 'b"
  assumes ser_nonempty: "ser x \<noteq> []"
    and body_ser: "wf x \<Longrightarrow> is_good s \<Longrightarrow> rest s = ser x @ t \<Longrightarrow>
      body acc s = Inr (step acc x, s\<lparr>rest := t\<rparr>)"
begin

lemma loop_one:
  assumes "wf x" "is_good s" "rest s = ser x @ t"
  shows "stream_loop body acc s = stream_loop body (step acc x) (peek (s\<lparr>rest := t\<rparr>))"
  using assms body_ser [OF assms, of acc]
  by (simp add: stream_loop.simps [of body acc s] is_good_def)

text \<open>Whatever follows complete records is met with the records already taken in.\<close>

lemma loop_prefix:
  assumes "\<forall>x \<in> set xs. wf x" "is_good s" "rest s = concat (map ser xs) @ t" "t \<noteq> []"
  shows "stream_loop body acc s = stream_loop body (foldl step acc xs) (s\<lparr>rest := t\<rparr>)"
  using assms
proof (induction xs arbitrary: acc s)
  case Nil
  then have "s\<lparr>rest := t\<rparr> = s" by simp
  then show ?case by simp
next
  case (Cons x xs)
  let ?s = "s\<lparr>rest := concat (map ser xs) @ t\<rparr>"
  have "stream_loop body acc s = stream_loop body (step acc x) (peek ?s)"
    using Cons.prems by (intro loop_one) simp_all
  moreover have "peek ?s = ?s"
    using Cons.prems by (simp add: peek_def)
  ultimately show ?case
    using Cons.IH [of ?s "step acc x"] Cons.prems by simp
qed

lemma loop_reads_back:
  assumes "xs \<noteq> []" "\<forall>x \<in> set xs. wf x" "is_good s" "rest s = concat (map ser xs)"
  shows "stream_loop body acc s =
     Some (Inr (foldl step acc xs, s\<lparr>rest := [], eofbit := True\<rparr>))"
proof -
  obtain ys y where xs: "xs = ys @ [y]"
    using assms(1) by (cases xs rule: rev_cases) auto
  let ?s = "s\<lparr>rest := ser y\<rparr>"
  have "stream_loop body acc s = stream_loop body (foldl step acc ys) ?s"
    using assms xs ser_nonempty [of y] by (intro loop_prefix) simp_all
  also have "\<dots> = stream_loop body (step (foldl step acc ys) y) (peek (s\<lparr>rest := []\<rparr>))"
    using loop_one [of y ?s "[]"] assms xs by simp
  also have "\<dots> = Some (Inr (foldl step acc xs, s\<lparr>rest := [], eofbit := True\<rparr>))"
    using assms(3) xs by (simp add: peek_def stream_loop_eof)
  finally show ?thesis .
qed

end

text \<open>A loop round that only reads one record and hands it on.\<close>

definition read_each ::
    "(istream \<Rightarrow> ('a \<times> istream) result) \<Rightarrow> ('b \<Rightarrow> 'a \<Rightarrow> 'b) \<Rightarrow> 'b \<Rightarrow> istream \<Rightarrow> ('b \<times> istream) result"
  where
  "read_each des f acc s = rmap (\<lambda>(x, s'). (f acc x, s')) (des s)"

locale stream_format =
  fixes ser :: "'a \<Rightarrow> bytes"
    and des :: "istream \<Rightarrow> ('a \<times> istream) result"
    and wf :: "'a \<Rightarrow> bool"
  assumes format_nonempty: "ser x \<noteq> []"
    and des_ser: "wf x \<Longrightarrow> is_good s \<Longrightarrow> rest s = ser x @ t \<Longrightarrow> des s = Inr (x, s\<lparr>rest := t\<rparr>)"
begin

lemma ser_injective_prefix:
  assumes "wf x" "wf y" "ser x @ xs = ser y @ ys"
  shows "x = y \<and> xs = ys"
proof -
  let ?s = "fresh_stream (ser x @ xs)"
  have "des ?s = Inr (x, ?s\<lparr>rest := xs\<rparr>)" "des ?s = Inr (y, ?s\<lparr>rest := ys\<rparr>)"
    using assms des_ser [of x ?s xs] des_ser [of y ?s ys] by simp_all
  then have "x = y" and "?s\<lparr>rest := xs\<rparr> = ?s\<lparr>rest := ys\<rparr>" by simp_all
  from this(2) have "rest (?s\<lparr>rest := xs\<rparr>) = rest (?s\<lparr>rest := ys\<rparr>)" by (rule arg_cong)
  with \<open>x = y\<close> show ?thesis by simp
qed

end

sublocale stream_format \<subseteq> each: load_loop ser wf "read_each des f" f for f
  by unfold_locales (auto simp: format_nonempty des_ser read_each_def)

section \<open>The file system\<close>

type_synonym path = "string list"

fun path_string :: "path \<Rightarrow> string" where
  "path_string [] = []"
| "path_string [n] = n"
| "path_string (n # p) = n @ ''/'' @ path_string p"

datatype node = Dir | File bytes

type_synonym fsys = "(path \<times> node) list"

definition fs_exists :: "fsys \<Rightarrow> path \<Rightarrow> bool" where
  "fs_exists fs p \<longleftrightarrow> map_of fs p \<noteq> None"

definition is_directory :: "fsys \<Rightarrow> path \<Rightarrow> bool" where
  "is_directory fs p \<longleftrightarrow> map_of fs p = Some Dir"

definition file_content :: "fsys \<Rightarrow> path \<Rightarrow> bytes option" where
  "file_content fs p = (case map_of fs p of Some (File c) \<Rightarrow> Some c | _ \<Rightarrow> None)"

text \<open>The entries of a directory: the names of its children, in some order.\<close>

definition dir_entries :: "fsys \<Rightarrow> path \<Rightarrow> string list" where
  "dir_entries fs d =
     map (last \<circ> fst) (filter (\<lambda>(p, n). p \<noteq> [] \<and> butlast p = d) (AList.clearjunk fs))"

text \<open>Opening for output truncates or creates the file, if its directory exists.\<close>

definition can_write :: "fsys \<Rightarrow> path \<Rightarrow> bool" where
  "can_write fs p \<longleftrightarrow> p \<noteq> [] \<and> is_directory fs (butlast p) \<and> \<not> is_directory fs p"

text \<open>
  An \<open>ofstream\<close> on \<open>p\<close> to which \<open>bs\<close> is written before it is closed: whether it is open, and
  the file system afterwards. Writing to a stream that is not open does nothing.
\<close>

definition write_file :: "fsys \<Rightarrow> path \<Rightarrow> bytes \<Rightarrow> fsys" where
  "write_file fs p bs = (if can_write fs p then AList.update p (File bs) fs else fs)"

definition open_ifstream :: "fsys \<Rightarrow> path \<Rightarrow> istream" where
  "open_ifstream fs p =
     (case file_content fs p of Some c \<Rightarrow> fresh_stream c | None \<Rightarrow> closed_stream)"

definition create_directory :: "fsys \<Rightarrow> path \<Rightarrow> fsys result" where
  "create_directory fs p =
     (if p \<noteq> [] \<and> is_directory fs (butlast p) \<and> \<not> fs_exists fs p
      then Inr (AList.update p Dir fs)
      else if is_directory fs p then Inr fs
      else Inl Filesystem_error)"

lemma map_of_write_file:
  "map_of (write_file fs p bs) q =
     (if q = p \<and> can_write fs p then Some (File bs) else map_of fs q)"
  by (simp add: write_file_def update_conv')

lemma is_directory_write_file [simp]: "is_directory (write_file fs p bs) d = is_directory fs d"
  by (auto simp: is_directory_def map_of_write_file can_write_def)

lemma can_write_write_file [simp]: "can_write (write_file fs p bs) q = can_write fs q"
  by (simp add: can_write_def)

lemma file_content_write_file:
  "file_content (write_file fs p bs) q =
     (if q = p \<and> can_write fs p then Some bs else file_content fs q)"
  by (simp add: file_content_def map_of_write_file)

lemma file_content_iff: "file_content fs p = Some c \<longleftrightarrow> map_of fs p = Some (File c)"
  by (auto simp: file_content_def split: option.splits node.splits)

end
