(* ===== verification/KeyOrder.thy ===== *)
theory KeyOrder
  imports Prelude
begin

text \<open>
  \<open>Key\<close> (include/omx/Key.h, src/Key.cpp), the memtable's \<open>InsertKey\<close> and \<open>SearchKey\<close> with
  their comparisons (src/MemTableKey.h), and the ordered \<open>std::map\<close> that is keyed by them:
  a list in the order the map iterates, with insertion and heterogeneous lookup.
\<close>

section \<open>Key\<close>

datatype key = Key (key_id: u64)

instantiation key :: linorder
begin

definition less_key :: "key \<Rightarrow> key \<Rightarrow> bool" where
  "less_key k1 k2 \<longleftrightarrow> key_id k1 < key_id k2"

definition less_eq_key :: "key \<Rightarrow> key \<Rightarrow> bool" where
  "less_eq_key k1 k2 \<longleftrightarrow> key_id k1 \<le> key_id k2"

instance
  by standard (auto simp: less_key_def less_eq_key_def key.expand)

end

text \<open>\<open>KeyHasher\<close> applies \<open>std::hash<size_t>\<close>, whose values the standard leaves open.\<close>

definition key_hasher :: "(u64 \<Rightarrow> u64) \<Rightarrow> key \<Rightarrow> u64" where
  "key_hasher std_hash k = std_hash (key_id k)"

section \<open>InsertKey and SearchKey\<close>

datatype insert_key = InsertKey (ik_id: u64) (ik_key: key)

datatype search_key = SearchKey (sk_key: key)

definition insert_key_comp :: "insert_key \<Rightarrow> insert_key \<Rightarrow> bool" where
  "insert_key_comp lhs rhs =
     (if ik_key lhs < ik_key rhs then True
      else if ik_key rhs < ik_key lhs then False
      else ik_id lhs > ik_id rhs)"

definition less_insert_search :: "insert_key \<Rightarrow> search_key \<Rightarrow> bool" where
  "less_insert_search ik sk \<longleftrightarrow> ik_key ik < sk_key sk"

definition less_search_insert :: "search_key \<Rightarrow> insert_key \<Rightarrow> bool" where
  "less_search_insert sk ik \<longleftrightarrow> sk_key sk < ik_key ik"

text \<open>The comparator is a strict total order, so the map's keys are a linear order.\<close>

instantiation insert_key :: linorder
begin

definition less_insert_key :: "insert_key \<Rightarrow> insert_key \<Rightarrow> bool" where
  "less_insert_key a b \<longleftrightarrow> insert_key_comp a b"

definition less_eq_insert_key :: "insert_key \<Rightarrow> insert_key \<Rightarrow> bool" where
  "less_eq_insert_key a b \<longleftrightarrow> a = b \<or> insert_key_comp a b"

instance
proof
  fix a b c :: insert_key
  show "a < b \<longleftrightarrow> a \<le> b \<and> \<not> b \<le> a"
    by (auto simp: less_insert_key_def less_eq_insert_key_def insert_key_comp_def split: if_splits)
  show "a \<le> a" by (simp add: less_eq_insert_key_def)
  show "a \<le> c" if "a \<le> b" "b \<le> c"
    using that
    by (auto simp: less_eq_insert_key_def insert_key_comp_def split: if_splits)
  show "a = b" if "a \<le> b" "b \<le> a"
    using that by (auto simp: less_eq_insert_key_def insert_key_comp_def split: if_splits)
  show "a \<le> b \<or> b \<le> a"
    by (cases a; cases b) (auto simp: less_eq_insert_key_def insert_key_comp_def)
qed

end

lemma less_insert_key_iff:
  "a < b \<longleftrightarrow> ik_key a < ik_key b \<or> (ik_key a = ik_key b \<and> ik_id b < ik_id a)"
  by (auto simp: less_insert_key_def insert_key_comp_def)

section \<open>The ordered map\<close>

text \<open>
  \<open>std::map<InsertKey, V, std::less<>>\<close> as the list of its pairs in iteration order.
  \<open>insert\<close> leaves an equivalent key's entry alone; \<open>find\<close> with a \<open>SearchKey\<close> is the lower
  bound, which is the first of the entries equivalent to it.
\<close>

fun map_insert :: "'k::linorder \<Rightarrow> 'v \<Rightarrow> ('k \<times> 'v) list \<Rightarrow> ('k \<times> 'v) list" where
  "map_insert k v [] = [(k, v)]"
| "map_insert k v ((k', v') # m) =
     (if k < k' then (k, v) # (k', v') # m
      else if k' < k then (k', v') # map_insert k v m
      else (k', v') # m)"

definition map_find :: "(insert_key \<times> 'v) list \<Rightarrow> search_key \<Rightarrow> (insert_key \<times> 'v) option" where
  "map_find m sk =
     (case dropWhile (\<lambda>(ik, _). less_insert_search ik sk) m of
        [] \<Rightarrow> None
      | (ik, v) # _ \<Rightarrow> if less_search_insert sk ik then None else Some (ik, v))"

abbreviation ordered :: "('k::linorder \<times> 'v) list \<Rightarrow> bool" where
  "ordered m \<equiv> sorted_wrt (<) (map fst m)"

text \<open>What a lookup by user key alone sees: the first entry of that key.\<close>

definition newest :: "(insert_key \<times> 'v) list \<Rightarrow> key \<Rightarrow> 'v option" where
  "newest m k = map_of (map (\<lambda>(ik, v). (ik_key ik, v)) m) k"

lemma newest_simps [simp]:
  "newest [] k = None"
  "newest ((ik, v) # m) k = (if ik_key ik = k then Some v else newest m k)"
  by (auto simp: newest_def)

lemma set_map_insert_subset: "set (map_insert k v m) \<subseteq> insert (k, v) (set m)"
  by (induction m) (auto split: if_splits)

lemma set_map_insert: "k \<notin> fst ` set m \<Longrightarrow> set (map_insert k v m) = insert (k, v) (set m)"
  by (induction k v m rule: map_insert.induct) (auto simp: image_iff)

lemma map_insert_not_Nil [simp]: "map_insert k v m \<noteq> []"
  by (cases m) (auto split: if_splits)

lemma ordered_map_insert: "ordered m \<Longrightarrow> ordered (map_insert k v m)"
proof (induction m)
  case Nil
  show ?case by simp
next
  case (Cons e m)
  obtain k' v' where e: "e = (k', v')" by (cases e)
  show ?case
  proof (cases "k' < k")
    case True
    have "\<forall>x \<in> set (map_insert k v m). k' < fst x"
      using set_map_insert_subset [of k v m] True Cons.prems e by auto
    then show ?thesis using True Cons e by auto
  next
    case False
    then show ?thesis using Cons.prems e by (auto intro: less_trans)
  qed
qed

lemma length_map_insert: "k \<notin> fst ` set m \<Longrightarrow> length (map_insert k v m) = Suc (length m)"
  by (induction k v m rule: map_insert.induct) auto

lemma newest_None_iff: "newest m k = None \<longleftrightarrow> (\<forall>(ik, v) \<in> set m. ik_key ik \<noteq> k)"
  by (induction m) (auto split: if_splits)

lemma newest_SomeD: "newest m k = Some v \<Longrightarrow> \<exists>ik. (ik, v) \<in> set m \<and> ik_key ik = k"
  by (induction m) (auto split: if_splits)

text \<open>
  The key fact of the memtable: entries of one user key are ordered by descending id, so an
  entry with the largest id so far becomes the first of its key, and lookups see it.
\<close>

lemma newest_map_insert:
  assumes "ordered m" and "\<forall>(ik, r) \<in> set m. ik_id ik < ik_id k"
  shows "newest (map_insert k v m) = (newest m)(ik_key k \<mapsto> v)"
  using assms
proof (induction m)
  case Nil
  show ?case by (auto simp: fun_eq_iff)
next
  case (Cons e m)
  obtain k' v' where e: "e = (k', v')" by (cases e)
  have ids: "ik_id k' < ik_id k" using Cons.prems e by auto
  show ?case
  proof (cases "k' < k")
    case True
    with ids have "ik_key k' \<noteq> ik_key k"
      unfolding less_insert_key_iff by (metis less_asym less_irrefl)
    with True Cons e show ?thesis by (auto simp: fun_eq_iff)
  next
    case False
    moreover have "k \<noteq> k'" using ids by auto
    ultimately have "k < k'" by simp
    then show ?thesis using e False by (auto simp: fun_eq_iff)
  qed
qed

lemma map_find_newest:
  assumes "ordered m"
  shows "map_option snd (map_find m (SearchKey k)) = newest m k"
  using assms
proof (induction m)
  case Nil
  show ?case by (simp add: map_find_def)
next
  case (Cons e m)
  obtain ik v where e: "e = (ik, v)" by (cases e)
  show ?case
  proof (cases "ik_key ik < k")
    case True
    then have "map_find (e # m) (SearchKey k) = map_find m (SearchKey k)"
      by (simp add: map_find_def e less_insert_search_def)
    with True Cons e show ?thesis by auto
  next
    case False
    have "newest m k = None" if "k < ik_key ik"
      unfolding newest_None_iff
    proof clarify
      fix ik' v' assume "(ik', v') \<in> set m" and "k = ik_key ik'"
      with Cons.prems e have "ik < ik'" by auto
      with that \<open>k = ik_key ik'\<close> show False
        unfolding less_insert_key_iff by (metis less_asym less_irrefl)
    qed
    with False show ?thesis
      by (auto simp: map_find_def e less_insert_search_def less_search_insert_def)
  qed
qed

end
