(* ===== verification/SSTableRow.thy ===== *)
theory SSTableRow
  imports Streams KeyOrder
begin

text \<open>
  One row of a sorted string table: src/SSTableRow.h and src/SSTableRow.cpp. The row's
  constructors and accessors, its size, and its binary form with the reader that copes
  (or fails to cope) with input that ends early.
\<close>

section \<open>The row\<close>

text \<open>\<open>EntryType\<close> has a fixed underlying type, so any byte is a value of it.\<close>

datatype entry_type = EntryType_Put | EntryType_Remove | EntryType_other u8

definition entry_byte :: "entry_type \<Rightarrow> u8" where
  "entry_byte e = (case e of EntryType_Put \<Rightarrow> 0 | EntryType_Remove \<Rightarrow> 1 | EntryType_other b \<Rightarrow> b)"

definition entry_of_byte :: "u8 \<Rightarrow> entry_type" where
  "entry_of_byte b = (if b = 0 then EntryType_Put else if b = 1 then EntryType_Remove
     else EntryType_other b)"

record sstable_row =
  row_key :: key
  row_value :: bytes
  row_entry :: entry_type
  row_checksum :: u128

definition make_row :: "key \<Rightarrow> bytes \<Rightarrow> entry_type \<Rightarrow> u128 \<Rightarrow> sstable_row" where
  "make_row k v e c = \<lparr>row_key = k, row_value = v, row_entry = e, row_checksum = c\<rparr>"

definition make_put_row :: "key \<Rightarrow> bytes \<Rightarrow> u128 \<Rightarrow> sstable_row" where
  "make_put_row k v c =
     \<lparr>row_key = k, row_value = v, row_entry = EntryType_Put, row_checksum = c\<rparr>"

definition make_remove_row :: "key \<Rightarrow> sstable_row" where
  "make_remove_row k =
     \<lparr>row_key = k, row_value = [], row_entry = EntryType_Remove, row_checksum = (0, 0)\<rparr>"

text \<open>The sum of the field sizes, in the \<open>size_t\<close> arithmetic of the code.\<close>

definition getRowSize :: "sstable_row \<Rightarrow> u64" where
  "getRowSize r =
     (let sizeOfKey = 8; numBytes = size_of_list (row_value r); sizeOfChecksum = 16
      in 0 + 1 + 1 + sizeOfKey + 8 + numBytes + 1 + sizeOfChecksum)"

section \<open>Binary form\<close>

definition row_serialize :: "sstable_row \<Rightarrow> bytes" where
  "row_serialize r =
     (let op = entry_byte (row_entry r);
          sizeOfKey = (8 :: u8);
          numBytes = size_of_list (row_value r);
          sizeOfChecksum = (16 :: u8)
      in word_bytes op @ word_bytes sizeOfKey @ word_bytes (key_id (row_key r)) @
         word_bytes numBytes @ row_value r @ word_bytes sizeOfChecksum @
         (word_bytes (fst (row_checksum r)) @ word_bytes (snd (row_checksum r))))"

text \<open>\<open>std::string::resize\<close> beyond \<open>max_size()\<close> throws \<open>std::length_error\<close>.\<close>

definition max_size :: u64 where
  "max_size = 9223372036854775806"

abbreviation max_string_size :: nat where
  "max_string_size \<equiv> unat max_size"

text \<open>
  \<open>deserialize(std::istream&)\<close>. \<open>entryType\<close> is not initialised before it is read into, so
  where nothing can be read it holds an arbitrary byte, the parameter \<open>junk\<close>. A size byte
  larger than the object it is read into makes the code write past the object.
\<close>

definition row_deserialize :: "u8 \<Rightarrow> istream \<Rightarrow> (sstable_row \<times> istream) result" where
  "row_deserialize junk s0 =
     rbind (read_word 1 junk s0) (\<lambda>(entryType, s1).
     rbind (read_word 1 (0 :: u8) s1) (\<lambda>(sizeOfKey, s2).
     rbind (read_word (unat sizeOfKey) (0 :: u64) s2) (\<lambda>(kid, s3).
     rbind (read_word 8 (0 :: u64) s3) (\<lambda>(numBytes, s4).
     if numBytes > max_size then Inl Length_error
     else
     rbind (read_into (unat numBytes) (replicate (unat numBytes) 0) s4) (\<lambda>(value, s5).
     rbind (read_word 1 (0 :: u8) s5) (\<lambda>(sizeOfChecksum, s6).
     rbind (read_into (unat sizeOfChecksum) (word_bytes (0 :: u64) @ word_bytes (0 :: u64)) s6)
       (\<lambda>(checksum, s7).
     Inr (make_row (Key kid) value (entry_of_byte entryType)
            (word_of_bytes (take 8 checksum), word_of_bytes (drop 8 checksum)), s7))))))))"

definition row_deserialize_string :: "u8 \<Rightarrow> bytes \<Rightarrow> sstable_row result" where
  "row_deserialize_string junk data = rmap fst (row_deserialize junk (fresh_stream data))"

lemma max_string_size: "max_string_size = 9223372036854775806"
  by (simp add: max_size_def)

lemma greater_max_size_iff: "max_size < n \<longleftrightarrow> max_string_size < unat n"
  by (simp add: word_less_nat_alt)

section \<open>Well-formed rows and the round trip\<close>

text \<open>A row the program can hold: a canonical entry type and a string of possible size.\<close>

definition wf_row :: "sstable_row \<Rightarrow> bool" where
  "wf_row r \<longleftrightarrow> entry_of_byte (entry_byte (row_entry r)) = row_entry r \<and>
     length (row_value r) \<le> max_string_size"

lemma entry_byte_entry_of_byte [simp]: "entry_byte (entry_of_byte b) = b"
  by (simp add: entry_byte_def entry_of_byte_def)

lemma wf_put_row [simp]:
  "wf_row (make_row k v EntryType_Put c) \<longleftrightarrow> length v \<le> max_string_size"
  "wf_row (make_row k v EntryType_Remove c) \<longleftrightarrow> length v \<le> max_string_size"
  by (simp_all add: wf_row_def make_row_def entry_byte_def entry_of_byte_def)

lemma make_row_sel [simp]:
  "row_key (make_row k v e c) = k" "row_value (make_row k v e c) = v"
  "row_entry (make_row k v e c) = e" "row_checksum (make_row k v e c) = c"
  by (simp_all add: make_row_def)

lemma make_row_collapse [simp]:
  "make_row (row_key r) (row_value r) (row_entry r) (row_checksum r) = r"
  by (simp add: make_row_def)

lemma length_row_serialize [simp]: "length (row_serialize r) = 35 + length (row_value r)"
  by (simp add: row_serialize_def Let_def)

lemma row_serialize_not_Nil [simp]: "row_serialize r \<noteq> []"
  using length_row_serialize [of r] by (metis add_is_0 list.size(3) zero_neq_numeral)

lemma unat_getRowSize:
  assumes "length (row_value r) + 35 < 2 ^ 64"
  shows "unat (getRowSize r) = length (row_serialize r)"
proof -
  have "getRowSize r = word_of_nat (35 + length (row_value r))"
    by (simp add: getRowSize_def Let_def size_of_list_def)
  then show ?thesis
    using assms by (simp add: unat_of_nat del: of_nat_add)
qed

lemma wf_row_length: "wf_row r \<Longrightarrow> length (row_value r) + 35 < 2 ^ 64"
  by (simp add: wf_row_def max_string_size)

text \<open>Where the fixed-size fields in front are complete, the value and the checksum remain to be read.\<close>

lemma row_deserialize_header:
  assumes good: "is_good s" and n: "\<not> n > max_size"
    and rest: "rest s = word_bytes e @ word_bytes (8 :: u8) @ word_bytes kid @ word_bytes n @ t"
  shows "row_deserialize junk s =
    rbind (read_into (unat n) (replicate (unat n) 0) (s\<lparr>rest := t\<rparr>)) (\<lambda>(value, s5).
    rbind (read_word 1 (0 :: u8) s5) (\<lambda>(sizeOfChecksum, s6).
    rbind (read_into (unat sizeOfChecksum) (word_bytes (0 :: u64) @ word_bytes (0 :: u64)) s6) (\<lambda>(checksum, s7).
    Inr (make_row (Key kid) value (entry_of_byte e) (word_of_bytes (take 8 checksum), word_of_bytes (drop 8 checksum)), s7))))"
proof -
  let ?t3 = "word_bytes n @ t"
  let ?t2 = "word_bytes kid @ ?t3"
  let ?t1 = "word_bytes (8 :: u8) @ ?t2"
  have r1: "read_word 1 junk s = Inr (e, s\<lparr>rest := ?t1\<rparr>)"
    using good rest by (intro read_word_prefix) simp_all
  have r2: "read_word 1 (0 :: u8) (s\<lparr>rest := ?t1\<rparr>) = Inr (8, s\<lparr>rest := ?t2\<rparr>)"
    by (rule read_word_step) (use good in simp_all)
  have r3: "read_word 8 (0 :: u64) (s\<lparr>rest := ?t2\<rparr>) = Inr (kid, s\<lparr>rest := ?t3\<rparr>)"
    by (rule read_word_step) (use good in simp_all)
  have r4: "read_word 8 (0 :: u64) (s\<lparr>rest := ?t3\<rparr>) = Inr (n, s\<lparr>rest := t\<rparr>)"
    by (rule read_word_step) (use good in simp_all)
  have "unat (8 :: u8) = 8" by simp
  with n show ?thesis
    unfolding row_deserialize_def by (simp only: r1 r2 r3 r4 rbind.simps prod.case if_False)
qed

text \<open>The value's length, as it is written, is its length again.\<close>

lemma wf_row_fields:
  assumes "wf_row r"
  shows "unat (size_of_list (row_value r)) = length (row_value r)" "\<not> size_of_list (row_value r) > max_size"
    "entry_of_byte (entry_byte (row_entry r)) = row_entry r"
  using assms by (simp_all add: wf_row_def greater_max_size_iff max_string_size)

lemma row_deserialize_serialize:
  assumes "wf_row r" "is_good s" "rest s = row_serialize r @ t"
  shows "row_deserialize junk s = Inr (r, s\<lparr>rest := t\<rparr>)"
proof -
  let ?cs = "word_bytes (fst (row_checksum r)) @ word_bytes (snd (row_checksum r))"
  let ?t6 = "?cs @ t"
  let ?t5 = "word_bytes (16 :: u8) @ ?t6"
  have "rest s = word_bytes (entry_byte (row_entry r)) @ word_bytes (8 :: u8) @ word_bytes (key_id (row_key r)) @
      word_bytes (size_of_list (row_value r)) @ row_value r @ ?t5"
    using assms(3) by (simp add: row_serialize_def Let_def)
  note header = row_deserialize_header [OF assms(2) wf_row_fields(2) [OF assms(1)] this, of junk]
  have r5: "read_into (length (row_value r)) (replicate (length (row_value r)) 0) (s\<lparr>rest := row_value r @ ?t5\<rparr>)
      = Inr (row_value r, s\<lparr>rest := ?t5\<rparr>)"
    by (rule read_into_step) (use assms(2) in simp_all)
  have r6: "read_word 1 (0 :: u8) (s\<lparr>rest := ?t5\<rparr>) = Inr (16, s\<lparr>rest := ?t6\<rparr>)"
    by (rule read_word_step) (use assms(2) in simp_all)
  have r7: "read_into 16 (word_bytes (0 :: u64) @ word_bytes (0 :: u64)) (s\<lparr>rest := ?t6\<rparr>)
      = Inr (?cs, s\<lparr>rest := t\<rparr>)"
    by (rule read_into_step) (use assms(2) in simp_all)
  have "unat (16 :: u8) = 16" by simp
  then show ?thesis
    unfolding header by (simp only: wf_row_fields [OF assms(1)] r5 r6 r7 rbind.simps prod.case) simp
qed

section \<open>Reading where there is nothing left\<close>

text \<open>The row that comes out of a stream with nothing left to read.\<close>

definition phantom_row :: "u8 \<Rightarrow> sstable_row" where
  "phantom_row junk = make_row (Key 0) [] (entry_of_byte junk) (0, 0)"

lemma take_drop_zero_words [simp]:
  "word_of_bytes (take 8 (word_bytes (0 :: u64) @ word_bytes (0 :: u64))) = (0 :: u64)"
  "word_of_bytes (drop 8 (word_bytes (0 :: u64) @ word_bytes (0 :: u64))) = (0 :: u64)"
  by simp_all

lemma read_into_not_good: "\<not> is_good s \<Longrightarrow> read_into n old s = Inr (old, s\<lparr>failbit := True\<rparr>)"
  by (simp add: read_into_def is_read_not_good)

lemma row_deserialize_not_good:
  assumes "\<not> is_good s"
  shows "row_deserialize junk s = Inr (phantom_row junk, s\<lparr>failbit := True\<rparr>)"
proof -
  have f: "\<not> is_good (s\<lparr>failbit := True\<rparr>)" by simp
  have ff: "s\<lparr>failbit := True\<rparr>\<lparr>failbit := True\<rparr> = s\<lparr>failbit := True\<rparr>" by simp
  show ?thesis
    using assms
    by (simp add: row_deserialize_def read_word_not_good read_into_not_good phantom_row_def
        greater_max_size_iff max_string_size)
qed

lemma read_word_at_end:
  fixes old :: "'a::len word"
  assumes "is_good s" "rest s = []" "n > 0" "8 dvd LENGTH('a)"
  shows "read_word n old s = Inr (old, s\<lparr>eofbit := True, failbit := True\<rparr>)"
proof -
  have "s\<lparr>rest := [], eofbit := True, failbit := True\<rparr> = s\<lparr>eofbit := True, failbit := True\<rparr>"
    using assms(2) by (cases s) simp
  then show ?thesis
    using assms by (simp add: read_word_def read_into_def is_read_def)
qed

lemma row_deserialize_at_end:
  assumes "is_good s" "rest s = []"
  shows "row_deserialize junk s = Inr (phantom_row junk, s\<lparr>eofbit := True, failbit := True\<rparr>)"
proof -
  let ?s = "s\<lparr>eofbit := True, failbit := True\<rparr>"
  have ng: "\<not> is_good ?s" by (simp add: is_good_def)
  have "read_word 1 junk s = Inr (junk, ?s)"
    using assms by (simp add: read_word_at_end)
  with row_deserialize_not_good [OF ng, of junk] ng show ?thesis
    by (simp add: row_deserialize_def read_word_not_good)
qed

text \<open>
  The row that comes out of a stream that ends within the value of a row: what is missing of the
  value is zeros, as \<open>resize\<close> left them, and the checksum is zero.
\<close>

definition torn_row :: "nat \<Rightarrow> sstable_row \<Rightarrow> sstable_row" where
  "torn_row i r = make_row (row_key r) (take i (row_value r) @ replicate (length (row_value r) - i) 0) (row_entry r) (0, 0)"

lemma read_into_short:
  assumes "is_good s" "length bs < n"
  shows "read_into n (replicate n b) (s\<lparr>rest := bs\<rparr>) =
    Inr (bs @ replicate (n - length bs) b, s\<lparr>rest := [], eofbit := True, failbit := True\<rparr>)"
  using assms by (simp add: read_into_def is_read_def)

lemma row_deserialize_torn:
  assumes "wf_row r" "is_good s" "i \<le> length (row_value r)" "rest s = take (18 + i) (row_serialize r)"
  shows "row_deserialize junk s = Inr (torn_row i r, s\<lparr>rest := [], eofbit := True, failbit := True\<rparr>)"
proof -
  let ?s = "s\<lparr>rest := [], eofbit := True, failbit := True\<rparr>"
  let ?t4 = "take i (row_value r)" and ?v = "row_value r"
  let ?h = "word_bytes (entry_byte (row_entry r)) @ word_bytes (8 :: u8) @ word_bytes (key_id (row_key r)) @
      word_bytes (size_of_list ?v)"
  obtain t where "row_serialize r = ?h @ ?v @ t" by (simp add: row_serialize_def Let_def)
  moreover have "length ?h = 18" by simp
  ultimately have "rest s = ?h @ ?t4" using assms(3,4) by (simp only: take_append) simp
  then have "rest s = word_bytes (entry_byte (row_entry r)) @ word_bytes (8 :: u8) @ word_bytes (key_id (row_key r)) @
      word_bytes (size_of_list ?v) @ ?t4" by simp
  note header = row_deserialize_header [OF assms(2) wf_row_fields(2) [OF assms(1)] this, of junk]
  have ng: "\<not> is_good ?s" by (simp add: is_good_def)
  have same: "?s\<lparr>failbit := True\<rparr> = ?s" by simp
  have rest: "rbind (read_into (length ?v) (replicate (length ?v) 0) (s\<lparr>rest := ?t4\<rparr>))
      (\<lambda>(value, s5). rbind (read_word 1 (0 :: u8) s5) (f value)) =
    f (?t4 @ replicate (length ?v - i) 0) (0, ?s)" for f
  proof (cases "i = length ?v")
    case True
    then have "read_into (length ?v) (replicate (length ?v) 0) (s\<lparr>rest := ?t4\<rparr>) = Inr (?v, s\<lparr>rest := []\<rparr>)"
      using assms(2) by (simp add: read_into_def is_read_def)
    moreover have "read_word 1 (0 :: u8) (s\<lparr>rest := []\<rparr>) = Inr (0, ?s)"
      using assms(2) by (simp add: read_word_at_end)
    ultimately show ?thesis using True by simp
  next
    case False
    then have "read_into (length ?v) (replicate (length ?v) 0) (s\<lparr>rest := ?t4\<rparr>) =
        Inr (?t4 @ replicate (length ?v - i) 0, ?s)"
      using assms(2,3) by (subst read_into_short) simp_all
    moreover have "read_word 1 (0 :: u8) ?s = Inr (0, ?s)" using read_word_not_good [OF ng, of 1 "0 :: u8"] same by simp
    ultimately show ?thesis by simp
  qed
  have "read_into (unat (0 :: u8)) (word_bytes (0 :: u64) @ word_bytes (0 :: u64)) ?s =
      Inr (word_bytes (0 :: u64) @ word_bytes (0 :: u64), ?s)"
    using read_into_not_good [OF ng] same by simp
  then show ?thesis
    unfolding header by (simp only: wf_row_fields [OF assms(1)] rest rbind.simps prod.case) (simp add: torn_row_def)
qed

text \<open>Every read moves forward or hits the end, so the load loops stop.\<close>

definition reads_on :: "istream \<Rightarrow> istream \<Rightarrow> bool" where
  "reads_on s s' \<longleftrightarrow> (eofbit s \<longrightarrow> eofbit s') \<and>
     (is_good s \<longrightarrow> eofbit s' \<or> (is_good s' \<and> length (rest s') \<le> length (rest s)))"

lemma reads_on_trans: "reads_on a b \<Longrightarrow> reads_on b c \<Longrightarrow> reads_on a c"
  by (auto simp: reads_on_def)

lemma reads_on_is_read: "is_read n s = (got, s') \<Longrightarrow> reads_on s s'"
  by (drule is_read_cases) (auto simp: reads_on_def is_good_def is_read_def dest: arg_cong [where f = length])

lemma reads_on_read_into: "read_into n old s = Inr (bs, s') \<Longrightarrow> reads_on s s'"
  by (cases "is_read n s") (auto simp: read_into_def split: if_splits intro: reads_on_is_read)

lemma reads_on_read_word: "read_word n old s = Inr (w, s') \<Longrightarrow> reads_on s s'"
  by (auto simp: read_word_def rmap_Inr_iff intro: reads_on_read_into)

lemma read_word_consumes:
  assumes "read_word n old s = Inr (w, s')" "is_good s" "n > 0"
  shows "eofbit s' \<or> (is_good s' \<and> length (rest s') < length (rest s))"
proof -
  obtain got u where ru: "is_read n s = (got, u)" by (cases "is_read n s")
  with assms(1) have "u = s'"
    by (auto simp: read_word_def rmap_Inr_iff read_into_def split: if_splits)
  with is_read_cases [OF ru] assms(2,3) show ?thesis by auto
qed

lemma row_deserialize_advances:
  assumes "row_deserialize junk s = Inr (r, s')" "is_good s"
  shows "eofbit s' \<or> (is_good s' \<and> length (rest s') < length (rest s))"
proof -
  from assms(1) obtain e s1 where first: "read_word 1 junk s = Inr (e, s1)" and "reads_on s1 s'"
    unfolding row_deserialize_def
    by (auto simp: rbind_Inr_iff split: if_splits prod.splits
        dest!: reads_on_read_word reads_on_read_into) (metis reads_on_trans)
  with read_word_consumes [OF first assms(2)] show ?thesis
    by (auto simp: reads_on_def)
qed

lemma row_loop_advances: "advances (read_each (row_deserialize junk) f)"
  by (auto simp: advances_def read_each_def rmap_Inr_iff dest: row_deserialize_advances)

interpretation row_format: stream_format row_serialize "row_deserialize junk" wf_row for junk
  by unfold_locales (auto intro: row_deserialize_serialize)

section \<open>Properties\<close>

text \<open>
  C26: A row that is serialized reads back as the same row, from the start of any good stream,
  and the stream is left right behind it; \<open>getRowSize\<close> is the number of bytes written.
\<close>

theorem row_round_trip:
  assumes "wf_row r" "is_good s" "rest s = row_serialize r @ t"
  shows "row_deserialize junk s = Inr (r, s\<lparr>rest := t\<rparr>) \<and> unat (getRowSize r) = length (row_serialize r)"
  using row_deserialize_serialize [OF assms] unat_getRowSize [of r] wf_row_length [OF assms(1)] by simp

theorem row_round_trip_witness:
  "row_deserialize 9 (fresh_stream (row_serialize (make_put_row (Key 5) [1, 2, 3] (7, 8)) @ [4])) =
     Inr (make_put_row (Key 5) [1, 2, 3] (7, 8),
       (fresh_stream (row_serialize (make_put_row (Key 5) [1, 2, 3] (7, 8)) @ [4]))\<lparr>rest := [4]\<rparr>) \<and>
   unat (getRowSize (make_put_row (Key 5) [1, 2, 3] (7, 8))) = 38"
  using row_round_trip [of "make_put_row (Key 5) [1, 2, 3] (7, 8)"
      "fresh_stream (row_serialize (make_put_row (Key 5) [1, 2, 3] (7, 8)) @ [4])" "[4]" 9]
  by (simp add: wf_row_def make_put_row_def entry_byte_def entry_of_byte_def max_string_size)

end
