(* ===== verification/SSTable.thy ===== *)
theory SSTable
  imports SSTableRow "HOL-Library.Multiset"
begin

text \<open>
  The in-memory list of rows of src/SSTable.h and src/SSTable.cpp: appending, loading from
  and dumping to a stream, and \<open>merge\<close>, which orders the shared pointers it is given.
\<close>

record sstable =
  m_rows :: "sstable_row list"

definition empty_sstable :: sstable where
  "empty_sstable = \<lparr>m_rows = []\<rparr>"

definition sstable_append :: "sstable_row \<Rightarrow> sstable \<Rightarrow> sstable" where
  "sstable_append row t = t\<lparr>m_rows := m_rows t @ [row]\<rparr>"

definition getRowList :: "sstable \<Rightarrow> sstable_row list" where
  "getRowList t = m_rows t"

definition sstable_load :: "u8 \<Rightarrow> sstable \<Rightarrow> istream \<Rightarrow> (sstable \<times> istream) result option" where
  "sstable_load junk t s =
     stream_loop (read_each (row_deserialize junk) (\<lambda>t row. sstable_append row t)) t s"

definition sstable_dump :: "sstable \<Rightarrow> bytes" where
  "sstable_dump t = concat (map row_serialize (m_rows t))"

section \<open>Merging\<close>

text \<open>
  A \<open>SSTableRowPtr\<close> is a row and the address it lives at. \<open>std::merge\<close> is called without a
  comparison, so it compares the pointers, that is the addresses.
\<close>

type_synonym row_ptr = "nat \<times> sstable_row"

fun ptr_merge :: "row_ptr list \<Rightarrow> row_ptr list \<Rightarrow> row_ptr list" where
  "ptr_merge [] ys = ys"
| "ptr_merge xs [] = xs"
| "ptr_merge (x # xs) (y # ys) =
     (if fst y < fst x then y # ptr_merge (x # xs) ys else x # ptr_merge xs (y # ys))"

text \<open>\<open>std::unique\<close>: an element equal to the last one kept is dropped.\<close>

fun unique_from :: "row_ptr \<Rightarrow> row_ptr list \<Rightarrow> row_ptr list" where
  "unique_from x [] = []"
| "unique_from x (y # ys) =
     (if row_key (snd x) = row_key (snd y) then unique_from x ys else y # unique_from y ys)"

fun unique_rows :: "row_ptr list \<Rightarrow> row_ptr list" where
  "unique_rows [] = []"
| "unique_rows (x # xs) = x # unique_from x xs"

definition sstable_merge :: "nat list \<Rightarrow> nat list \<Rightarrow> sstable \<Rightarrow> sstable \<Rightarrow> sstable" where
  "sstable_merge addrs1 addrs2 t other =
     t\<lparr>m_rows := map snd (unique_rows
        (ptr_merge (zip addrs1 (m_rows t)) (zip addrs2 (m_rows other))))\<rparr>"

section \<open>Load and dump\<close>

lemma foldl_sstable_append: "foldl (\<lambda>t row. sstable_append row t) t rows = t\<lparr>m_rows := m_rows t @ rows\<rparr>"
  by (induction rows arbitrary: t) (auto simp: sstable_append_def)

lemma sstable_load_rows:
  assumes "rows \<noteq> []" "\<forall>r \<in> set rows. wf_row r" "is_good s" "rest s = concat (map row_serialize rows)"
  shows "sstable_load junk t s =
    Some (Inr (t\<lparr>m_rows := m_rows t @ rows\<rparr>, s\<lparr>rest := [], eofbit := True\<rparr>))"
  unfolding sstable_load_def
  by (simp only: row_format.each.loop_reads_back [OF assms] foldl_sstable_append)

section \<open>What merge keeps\<close>

lemma set_ptr_merge: "set (ptr_merge xs ys) = set xs \<union> set ys"
  by (induction xs ys rule: ptr_merge.induct) auto

lemma ptr_merge_lower:
  "\<forall>x \<in> set xs. \<forall>y \<in> set ys. fst x \<le> fst y \<Longrightarrow> ptr_merge xs ys = xs @ ys"
  by (induction xs ys rule: ptr_merge.induct) (auto simp: not_less)

lemma ptr_merge_upper:
  "\<forall>x \<in> set xs. \<forall>y \<in> set ys. fst y < fst x \<Longrightarrow> ptr_merge xs ys = ys @ xs"
  by (induction xs ys rule: ptr_merge.induct) auto

text \<open>On sorted addresses the merge is the stable sort, the rows of the first table first.\<close>

lemma sorted_ptr_merge:
  "sorted (map fst xs) \<Longrightarrow> sorted (map fst ys) \<Longrightarrow> sorted (map fst (ptr_merge xs ys))"
  by (induction xs ys rule: ptr_merge.induct) (auto simp: set_ptr_merge)

lemma filter_address_above:
  fixes xs :: "row_ptr list"
  shows "\<forall>p \<in> set xs. b \<le> fst p \<Longrightarrow> a < b \<Longrightarrow> filter (\<lambda>p. a = fst p) xs = []"
  by (induction xs) auto

lemma filter_ptr_merge:
  "sorted (map fst xs) \<Longrightarrow> sorted (map fst ys) \<Longrightarrow>
   filter (\<lambda>p. a = fst p) (ptr_merge xs ys) = filter (\<lambda>p. a = fst p) (xs @ ys)"
  by (induction xs ys rule: ptr_merge.induct) (auto simp: filter_address_above)

lemma mset_ptr_merge: "mset (ptr_merge xs ys) = mset (xs @ ys)"
  by (induction xs ys rule: ptr_merge.induct) auto

lemma ptr_merge_sort:
  assumes "sorted (map fst xs)" "sorted (map fst ys)"
  shows "ptr_merge xs ys = sort_key fst (xs @ ys)"
  by (rule properties_for_sort_key [symmetric])
    (simp_all only: mset_ptr_merge filter_ptr_merge [OF assms] sorted_ptr_merge [OF assms])

lemma set_unique_from_subset: "set (unique_from x ys) \<subseteq> set ys"
  by (induction x ys rule: unique_from.induct) auto

lemma set_unique_rows_subset: "set (unique_rows xs) \<subseteq> set xs"
  using set_unique_from_subset by (cases xs) fastforce+

abbreviation ptr_key :: "row_ptr \<Rightarrow> key" where
  "ptr_key p \<equiv> row_key (snd p)"

lemma keys_unique_from:
  "insert (ptr_key x) (ptr_key ` set (unique_from x ys)) = insert (ptr_key x) (ptr_key ` set ys)"
  by (induction x ys rule: unique_from.induct) auto

lemma keys_unique_rows: "ptr_key ` set (unique_rows xs) = ptr_key ` set xs"
  using keys_unique_from by (cases xs) simp_all

lemma unique_from_neighbours:
  "successively (\<lambda>p q. ptr_key p \<noteq> ptr_key q) (x # unique_from x ys)"
  by (induction x ys rule: unique_from.induct) auto

lemma unique_rows_neighbours: "successively (\<lambda>p q. ptr_key p \<noteq> ptr_key q) (unique_rows xs)"
  using unique_from_neighbours by (cases xs) simp_all

lemma unique_from_id:
  "successively (\<lambda>p q. ptr_key p \<noteq> ptr_key q) (x # ys) \<Longrightarrow> unique_from x ys = ys"
  by (induction x ys rule: unique_from.induct) auto

lemma unique_rows_id: "successively (\<lambda>p q. ptr_key p \<noteq> ptr_key q) xs \<Longrightarrow> unique_rows xs = xs"
  by (cases xs) (auto simp: unique_from_id)

section \<open>Properties\<close>

text \<open>
  C27: Loading a table from a stream that opened always returns, with a table or an exception,
  whatever bytes the file holds.
\<close>

theorem load_returns:
  assumes "is_good s \<or> eofbit s"
  shows "\<exists>r. sstable_load junk t s = Some r"
  unfolding sstable_load_def by (rule stream_loop_returns [OF row_loop_advances assms])

theorem load_returns_witness:
  "\<exists>r. sstable_load 7 empty_sstable (fresh_stream [0, 8, 1, 2]) = Some r"
  by (rule load_returns) simp

text \<open>
  Loading from a stream that failed to open never returns: no read reaches the end of such
  a stream, and the end is what the loop waits for.
\<close>

theorem load_of_closed_stream_never_returns:
  "sstable_load junk t closed_stream = None"
  unfolding sstable_load_def
proof (rule stream_loop_never_returns)
  fix acc :: sstable and s :: istream
  assume s: "failbit s" "\<not> eofbit s"
  then have "\<not> is_good s" by (simp add: is_good_def)
  with s show "\<exists>acc' s'. read_each (row_deserialize junk) (\<lambda>t row. sstable_append row t) acc s = Inr (acc', s') \<and>
      failbit s' \<and> \<not> eofbit s'"
    by (simp add: read_each_def row_deserialize_not_good)
qed (simp_all add: closed_stream_def)

text \<open>
  A table that is dumped and loaded into an empty table is the same table.
\<close>

theorem table_round_trip:
  assumes "m_rows t \<noteq> []" "\<forall>r \<in> set (m_rows t). wf_row r"
  shows "\<exists>s. sstable_load junk empty_sstable (fresh_stream (sstable_dump t)) = Some (Inr (t, s))"
  using sstable_load_rows [OF assms, of "fresh_stream (sstable_dump t)" junk empty_sstable]
  by (simp add: sstable_dump_def empty_sstable_def)

theorem table_round_trip_witness:
  "\<exists>s. sstable_load 7 empty_sstable (fresh_stream (sstable_dump
       \<lparr>m_rows = [make_put_row (Key 1) [5, 6] (1, 2), make_remove_row (Key 3)]\<rparr>)) =
     Some (Inr (\<lparr>m_rows = [make_put_row (Key 1) [5, 6] (1, 2), make_remove_row (Key 3)]\<rparr>, s))"
  by (rule table_round_trip)
    (simp_all add: wf_row_def make_put_row_def make_remove_row_def entry_byte_def entry_of_byte_def
      max_string_size)

text \<open>
  Merging two tables keeps every key of either, adds no row, and leaves no two
  neighbouring rows with the same key, wherever the rows lie in memory.
\<close>

theorem merge_keeps_keys:
  assumes "length addrs1 = length (m_rows t)" "length addrs2 = length (m_rows other)"
  shows "row_key ` set (m_rows (sstable_merge addrs1 addrs2 t other)) =
      row_key ` set (m_rows t) \<union> row_key ` set (m_rows other) \<and>
    set (m_rows (sstable_merge addrs1 addrs2 t other)) \<subseteq> set (m_rows t) \<union> set (m_rows other) \<and>
    successively (\<lambda>r r'. row_key r \<noteq> row_key r') (m_rows (sstable_merge addrs1 addrs2 t other))"
proof -
  let ?xs = "zip addrs1 (m_rows t)" and ?ys = "zip addrs2 (m_rows other)"
  have snd: "snd ` set ?xs = set (m_rows t)" "snd ` set ?ys = set (m_rows other)"
    using assms by (simp_all flip: set_map)
  have all: "snd ` set (ptr_merge ?xs ?ys) = set (m_rows t) \<union> set (m_rows other)"
    by (simp only: set_ptr_merge image_Un snd)
  have "row_key ` snd ` set (unique_rows (ptr_merge ?xs ?ys)) = row_key ` snd ` set (ptr_merge ?xs ?ys)"
    using keys_unique_rows by (simp add: image_image)
  moreover have "snd ` set (unique_rows (ptr_merge ?xs ?ys)) \<subseteq> set (m_rows t) \<union> set (m_rows other)"
    using all image_mono [OF set_unique_rows_subset, of snd "ptr_merge ?xs ?ys"] by simp
  ultimately show ?thesis
    using all unique_rows_neighbours [of "ptr_merge ?xs ?ys"]
    by (simp add: sstable_merge_def successively_map image_Un)
qed

theorem merge_keeps_keys_witness:
  "row_key ` set (m_rows (sstable_merge [10, 20] [5] \<lparr>m_rows = [make_remove_row (Key 1), make_remove_row (Key 3)]\<rparr>
       \<lparr>m_rows = [make_remove_row (Key 1)]\<rparr>)) = {Key 1, Key 3}"
  using merge_keeps_keys [of "[10, 20]" "\<lparr>m_rows = [make_remove_row (Key 1), make_remove_row (Key 3)]\<rparr>"
      "[5]" "\<lparr>m_rows = [make_remove_row (Key 1)]\<rparr>"]
  by (simp add: make_remove_row_def insert_commute)

text \<open>
  C28: Merging goes by the addresses of the rows, and never by their keys. For tables whose rows lie
  at ascending addresses, which is what \<open>std::merge\<close> without a comparison requires, the merged rows
  are those of both tables sorted stably by address, each row dropped whose key is that of the row
  kept before it. So rows of one table that lie between those of the other come between them; where
  all rows of one table lie below those of the other, one list is appended to the other, the first
  or the second, and two tables sorted by key need not give a sorted one.
\<close>

theorem merge_goes_by_address:
  assumes "length addrs1 = length (m_rows t)" "length addrs2 = length (m_rows other)"
    "sorted addrs1" "sorted addrs2"
  shows "m_rows (sstable_merge addrs1 addrs2 t other) =
      map snd (unique_rows (sort_key fst (zip addrs1 (m_rows t) @ zip addrs2 (m_rows other)))) \<and>
    ((\<forall>a \<in> set addrs1. \<forall>b \<in> set addrs2. a < b) \<longrightarrow>
       successively (\<lambda>r r'. row_key r \<noteq> row_key r') (m_rows t @ m_rows other) \<longrightarrow>
       m_rows (sstable_merge addrs1 addrs2 t other) = m_rows t @ m_rows other) \<and>
    ((\<forall>a \<in> set addrs1. \<forall>b \<in> set addrs2. b < a) \<longrightarrow>
       successively (\<lambda>r r'. row_key r \<noteq> row_key r') (m_rows other @ m_rows t) \<longrightarrow>
       m_rows (sstable_merge addrs1 addrs2 t other) = m_rows other @ m_rows t)"
proof -
  let ?xs = "zip addrs1 (m_rows t)" and ?ys = "zip addrs2 (m_rows other)"
  have fst: "map fst ?xs = addrs1" "map fst ?ys = addrs2" and snd: "map snd ?xs = m_rows t" "map snd ?ys = m_rows other"
    using assms(1,2) by simp_all
  have merge: "ptr_merge ?xs ?ys = sort_key fst (?xs @ ?ys)"
    using assms(3,4) by (intro ptr_merge_sort) (simp_all only: fst)
  moreover have "ptr_merge ?xs ?ys = ?xs @ ?ys" if "\<forall>a \<in> set addrs1. \<forall>b \<in> set addrs2. a < b"
    using that by (intro ptr_merge_lower) (fastforce dest!: set_zip_leftD)
  moreover have "ptr_merge ?xs ?ys = ?ys @ ?xs" if "\<forall>a \<in> set addrs1. \<forall>b \<in> set addrs2. b < a"
    using that by (intro ptr_merge_upper) (fastforce dest!: set_zip_leftD)
  moreover have "map snd (unique_rows ps) = map snd ps"
    if "successively (\<lambda>r r'. row_key r \<noteq> row_key r') (map snd ps)" for ps :: "row_ptr list"
    using that unfolding successively_map by (simp add: unique_rows_id)
  ultimately show ?thesis using snd by (simp add: sstable_merge_def)
qed

theorem merge_goes_by_address_witness:
  "map row_key (m_rows (sstable_merge [10, 30] [20, 40]
       \<lparr>m_rows = [make_remove_row (Key 2), make_remove_row (Key 5)]\<rparr>
       \<lparr>m_rows = [make_remove_row (Key 1), make_remove_row (Key 5)]\<rparr>)) = [Key 2, Key 1, Key 5] \<and>
   map row_key (m_rows (sstable_merge [30, 40] [10, 20]
       \<lparr>m_rows = [make_remove_row (Key 2), make_remove_row (Key 5)]\<rparr>
       \<lparr>m_rows = [make_remove_row (Key 1), make_remove_row (Key 5)]\<rparr>)) = [Key 1, Key 5, Key 2, Key 5]"
  using merge_goes_by_address [of "[10, 30]"
      "\<lparr>m_rows = [make_remove_row (Key 2), make_remove_row (Key 5)]\<rparr>" "[20, 40]"
      "\<lparr>m_rows = [make_remove_row (Key 1), make_remove_row (Key 5)]\<rparr>"]
    merge_goes_by_address [of "[30, 40]"
      "\<lparr>m_rows = [make_remove_row (Key 2), make_remove_row (Key 5)]\<rparr>" "[10, 20]"
      "\<lparr>m_rows = [make_remove_row (Key 1), make_remove_row (Key 5)]\<rparr>"]
  by (simp add: make_remove_row_def)

end
