(* ===== verification/SSTableIndex.thy ===== *)
theory SSTableIndex
  imports SSTable "HOL-Library.Multiset"
begin

text \<open>
  The per-segment index of src/SSTableIndex.h and src/SSTableIndex.cpp: a hash map from keys to
  the offset and size of their row in the segment file, its construction from a table, and
  its binary form.
\<close>

section \<open>State and operations\<close>

record file_search_hint =
  fh_offset :: u32
  fh_size :: u32

definition default_hint :: file_search_hint where
  "default_hint = \<lparr>fh_offset = 0, fh_size = 0\<rparr>"

definition FileSearchHint :: "u32 \<Rightarrow> u32 \<Rightarrow> file_search_hint" where
  "FileSearchHint off sz = \<lparr>fh_offset = off, fh_size = sz\<rparr>"

text \<open>The \<open>unordered_map\<close> is an association list without duplicate keys.\<close>

record sstable_index =
  si_map :: "(key \<times> file_search_hint) list"
  si_fileId :: u32

definition new_sstable_index :: "u32 \<Rightarrow> sstable_index" where
  "new_sstable_index fileId = \<lparr>si_map = [], si_fileId = fileId\<rparr>"

text \<open>\<open>insert_or_assign\<close>, against \<open>insert\<close>, which keeps an entry that is already there.\<close>

definition si_insert :: "key \<Rightarrow> file_search_hint \<Rightarrow> sstable_index \<Rightarrow> sstable_index" where
  "si_insert k h t = t\<lparr>si_map := AList.update k h (si_map t)\<rparr>"

definition si_insert_new :: "key \<Rightarrow> file_search_hint \<Rightarrow> sstable_index \<Rightarrow> sstable_index" where
  "si_insert_new k h t =
     (case map_of (si_map t) k of None \<Rightarrow> t\<lparr>si_map := AList.update k h (si_map t)\<rparr> | Some _ \<Rightarrow> t)"

text \<open>The result and the hint that the output parameter is left with.\<close>

definition si_get :: "key \<Rightarrow> sstable_index \<Rightarrow> bool \<times> file_search_hint" where
  "si_get k t =
     (case map_of (si_map t) k of
        None \<Rightarrow> (False, default_hint)
      | Some h \<Rightarrow> (True, h))"

definition getFileId :: "sstable_index \<Rightarrow> u32" where
  "getFileId t = si_fileId t"

text \<open>
  The constructor that indexes a table. \<open>offset\<close> is a \<open>uint32_t\<close>: both the assignment of the
  sum and the conversion of the row size to the hint's fields truncate.
\<close>

fun index_rows :: "u32 \<Rightarrow> sstable_row list \<Rightarrow> sstable_index \<Rightarrow> sstable_index" where
  "index_rows offset [] t = t"
| "index_rows offset (row # rows) t =
     index_rows (ucast (ucast offset + getRowSize row)) rows
       (si_insert (row_key row) (FileSearchHint offset (ucast (getRowSize row))) t)"

definition sstable_index_of :: "u32 \<Rightarrow> sstable \<Rightarrow> sstable_index" where
  "sstable_index_of fileId table = index_rows 0 (getRowList table) (new_sstable_index fileId)"

section \<open>Binary form\<close>

definition hint_bytes :: "file_search_hint \<Rightarrow> bytes" where
  "hint_bytes h = word_bytes (fh_offset h) @ word_bytes (fh_size h)"

definition hint_of_bytes :: "bytes \<Rightarrow> file_search_hint" where
  "hint_of_bytes bs = FileSearchHint (word_of_bytes (take 4 bs)) (word_of_bytes (drop 4 bs))"

definition entry_serialize :: "key \<times> file_search_hint \<Rightarrow> bytes" where
  "entry_serialize e =
     word_bytes (8 :: u8) @ word_bytes (key_id (fst e)) @ word_bytes (8 :: u8) @ hint_bytes (snd e)"

text \<open>
  \<open>dump\<close> walks the hash map in an order the standard leaves open: \<open>order\<close> stands for the
  implementation's. The stream's \<open>is_open\<close> is an argument.
\<close>

definition si_dump ::
    "((key \<times> file_search_hint) list \<Rightarrow> (key \<times> file_search_hint) list) \<Rightarrow> bool \<Rightarrow> sstable_index \<Rightarrow> bytes result"
  where
  "si_dump order opened t =
     (if \<not> opened then Inl (Runtime_error ''invalid output stream'')
      else Inr (word_bytes (4 :: u8) @ word_bytes (si_fileId t) @
             concat (map entry_serialize (order (si_map t)))))"

text \<open>
  The variables of \<open>load\<close> that live across rounds of its loop: a read that fails leaves them
  at what the round before read.
\<close>

record load_vars =
  lv_index :: sstable_index
  lv_sizeOfKey :: u8
  lv_sizeOfHint :: u8
  lv_key :: u64
  lv_hint :: file_search_hint

definition si_load_body :: "load_vars \<Rightarrow> istream \<Rightarrow> (load_vars \<times> istream) result" where
  "si_load_body v s0 =
     rbind (read_word 1 (lv_sizeOfKey v) s0) (\<lambda>(sizeOfKey, s1).
     rbind (read_word (unat sizeOfKey) (lv_key v) s1) (\<lambda>(kid, s2).
     rbind (read_word 1 (lv_sizeOfHint v) s2) (\<lambda>(sizeOfHint, s3).
     rbind (read_into (unat sizeOfHint) (hint_bytes (lv_hint v)) s3) (\<lambda>(bs, s4).
     Inr (\<lparr>lv_index = si_insert_new (Key kid) (hint_of_bytes bs) (lv_index v),
            lv_sizeOfKey = sizeOfKey, lv_sizeOfHint = sizeOfHint, lv_key = kid,
            lv_hint = hint_of_bytes bs\<rparr>, s4)))))"

definition si_load :: "sstable_index \<Rightarrow> istream \<Rightarrow> sstable_index result option" where
  "si_load t s =
     (if \<not> is_open s then Some (Inl (Runtime_error ''invalid input stream''))
      else
        case rbind (read_word 1 (0 :: u8) s) (\<lambda>(sizeOfFileId, s1).
               read_word (unat sizeOfFileId) (si_fileId t) s1) of
          Inl e \<Rightarrow> Some (Inl e)
        | Inr (fileId, s2) \<Rightarrow>
            map_option (rmap (\<lambda>(v, _). lv_index v))
              (stream_loop si_load_body
                \<lparr>lv_index = t\<lparr>si_fileId := fileId\<rparr>, lv_sizeOfKey = 0, lv_sizeOfHint = 0,
                 lv_key = 0, lv_hint = default_hint\<rparr> s2))"

section \<open>Lookup after insertion\<close>

text \<open>The contract of a table of values by key that \<open>Index\<close> and the storage engine rely on.\<close>

locale key_table =
  fixes insert :: "'k \<Rightarrow> 'v \<Rightarrow> 't \<Rightarrow> 't"
    and lookup :: "'t \<Rightarrow> 'k \<Rightarrow> 'v option"
    and invar :: "'t \<Rightarrow> bool"
    and fits :: "'t \<Rightarrow> nat \<Rightarrow> bool"
  assumes lookup_insert: "invar t \<Longrightarrow> fits t 1 \<Longrightarrow> lookup (insert k v t) = (lookup t)(k \<mapsto> v)"
    and invar_insert: "invar t \<Longrightarrow> fits t 1 \<Longrightarrow> invar (insert k v t)"
    and fits_insert: "invar t \<Longrightarrow> fits t (Suc n) \<Longrightarrow> fits (insert k v t) n"
    and fits_mono: "fits t n \<Longrightarrow> m \<le> n \<Longrightarrow> fits t m"
begin

definition insert_all :: "('k \<times> 'v) list \<Rightarrow> 't \<Rightarrow> 't" where
  "insert_all kvs t = foldl (\<lambda>t (k, v). insert k v t) t kvs"

lemma insert_all_lookup:
  "invar t \<Longrightarrow> fits t (length kvs) \<Longrightarrow>
   invar (insert_all kvs t) \<and> lookup (insert_all kvs t) = lookup t ++ map_of (rev kvs)"
proof (induction kvs arbitrary: t)
  case Nil
  then show ?case by (simp add: insert_all_def)
next
  case (Cons e kvs)
  obtain k v where e: "e = (k, v)" by (cases e)
  have one: "fits t 1" using Cons.prems by (auto intro: fits_mono)
  then have "invar (insert k v t)" "fits (insert k v t) (length kvs)"
    using Cons.prems by (auto intro: invar_insert fits_insert)
  from Cons.IH [OF this] show ?case
    using e one Cons.prems(1) by (auto simp: insert_all_def lookup_insert map_add_def fun_eq_iff split: option.splits)
qed

end

definition si_lookup :: "sstable_index \<Rightarrow> key \<Rightarrow> file_search_hint option" where
  "si_lookup t = map_of (si_map t)"

definition si_inv :: "sstable_index \<Rightarrow> bool" where
  "si_inv t \<longleftrightarrow> distinct (map fst (si_map t))"

lemma si_lookup_insert [simp]: "si_lookup (si_insert k h t) = (si_lookup t)(k \<mapsto> h)"
  by (simp add: si_lookup_def si_insert_def update_conv')

lemma si_lookup_new [simp]: "si_lookup (new_sstable_index f) = Map.empty"
  by (simp add: si_lookup_def new_sstable_index_def)

lemma si_inv_insert: "si_inv t \<Longrightarrow> si_inv (si_insert k h t)"
  by (simp add: si_inv_def si_insert_def distinct_update)

interpretation sst: key_table si_insert si_lookup si_inv "\<lambda>_ _. True"
  by unfold_locales (auto intro: si_inv_insert)

lemma si_get_lookup:
  "si_get k t = (case si_lookup t k of None \<Rightarrow> (False, default_hint) | Some h \<Rightarrow> (True, h))"
  by (simp add: si_get_def si_lookup_def)

lemma si_lookup_insert_new:
  "si_lookup (si_insert_new k h t) = (if si_lookup t k = None then (si_lookup t)(k \<mapsto> h) else si_lookup t)"
  by (auto simp: si_lookup_def si_insert_new_def update_conv' split: option.splits)

lemma si_fileId_simps [simp]:
  "si_fileId (si_insert k h t) = si_fileId t"
  "si_fileId (si_insert_new k h t) = si_fileId t"
  "si_fileId (index_rows off rows t) = si_fileId t"
  by (simp_all add: si_insert_def si_insert_new_def split: option.splits)
    (induction off rows t rule: index_rows.induct, simp_all add: si_insert_def)

lemma si_fileId_of [simp]: "si_fileId (sstable_index_of f table) = f"
  by (simp add: sstable_index_of_def new_sstable_index_def)

section \<open>The index finds every row\<close>

text \<open>The bytes of a segment that a hint designates.\<close>

definition slice :: "file_search_hint \<Rightarrow> bytes \<Rightarrow> bytes" where
  "slice h bs = take (unat (fh_size h)) (drop (unat (fh_offset h)) bs)"

definition points_to :: "file_search_hint \<Rightarrow> bytes \<Rightarrow> sstable_row \<Rightarrow> bool" where
  "points_to h bs r \<longleftrightarrow> unat (fh_size h) = length (row_serialize r) \<and> slice h bs = row_serialize r"

abbreviation rows_bytes :: "sstable_row list \<Rightarrow> bytes" where
  "rows_bytes rows \<equiv> concat (map row_serialize rows)"

lemma index_rows_lookup_other:
  "k \<notin> row_key ` set rows \<Longrightarrow> si_lookup (index_rows off rows t) k = si_lookup t k"
  by (induction off rows t rule: index_rows.induct) auto

lemma unat_ucast_u32_u64 [simp]: "unat (ucast (w :: u32) :: u64) = unat w"
proof -
  have "unat w < 2 ^ 64"
    using unsigned_less [of w, where ?'a = nat] by simp
  then show ?thesis by (simp add: unsigned_ucast_eq take_bit_nat_eq_self)
qed

lemma unat_ucast_u64_u32: "unat (w :: u64) < 2 ^ 32 \<Longrightarrow> unat (ucast w :: u32) = unat w"
  by (simp add: unsigned_ucast_eq take_bit_nat_eq_self)

lemma index_rows_lookup:
  assumes "distinct (map row_key rows)" "unat off = length pre"
    "length (pre @ rows_bytes rows) < 2 ^ 32" "r \<in> set rows"
  shows "\<exists>h. si_lookup (index_rows off rows t) (row_key r) = Some h \<and>
    points_to h (pre @ rows_bytes rows @ post) r"
  using assms
proof (induction off rows t arbitrary: pre rule: index_rows.induct)
  case (1 off t)
  then show ?case by simp
next
  case (2 off row rows t)
  have size: "unat (getRowSize row) = length (row_serialize row)"
    using "2.prems"(3) by (intro unat_getRowSize) simp
  then have size32: "unat (ucast (getRowSize row) :: u32) = length (row_serialize row)"
    using "2.prems"(3) by (simp add: unat_ucast_u64_u32)
  let ?off = "ucast (ucast off + getRowSize row) :: u32"
  have "unat (ucast off + getRowSize row) = length (pre @ row_serialize row)"
    using size "2.prems"(2,3) by (subst unat_add_lem [THEN iffD1]) simp_all
  then have off: "unat ?off = length (pre @ row_serialize row)"
    using "2.prems"(3) by (subst unat_ucast_u64_u32) simp_all
  show ?case
  proof (cases "r = row")
    case True
    have "row_key row \<notin> row_key ` set rows" using "2.prems"(1) by simp
    then have "si_lookup (index_rows off (row # rows) t) (row_key r) =
        Some (FileSearchHint off (ucast (getRowSize row)))"
      using True by (simp add: index_rows_lookup_other)
    moreover have "points_to (FileSearchHint off (ucast (getRowSize row)))
        (pre @ rows_bytes (row # rows) @ post) row"
      using size32 "2.prems"(2) by (simp add: points_to_def slice_def FileSearchHint_def)
    ultimately show ?thesis using True by blast
  next
    case False
    then have "r \<in> set rows" using "2.prems"(4) by simp
    then show ?thesis
      using "2.IH" [of "pre @ row_serialize row"] "2.prems" off by simp
  qed
qed

lemma sstable_index_of_lookup:
  assumes "distinct (map row_key rows)" "length (rows_bytes rows) < 2 ^ 32" "r \<in> set rows"
  shows "\<exists>h. si_lookup (sstable_index_of f \<lparr>m_rows = rows\<rparr>) (row_key r) = Some h \<and>
    points_to h (rows_bytes rows) r"
  using index_rows_lookup [OF assms(1), of 0 "[]" r _ "[]"] assms
  by (simp add: sstable_index_of_def getRowList_def)

lemma sstable_index_of_lookup_other:
  "k \<notin> row_key ` set rows \<Longrightarrow> si_lookup (sstable_index_of f \<lparr>m_rows = rows\<rparr>) k = None"
  by (simp add: sstable_index_of_def getRowList_def index_rows_lookup_other)

section \<open>Loading a dump\<close>

lemma hint_of_bytes_hint_bytes [simp]: "hint_of_bytes (hint_bytes h) = h"
  by (simp add: hint_of_bytes_def hint_bytes_def FileSearchHint_def)

lemma length_hint_bytes [simp]: "length (hint_bytes h) = 8"
  by (simp add: hint_bytes_def)

definition load_step :: "load_vars \<Rightarrow> key \<times> file_search_hint \<Rightarrow> load_vars" where
  "load_step v e = \<lparr>lv_index = si_insert_new (fst e) (snd e) (lv_index v), lv_sizeOfKey = 8,
     lv_sizeOfHint = 8, lv_key = key_id (fst e), lv_hint = snd e\<rparr>"

lemma si_load_body_entry:
  assumes "is_good s" "rest s = entry_serialize e @ t"
  shows "si_load_body v s = Inr (load_step v e, s\<lparr>rest := t\<rparr>)"
proof -
  let ?t3 = "hint_bytes (snd e) @ t"
  let ?t2 = "word_bytes (8 :: u8) @ ?t3"
  let ?t1 = "word_bytes (key_id (fst e)) @ ?t2"
  have s: "s = s\<lparr>rest := word_bytes (8 :: u8) @ ?t1\<rparr>"
    using assms(2) by (simp add: entry_serialize_def)
  have r1: "read_word 1 (lv_sizeOfKey v) s = Inr (8, s\<lparr>rest := ?t1\<rparr>)"
    by (subst s, rule read_word_step) (use assms(1) in simp_all)
  have r2: "read_word 8 (lv_key v) (s\<lparr>rest := ?t1\<rparr>) = Inr (key_id (fst e), s\<lparr>rest := ?t2\<rparr>)"
    by (rule read_word_step) (use assms(1) in simp_all)
  have r3: "read_word 1 (lv_sizeOfHint v) (s\<lparr>rest := ?t2\<rparr>) = Inr (8, s\<lparr>rest := ?t3\<rparr>)"
    by (rule read_word_step) (use assms(1) in simp_all)
  have r4: "read_into 8 (hint_bytes (lv_hint v)) (s\<lparr>rest := ?t3\<rparr>) =
      Inr (hint_bytes (snd e), s\<lparr>rest := t\<rparr>)"
    by (rule read_into_step) (use assms(1) in simp_all)
  have eight: "unat (8 :: u8) = 8" by simp
  show ?thesis
    unfolding si_load_body_def
    by (simp only: r1 r2 r3 r4 eight rbind.simps prod.case) (simp add: load_step_def)
qed

lemma entry_serialize_not_Nil [simp]: "entry_serialize e \<noteq> []"
  by (simp add: entry_serialize_def)

interpretation entry_loop: load_loop entry_serialize "\<lambda>_. True" si_load_body load_step
  by unfold_locales (auto intro: si_load_body_entry)

lemma foldl_load_step:
  "lv_index (foldl load_step v es) = foldl (\<lambda>t (k, h). si_insert_new k h t) (lv_index v) es"
  by (induction es arbitrary: v) (auto simp: load_step_def)

lemma foldl_si_insert_new:
  "si_lookup (foldl (\<lambda>t (k, h). si_insert_new k h t) t es) = map_of es ++ si_lookup t \<and>
   si_fileId (foldl (\<lambda>t (k, h). si_insert_new k h t) t es) = si_fileId t"
proof (induction es arbitrary: t)
  case Nil
  show ?case by simp
next
  case (Cons e es)
  obtain k h where e: "e = (k, h)" by (cases e)
  show ?case
    using Cons [of "si_insert_new k h t"] e
    by (auto simp: si_lookup_insert_new map_add_def fun_eq_iff split: option.splits)
qed

lemma si_load_entries:
  assumes "is_good s" "is_open s" "es \<noteq> []"
    "rest s = word_bytes (4 :: u8) @ word_bytes (f :: u32) @ concat (map entry_serialize es)"
  shows "\<exists>t'. si_load t s = Some (Inr t') \<and> si_fileId t' = f \<and>
    si_lookup t' = map_of es ++ si_lookup t"
proof -
  let ?t2 = "concat (map entry_serialize es)"
  let ?t1 = "word_bytes f @ ?t2"
  have s: "s = s\<lparr>rest := word_bytes (4 :: u8) @ ?t1\<rparr>"
    using assms(4) by simp
  have r1: "read_word 1 (0 :: u8) s = Inr (4, s\<lparr>rest := ?t1\<rparr>)"
    by (subst s, rule read_word_step) (use assms(1) in simp_all)
  have r2: "read_word 4 (si_fileId t) (s\<lparr>rest := ?t1\<rparr>) = Inr (f, s\<lparr>rest := ?t2\<rparr>)"
    by (rule read_word_step) (use assms(1) in simp_all)
  let ?v = "\<lparr>lv_index = t\<lparr>si_fileId := f\<rparr>, lv_sizeOfKey = 0, lv_sizeOfHint = 0,
      lv_key = 0, lv_hint = default_hint\<rparr>"
  have four: "unat (4 :: u8) = 4" by simp
  have "stream_loop si_load_body ?v (s\<lparr>rest := ?t2\<rparr>) =
      Some (Inr (foldl load_step ?v es, s\<lparr>rest := [], eofbit := True\<rparr>))"
    using entry_loop.loop_reads_back [of es "s\<lparr>rest := ?t2\<rparr>" ?v] assms by simp
  then have "si_load t s = Some (Inr (lv_index (foldl load_step ?v es)))"
    unfolding si_load_def using assms(2)
    by (simp only: r1 r2 four rbind.simps prod.case if_False not_True_eq_False sum.case) simp
  moreover have "si_lookup (t\<lparr>si_fileId := f\<rparr>) = si_lookup t"
    by (simp add: si_lookup_def)
  ultimately show ?thesis
    using foldl_si_insert_new [of "t\<lparr>si_fileId := f\<rparr>" es] by (simp add: foldl_load_step)
qed

lemma map_of_order:
  assumes "distinct (map fst xs)" "mset ys = mset xs"
  shows "map_of ys = map_of xs"
proof -
  have "mset (map fst ys) = mset (map fst xs)" using assms(2) by simp
  then have "distinct (map fst ys)" using assms(1) by (metis mset_eq_imp_distinct_iff)
  moreover have "set ys = set xs" using assms(2) by (rule mset_eq_setD)
  ultimately show ?thesis using assms(1) by (subst map_of_inject_set) simp_all
qed

section \<open>Properties\<close>

text \<open>
  C19: The index built for a segment finds every row of it: for a table without duplicate keys
  whose bytes fit 32-bit offsets, each key has an entry, and the entry's offset and size cut
  exactly that row's bytes out of the segment file; no other key has an entry.
\<close>

theorem index_finds_every_row:
  assumes "distinct (map row_key rows)" "length (sstable_dump \<lparr>m_rows = rows\<rparr>) < 2 ^ 32"
  shows "(\<forall>r \<in> set rows. \<exists>h. si_get (row_key r) (sstable_index_of f \<lparr>m_rows = rows\<rparr>) = (True, h) \<and>
      slice h (sstable_dump \<lparr>m_rows = rows\<rparr>) = row_serialize r) \<and>
    (\<forall>k. k \<notin> row_key ` set rows \<longrightarrow> fst (si_get k (sstable_index_of f \<lparr>m_rows = rows\<rparr>)) = False)"
proof -
  have len: "length (rows_bytes rows) < 2 ^ 32"
    using assms(2) by (simp add: sstable_dump_def)
  show ?thesis
    using sstable_index_of_lookup [OF assms(1) len, of _ f] sstable_index_of_lookup_other [of _ rows f]
    by (fastforce simp: si_get_lookup points_to_def sstable_dump_def split: option.splits)
qed

theorem index_finds_every_row_witness:
  "\<exists>h. si_get (Key 3) (sstable_index_of 4 \<lparr>m_rows = [make_put_row (Key 1) [7] (0, 0), make_remove_row (Key 3)]\<rparr>)
       = (True, h) \<and>
     slice h (sstable_dump \<lparr>m_rows = [make_put_row (Key 1) [7] (0, 0), make_remove_row (Key 3)]\<rparr>) =
       row_serialize (make_remove_row (Key 3))"
  using index_finds_every_row [of "[make_put_row (Key 1) [7] (0, 0), make_remove_row (Key 3)]" 4]
  by (simp add: make_put_row_def make_remove_row_def sstable_dump_def)

text \<open>
  An index that is dumped, in whatever order the hash map is walked, loads back as an
  index with the same file id and the same entries.
\<close>

theorem index_file_round_trip:
  assumes "si_inv t" "si_map t \<noteq> []" "mset (order (si_map t)) = mset (si_map t)"
    "si_dump order True t = Inr bs"
  shows "\<exists>t'. si_load (new_sstable_index old) (fresh_stream bs) = Some (Inr t') \<and>
    si_fileId t' = si_fileId t \<and> si_lookup t' = si_lookup t"
proof -
  have bs: "bs = word_bytes (4 :: u8) @ word_bytes (si_fileId t) @
      concat (map entry_serialize (order (si_map t)))"
    using assms(4) by (simp add: si_dump_def)
  have "order (si_map t) \<noteq> []" using assms(2,3) by (metis mset_zero_iff)
  then obtain t' where t': "si_load (new_sstable_index old) (fresh_stream bs) = Some (Inr t')"
    "si_fileId t' = si_fileId t" "si_lookup t' = map_of (order (si_map t))"
    using si_load_entries [of "fresh_stream bs" "order (si_map t)" "si_fileId t" "new_sstable_index old"]
    by (auto simp: bs)
  have "map_of (order (si_map t)) = map_of (si_map t)"
    using assms(1,3) by (intro map_of_order) (simp add: si_inv_def)
  with t' show ?thesis by (simp add: si_lookup_def)
qed

theorem index_file_round_trip_witness:
  "\<exists>t'. si_load (new_sstable_index 0) (fresh_stream
       (word_bytes (4 :: u8) @ word_bytes (9 :: u32) @
        concat (map entry_serialize [(Key 2, FileSearchHint 5 6), (Key 1, FileSearchHint 0 5)]))) =
       Some (Inr t') \<and> si_fileId t' = 9 \<and>
     si_lookup t' = map_of [(Key 1, FileSearchHint 0 5), (Key 2, FileSearchHint 5 6)]"
  using index_file_round_trip [of "\<lparr>si_map = [(Key 1, FileSearchHint 0 5), (Key 2, FileSearchHint 5 6)], si_fileId = 9\<rparr>"
      rev "word_bytes (4 :: u8) @ word_bytes (9 :: u32) @
        concat (map entry_serialize [(Key 2, FileSearchHint 5 6), (Key 1, FileSearchHint 0 5)])" 0]
  by (simp add: si_inv_def si_dump_def si_lookup_def)

end
