(* ===== verification/WriteAheadLog.thy ===== *)
theory WriteAheadLog
  imports SSTableRow
begin

text \<open>
  The write-ahead log of src/WriteAheadLog.h and src/WriteAheadLog.cpp: an output file stream
  with a user-supplied buffer. The log file is truncated when it is opened; what is written
  reaches the file when the buffer is flushed, when the stream is closed, or at any earlier
  moment the library likes. A crash therefore leaves some prefix of what was written, at
  least as long as what was flushed.
\<close>

record wal =
  w_path :: path
  w_open :: bool
  w_bufferSize :: u32
  w_written :: bytes
  w_flushed :: nat

definition wal_open :: "path \<Rightarrow> u32 \<Rightarrow> fsys \<Rightarrow> wal \<times> fsys" where
  "wal_open p bufferSize fs =
     (\<lparr>w_path = p, w_open = can_write fs p, w_bufferSize = bufferSize, w_written = [],
       w_flushed = 0\<rparr>, write_file fs p [])"

definition wal_log :: "sstable_row \<Rightarrow> wal \<Rightarrow> wal" where
  "wal_log row w =
     (let data = row_serialize row
      in if w_open w then w\<lparr>w_written := w_written w @ data\<rparr> else w)"

definition flushAndClear :: "wal \<Rightarrow> fsys \<Rightarrow> wal \<times> fsys" where
  "flushAndClear w fs =
     (w\<lparr>w_flushed := length (w_written w), w_bufferSize := 0\<rparr>,
      if w_open w then write_file fs (w_path w) (w_written w) else fs)"

text \<open>The destructor closes the stream, which writes out what is buffered.\<close>

definition wal_close :: "wal \<Rightarrow> fsys \<Rightarrow> fsys" where
  "wal_close w fs = (if w_open w then write_file fs (w_path w) (w_written w) else fs)"

text \<open>A \<open>WriteAheadLogPtr\<close> that is reset or destroyed.\<close>

definition wal_release :: "wal option \<Rightarrow> fsys \<Rightarrow> fsys" where
  "wal_release p fs = (case p of None \<Rightarrow> fs | Some w \<Rightarrow> wal_close w fs)"

text \<open>A process that dies: the log file holds \<open>n\<close> bytes, not fewer than were flushed.\<close>

definition wal_crash :: "nat \<Rightarrow> wal \<Rightarrow> fsys \<Rightarrow> fsys" where
  "wal_crash n w fs =
     (if w_open w then write_file fs (w_path w) (take (max n (w_flushed w)) (w_written w)) else fs)"

lemma wal_log_simps [simp]:
  "w_path (wal_log r w) = w_path w" "w_open (wal_log r w) = w_open w"
  "w_flushed (wal_log r w) = w_flushed w" "w_bufferSize (wal_log r w) = w_bufferSize w"
  "w_open w \<Longrightarrow> w_written (wal_log r w) = w_written w @ row_serialize r"
  by (simp_all add: wal_log_def Let_def)

lemma wal_release_None [simp]: "wal_release None fs = fs"
  by (simp add: wal_release_def)

lemma foldl_wal_log:
  "w_open w \<Longrightarrow> foldl (\<lambda>w r. wal_log r w) w rows =
     w\<lparr>w_written := w_written w @ concat (map row_serialize rows)\<rparr>"
  by (induction rows arbitrary: w) (auto simp: wal_log_def Let_def)

end
