(* ===== verification/MemTable.thy ===== *)
theory MemTable
  imports SSTableIndex WriteAheadLog
begin

text \<open>
  The in-memory table of src/MemTable.h and src/MemTable.cpp: an ordered map of row versions
  numbered by an insertion counter, with every write also appended to the write-ahead log.
\<close>

section \<open>State and operations\<close>

record memtable =
  mt_map :: "(insert_key \<times> sstable_row) list"
  mt_counter :: u64
  mt_memorySize :: u64
  mt_wal :: "wal option"

definition new_memtable :: memtable where
  "new_memtable = \<lparr>mt_map = [], mt_counter = 0, mt_memorySize = 0, mt_wal = None\<rparr>"

definition mt_log :: "sstable_row \<Rightarrow> memtable \<Rightarrow> memtable" where
  "mt_log row m = m\<lparr>mt_wal := map_option (wal_log row) (mt_wal m)\<rparr>"

text \<open>The four overloads of \<open>put\<close>, and \<open>remove\<close>, which puts a tombstone.\<close>

definition mt_put_entry :: "key \<Rightarrow> bytes \<Rightarrow> u128 \<Rightarrow> entry_type \<Rightarrow> memtable \<Rightarrow> memtable" where
  "mt_put_entry k value checksum entryType m =
     (let insertKey = InsertKey (mt_counter m) k;
          m1 = m\<lparr>mt_counter := mt_counter m + 1\<rparr>;
          row = make_row k value entryType checksum;
          m2 = m1\<lparr>mt_memorySize := mt_memorySize m1 + getRowSize row\<rparr>;
          m3 = mt_log row m2
      in m3\<lparr>mt_map := map_insert insertKey row (mt_map m3)\<rparr>)"

definition mt_put :: "key \<Rightarrow> bytes \<Rightarrow> u128 \<Rightarrow> memtable \<Rightarrow> memtable" where
  "mt_put k value checksum m = mt_put_entry k value checksum EntryType_Put m"

definition mt_put_plain :: "key \<Rightarrow> bytes \<Rightarrow> memtable \<Rightarrow> memtable" where
  "mt_put_plain k value m = mt_put k value (0, 0) m"

definition mt_remove :: "key \<Rightarrow> memtable \<Rightarrow> memtable" where
  "mt_remove k m = mt_put_entry k [] (0, 0) EntryType_Remove m"

text \<open>The value and checksum handed out, or \<open>None\<close> where \<open>get\<close> returns false.\<close>

definition mt_get :: "key \<Rightarrow> memtable \<Rightarrow> (bytes \<times> u128) option" where
  "mt_get k m =
     (case map_find (mt_map m) (SearchKey k) of
        None \<Rightarrow> None
      | Some (_, row) \<Rightarrow>
          if row_entry row = EntryType_Remove then None
          else Some (row_value row, row_checksum row))"

definition mt_get_plain :: "key \<Rightarrow> memtable \<Rightarrow> bytes option" where
  "mt_get_plain k m = map_option fst (mt_get k m)"

text \<open>
  The three walks over the map that keep the first, that is newest, version of each key.
  Each starts from \<open>prevKeyId = std::string::npos\<close>, which is also a possible key id.
\<close>

definition npos :: u64 where
  "npos = - 1"

fun dump_loop :: "u64 \<Rightarrow> (insert_key \<times> sstable_row) list \<Rightarrow> bytes" where
  "dump_loop prevKeyId [] = []"
| "dump_loop prevKeyId ((insertKey, row) # m) =
     (let keyId = key_id (ik_key insertKey)
      in if prevKeyId = keyId then dump_loop prevKeyId m
         else row_serialize row @ dump_loop keyId m)"

definition mt_dump :: "memtable \<Rightarrow> bytes" where
  "mt_dump m = dump_loop npos (mt_map m)"

fun table_loop :: "u64 \<Rightarrow> (insert_key \<times> sstable_row) list \<Rightarrow> sstable \<Rightarrow> sstable" where
  "table_loop prevKeyId [] table = table"
| "table_loop prevKeyId ((insertKey, row) # m) table =
     (let keyId = key_id (ik_key insertKey)
      in if prevKeyId = keyId then table_loop prevKeyId m table
         else table_loop keyId m (sstable_append row table))"

definition createSortedStringsTable :: "memtable \<Rightarrow> sstable" where
  "createSortedStringsTable m = table_loop npos (mt_map m) empty_sstable"

fun index_loop ::
    "u64 \<Rightarrow> u64 \<Rightarrow> (insert_key \<times> sstable_row) list \<Rightarrow> sstable_index \<Rightarrow> sstable_index" where
  "index_loop prevKeyId offset [] index = index"
| "index_loop prevKeyId offset ((insertKey, row) # m) index =
     (let keyId = key_id (ik_key insertKey)
      in if prevKeyId = keyId then index_loop prevKeyId offset m index
         else let size = getRowSize row
              in index_loop keyId (offset + size) m
                   (si_insert (ik_key insertKey) (FileSearchHint (ucast offset) (ucast size)) index))"

definition createSortedStringsTableIndex :: "u64 \<Rightarrow> memtable \<Rightarrow> sstable_index" where
  "createSortedStringsTableIndex fileId m =
     index_loop npos 0 (mt_map m) (new_sstable_index (ucast fileId))"

text \<open>\<open>setWriteAheadLog\<close> opens the new log before it lets go of the old one.\<close>

definition setWriteAheadLog :: "path \<Rightarrow> u32 \<Rightarrow> memtable \<Rightarrow> fsys \<Rightarrow> memtable \<times> fsys" where
  "setWriteAheadLog p bufferSize m fs =
     (let (w, fs') = wal_open p bufferSize fs
      in (m\<lparr>mt_wal := Some w\<rparr>, wal_release (mt_wal m) fs'))"

definition restore_row :: "memtable \<Rightarrow> sstable_row \<Rightarrow> memtable" where
  "restore_row m row =
     (let k = InsertKey (mt_counter m) (row_key row);
          m1 = m\<lparr>mt_counter := mt_counter m + 1\<rparr>
      in m1\<lparr>mt_map := map_insert k row (mt_map m1)\<rparr>)"

definition restoreFromLog :: "u8 \<Rightarrow> memtable \<Rightarrow> istream \<Rightarrow> (memtable \<times> istream) result option" where
  "restoreFromLog junk m s =
     (if badbit s then Some (Inl (Runtime_error ''bad input stream''))
      else stream_loop (read_each (row_deserialize junk) restore_row) m s)"

definition getApproximateSize :: "memtable \<Rightarrow> u64" where
  "getApproximateSize m = mt_memorySize m"

text \<open>\<open>clear\<close> dereferences the log without a check.\<close>

definition mt_clear :: "memtable \<Rightarrow> fsys \<Rightarrow> (memtable \<times> fsys) result" where
  "mt_clear m fs =
     (let m1 = m\<lparr>mt_counter := 0, mt_memorySize := 0, mt_map := []\<rparr>
      in case mt_wal m1 of
           None \<Rightarrow> Inl (Undefined_behaviour ''null write-ahead log'')
         | Some w \<Rightarrow>
             (let (w', fs') = flushAndClear w fs in Inr (m1\<lparr>mt_wal := Some w'\<rparr>, fs')))"

section \<open>Invariant\<close>

text \<open>
  The map is in order, its ids are below the counter, and each row lies under its own key.
  \<open>mt_fits m n\<close>: \<open>n\<close> more writes do not wrap the counter.
\<close>

definition mt_inv :: "memtable \<Rightarrow> bool" where
  "mt_inv m \<longleftrightarrow> ordered (mt_map m) \<and>
     (\<forall>(ik, r) \<in> set (mt_map m). ik_id ik < mt_counter m \<and> ik_key ik = row_key r)"

definition mt_fits :: "memtable \<Rightarrow> nat \<Rightarrow> bool" where
  "mt_fits m n \<longleftrightarrow> unat (mt_counter m) + n < 2 ^ 64"

definition mt_lookup :: "memtable \<Rightarrow> key \<Rightarrow> sstable_row option" where
  "mt_lookup m = newest (mt_map m)"

lemma mt_inv_new [simp]: "mt_inv new_memtable"
  by (simp add: mt_inv_def new_memtable_def)

lemma mt_lookup_new [simp]: "mt_lookup new_memtable = Map.empty"
  by (simp add: mt_lookup_def new_memtable_def fun_eq_iff)

lemma mt_fits_new [simp]: "mt_fits new_memtable n \<longleftrightarrow> n < 2 ^ 64"
  by (simp add: mt_fits_def new_memtable_def)

lemma new_memtable_sel [simp]:
  "mt_map new_memtable = []" "mt_counter new_memtable = 0" "mt_memorySize new_memtable = 0"
  "mt_wal new_memtable = None"
  by (simp_all add: new_memtable_def)

lemma mt_counter_less:
  assumes "mt_fits m (Suc n)"
  shows "unat (mt_counter m + 1) = Suc (unat (mt_counter m))"
    and "i < mt_counter m \<Longrightarrow> i < mt_counter m + 1" and "mt_counter m < mt_counter m + 1"
proof -
  have "unat (mt_counter m) + unat (1 :: u64) < 2 ^ LENGTH(64)"
    using assms by (simp add: mt_fits_def)
  then have *: "unat (mt_counter m + 1) = unat (mt_counter m) + 1"
    by (subst (asm) unat_add_lem) simp
  then show "unat (mt_counter m + 1) = Suc (unat (mt_counter m))" by simp
  then show "mt_counter m < mt_counter m + 1" by (simp add: word_less_nat_alt)
  then show "i < mt_counter m \<Longrightarrow> i < mt_counter m + 1" by (rule less_trans [rotated])
qed

text \<open>Every way of adding a row adds it under a fresh id above all the others.\<close>

definition mt_add :: "key \<Rightarrow> sstable_row \<Rightarrow> memtable \<Rightarrow> memtable" where
  "mt_add k r m = m\<lparr>mt_counter := mt_counter m + 1,
     mt_map := map_insert (InsertKey (mt_counter m) k) r (mt_map m)\<rparr>"

lemma mt_add_inv:
  assumes "mt_inv m" "mt_fits m (Suc n)" "row_key r = k"
  shows "mt_inv (mt_add k r m)"
  using assms mt_counter_less [OF assms(2)] set_map_insert_subset [of "InsertKey (mt_counter m) k" r "mt_map m"]
  by (fastforce simp: mt_inv_def mt_add_def ordered_map_insert)

lemma mt_add_lookup:
  assumes "mt_inv m"
  shows "mt_lookup (mt_add k r m) = (mt_lookup m)(k \<mapsto> r)"
  using assms newest_map_insert [of "mt_map m" "InsertKey (mt_counter m) k" r]
  by (auto simp: mt_inv_def mt_add_def mt_lookup_def)

lemma mt_add_fits: "mt_fits m (Suc n) \<Longrightarrow> mt_fits (mt_add k r m) n"
  using mt_counter_less(1) [of m n] by (simp add: mt_fits_def mt_add_def)

lemma restore_row_add: "restore_row m row = mt_add (row_key row) row m"
  by (simp add: restore_row_def mt_add_def Let_def)

lemma mt_inv_frame [simp]:
  "mt_inv (m\<lparr>mt_memorySize := s\<rparr>) = mt_inv m" "mt_inv (m\<lparr>mt_wal := w\<rparr>) = mt_inv m"
  "mt_lookup (m\<lparr>mt_memorySize := s\<rparr>) = mt_lookup m" "mt_lookup (m\<lparr>mt_wal := w\<rparr>) = mt_lookup m"
  "mt_fits (m\<lparr>mt_memorySize := s\<rparr>) = mt_fits m" "mt_fits (m\<lparr>mt_wal := w\<rparr>) = mt_fits m"
  by (simp_all add: mt_inv_def mt_lookup_def mt_fits_def fun_eq_iff)

lemma mt_put_entry_add:
  "mt_put_entry k v c e m =
     (mt_add k (make_row k v e c) m)
       \<lparr>mt_memorySize := mt_memorySize m + getRowSize (make_row k v e c),
        mt_wal := map_option (wal_log (make_row k v e c)) (mt_wal m)\<rparr>"
  by (simp add: mt_put_entry_def mt_add_def mt_log_def Let_def)

lemma mt_put_entry_inv: "mt_inv m \<Longrightarrow> mt_fits m (Suc n) \<Longrightarrow> mt_inv (mt_put_entry k v c e m)"
  by (simp add: mt_put_entry_add mt_add_inv)

lemma mt_put_entry_lookup:
  "mt_inv m \<Longrightarrow> mt_lookup (mt_put_entry k v c e m) = (mt_lookup m)(k \<mapsto> make_row k v e c)"
  by (simp add: mt_put_entry_add mt_add_lookup)

lemma mt_put_entry_fits: "mt_fits m (Suc n) \<Longrightarrow> mt_fits (mt_put_entry k v c e m) n"
  by (simp add: mt_put_entry_add mt_add_fits)

lemma mt_fits_mono: "mt_fits m n \<Longrightarrow> k \<le> n \<Longrightarrow> mt_fits m k"
  by (simp add: mt_fits_def)

interpretation mem: key_table
  "\<lambda>k (v, c, e). mt_put_entry k v c e"
  "\<lambda>m k. map_option (\<lambda>r. (row_value r, row_checksum r, row_entry r)) (mt_lookup m k)"
  mt_inv mt_fits
  by unfold_locales
    (auto simp: mt_put_entry_lookup fun_eq_iff intro: mt_put_entry_inv mt_put_entry_fits mt_fits_mono)

lemma mt_get_lookup:
  assumes "mt_inv m"
  shows "mt_get k m = (case mt_lookup m k of
      None \<Rightarrow> None
    | Some row \<Rightarrow> if row_entry row = EntryType_Remove then None
        else Some (row_value row, row_checksum row))"
proof -
  have "mt_lookup m k = map_option snd (map_find (mt_map m) (SearchKey k))"
    using assms by (simp add: map_find_newest mt_inv_def mt_lookup_def)
  then show ?thesis
    by (auto simp: mt_get_def split: option.splits)
qed

section \<open>The three walks agree\<close>

text \<open>The newest row of every key, in key order, is what the walks keep.\<close>

fun newest_rows :: "u64 \<Rightarrow> (insert_key \<times> sstable_row) list \<Rightarrow> sstable_row list" where
  "newest_rows prev [] = []"
| "newest_rows prev ((ik, row) # m) =
     (if prev = key_id (ik_key ik) then newest_rows prev m
      else row # newest_rows (key_id (ik_key ik)) m)"

lemma dump_loop_rows: "dump_loop prev m = rows_bytes (newest_rows prev m)"
  by (induction prev m rule: dump_loop.induct) (auto simp: Let_def)

lemma table_loop_rows: "table_loop prev m t = t\<lparr>m_rows := m_rows t @ newest_rows prev m\<rparr>"
  by (induction prev m t rule: table_loop.induct) (auto simp: Let_def sstable_append_def)

lemma createSortedStringsTable_rows:
  "createSortedStringsTable m = \<lparr>m_rows = newest_rows npos (mt_map m)\<rparr>"
  by (simp add: createSortedStringsTable_def table_loop_rows empty_sstable_def)

lemma mt_dump_table: "mt_dump m = sstable_dump (createSortedStringsTable m)"
  by (simp add: mt_dump_def dump_loop_rows sstable_dump_def createSortedStringsTable_rows)

lemma ucast_offset:
  "(ucast (ucast (ucast (o64 :: u64) :: u32) + n :: u64) :: u32) = ucast (o64 + n)"
proof (rule word_unat_eq_iff [THEN iffD2])
  have "(unat o64 mod 2 ^ 32 + unat n) mod 2 ^ 64 mod 2 ^ 32 = (unat o64 + unat n) mod 2 ^ 64 mod 2 ^ 32"
    by (simp add: mod_mod_cancel mod_add_left_eq)
  then show "unat (ucast (ucast (ucast o64 :: u32) + n :: u64) :: u32) = unat (ucast (o64 + n) :: u32)"
    by (simp add: unsigned_ucast_eq take_bit_eq_mod unat_word_ariths mod_mod_cancel)
qed

lemma index_loop_rows:
  assumes "\<forall>(ik, r) \<in> set m. ik_key ik = row_key r"
  shows "index_loop prev off m t = index_rows (ucast off) (newest_rows prev m) t"
  using assms
  by (induction prev off m t rule: index_loop.induct) (auto simp: Let_def ucast_offset)

lemma index_of_table:
  assumes "mt_inv m"
  shows "createSortedStringsTableIndex f m = sstable_index_of (ucast f) (createSortedStringsTable m)"
proof -
  have "\<forall>(ik, r) \<in> set (mt_map m). ik_key ik = row_key r"
    using assms by (auto simp: mt_inv_def)
  from index_loop_rows [OF this] show ?thesis
    by (simp add: createSortedStringsTableIndex_def sstable_index_of_def
        createSortedStringsTable_rows getRowList_def)
qed

section \<open>A table holds exactly the newest rows\<close>

lemma newest_rows_sub: "r \<in> set (newest_rows prev m) \<Longrightarrow> r \<in> snd ` set m"
  by (induction prev m rule: newest_rows.induct) (auto split: if_splits)

lemma newest_rows_sorted:
  assumes "ordered m" "\<forall>(ik, r) \<in> set m. ik_key ik = row_key r"
    "\<forall>(ik, r) \<in> set m. prev = key_id (ik_key ik) \<or> prev < key_id (ik_key ik)"
  shows "sorted_wrt (<) (map row_key (newest_rows prev m)) \<and>
    (\<forall>r \<in> set (newest_rows prev m). prev < key_id (row_key r))"
  using assms
proof (induction prev m rule: newest_rows.induct)
  case (1 prev)
  show ?case by simp
next
  case (2 prev ik row m)
  have le: "key_id (ik_key ik) = key_id (ik_key ik') \<or> key_id (ik_key ik) < key_id (ik_key ik')"
    if "(ik', r') \<in> set m" for ik' r'
  proof -
    have "ik < ik'" using that "2.prems"(1) by auto
    then show ?thesis by (auto simp: less_insert_key_iff less_key_def)
  qed
  show ?case
  proof (cases "prev = key_id (ik_key ik)")
    case True
    with 2 show ?thesis by auto
  next
    case False
    then have lt: "prev < key_id (ik_key ik)" using "2.prems"(3) by auto
    have IH: "sorted_wrt (<) (map row_key (newest_rows (key_id (ik_key ik)) m)) \<and>
        (\<forall>r \<in> set (newest_rows (key_id (ik_key ik)) m). key_id (ik_key ik) < key_id (row_key r))"
      using "2.IH"(2) [OF False] "2.prems" le by fastforce
    have key: "ik_key ik = row_key row" using "2.prems"(2) by simp
    from IH have "\<forall>r \<in> set (newest_rows (key_id (ik_key ik)) m). row_key row < row_key r"
      by (simp add: less_key_def key)
    with IH lt key False show ?thesis by (auto intro: less_trans)
  qed
qed

lemma newest_rows_lookup:
  assumes "ordered m" "\<forall>(ik, r) \<in> set m. ik_key ik = row_key r" "prev \<noteq> key_id k"
  shows "map_of (map (\<lambda>r. (row_key r, r)) (newest_rows prev m)) k = newest m k"
  using assms
proof (induction m arbitrary: prev)
  case Nil
  show ?case by simp
next
  case (Cons e m)
  obtain ik row where e: "e = (ik, row)" by (cases e)
  have key: "ik_key ik = row_key row" using Cons.prems(2) e by simp
  show ?case
  proof (cases "ik_key ik = k")
    case True
    then show ?thesis using e key Cons.prems(3) by auto
  next
    case False
    then have "key_id (ik_key ik) \<noteq> key_id k" by (metis key.expand)
    then show ?thesis using False e key Cons by auto
  qed
qed

text \<open>
  All three walks start from \<open>npos\<close>. The first entry of a map that holds another key as well
  is not the key with id \<open>npos\<close>, the largest; only a map that holds nothing else loses it.
\<close>

lemma newest_rows_other_prev:
  assumes "\<forall>(ik, r) \<in> set m. key_id (ik_key ik) \<noteq> prev" "\<forall>(ik, r) \<in> set m. key_id (ik_key ik) \<noteq> prev'"
  shows "newest_rows prev m = newest_rows prev' m"
  using assms by (cases m) auto

definition no_npos :: "memtable \<Rightarrow> bool" where
  "no_npos m \<longleftrightarrow> mt_lookup m (Key npos) = None"

lemma no_npos_iff: "no_npos m \<longleftrightarrow> (\<forall>(ik, r) \<in> set (mt_map m). key_id (ik_key ik) \<noteq> npos)"
proof -
  have "k \<noteq> Key npos \<longleftrightarrow> key_id k \<noteq> npos" for k by (cases k) simp
  then show ?thesis by (auto simp: no_npos_def mt_lookup_def newest_None_iff)
qed

lemma newest_rows_npos_lookup:
  assumes "mt_inv m" "no_npos m"
  shows "map_of (map (\<lambda>r. (row_key r, r)) (newest_rows npos (mt_map m))) = mt_lookup m"
proof
  fix k
  show "map_of (map (\<lambda>r. (row_key r, r)) (newest_rows npos (mt_map m))) k = mt_lookup m k"
  proof (cases "key_id k = npos")
    case False
    then show ?thesis
      using assms(1) newest_rows_lookup [of "mt_map m" npos k] by (auto simp: mt_inv_def mt_lookup_def)
  next
    case True
    then have k: "k = Key npos" by (metis key.collapse)
    have "row_key r \<noteq> k" if r: "r \<in> set (newest_rows npos (mt_map m))" for r
    proof -
      obtain ik where "(ik, r) \<in> set (mt_map m)"
        using newest_rows_sub [OF r] by fastforce
      then show ?thesis
        using assms no_npos_iff [of m] k by (fastforce simp: mt_inv_def)
    qed
    then have "map_of (map (\<lambda>r. (row_key r, r)) (newest_rows npos (mt_map m))) k = None"
      by (fastforce simp: map_of_eq_None_iff)
    then show ?thesis using assms(2) k by (simp add: no_npos_def)
  qed
qed

lemma newest_rows_npos_sorted:
  assumes "mt_inv m" "no_npos m"
  shows "sorted_wrt (<) (map row_key (newest_rows npos (mt_map m)))"
proof (cases "mt_map m")
  case Nil
  then show ?thesis by simp
next
  case (Cons e es)
  obtain ik row where e: "e = (ik, row)" by (cases e)
  have ne: "npos \<noteq> key_id (ik_key ik)"
    using assms(2) Cons e by (auto simp: no_npos_iff)
  have inv: "ordered (e # es)" "\<forall>(ik, r) \<in> set (e # es). ik_key ik = row_key r"
    using assms(1) Cons by (auto simp: mt_inv_def)
  have "\<forall>(ik', r) \<in> set es. key_id (ik_key ik) = key_id (ik_key ik') \<or> key_id (ik_key ik) < key_id (ik_key ik')"
    using inv(1) e by (auto simp: less_insert_key_iff less_key_def)
  then have "sorted_wrt (<) (map row_key (newest_rows (key_id (ik_key ik)) es)) \<and>
      (\<forall>r \<in> set (newest_rows (key_id (ik_key ik)) es). key_id (ik_key ik) < key_id (row_key r))"
    using inv by (intro newest_rows_sorted) auto
  then have "sorted_wrt (<) (map row_key (newest_rows (key_id (ik_key ik)) es)) \<and>
      (\<forall>r \<in> set (newest_rows (key_id (ik_key ik)) es). row_key row < row_key r)"
    using inv(2) e by (simp add: less_key_def)
  then show ?thesis
    using Cons e ne by auto
qed

lemma newest_rows_distinct:
  "mt_inv m \<Longrightarrow> no_npos m \<Longrightarrow> distinct (map row_key (newest_rows npos (mt_map m)))"
  using newest_rows_npos_sorted [of m] by (simp add: strict_sorted_iff)

section \<open>Restoring from the log\<close>

lemma foldl_restore_row:
  assumes "mt_inv m" "mt_fits m (length rows)"
  shows "mt_inv (foldl restore_row m rows) \<and>
    mt_lookup (foldl restore_row m rows) = mt_lookup m ++ map_of (rev (map (\<lambda>r. (row_key r, r)) rows)) \<and>
    mt_wal (foldl restore_row m rows) = mt_wal m \<and>
    mt_memorySize (foldl restore_row m rows) = mt_memorySize m"
  using assms
proof (induction rows arbitrary: m)
  case Nil
  then show ?case by simp
next
  case (Cons r rows)
  have fits: "mt_fits m (Suc (length rows))" using Cons.prems(2) by simp
  have "mt_inv (restore_row m r)" "mt_fits (restore_row m r) (length rows)"
    using Cons.prems(1) fits by (auto simp: restore_row_add intro: mt_add_inv mt_add_fits)
  from Cons.IH [OF this] show ?case
    using mt_add_lookup [OF Cons.prems(1), of "row_key r" r]
    by (auto simp: restore_row_add mt_add_def map_add_def fun_eq_iff split: option.splits)
qed

lemma restoreFromLog_rows:
  assumes "rows \<noteq> []" "\<forall>r \<in> set rows. wf_row r"
  shows "restoreFromLog junk m (fresh_stream (rows_bytes rows)) =
    Some (Inr (foldl restore_row m rows, (fresh_stream (rows_bytes rows))\<lparr>rest := [], eofbit := True\<rparr>))"
  using row_format.each.loop_reads_back [OF assms, of "fresh_stream (rows_bytes rows)" junk restore_row m]
  by (simp add: restoreFromLog_def)

lemma restoreFromLog_empty:
  "restoreFromLog junk m (fresh_stream []) =
    Some (Inr (restore_row m (phantom_row junk),
      (fresh_stream [])\<lparr>eofbit := True, failbit := True\<rparr>))"
  by (simp add: restoreFromLog_def stream_loop.simps [of _ m] read_each_def row_deserialize_at_end
      peek_def is_good_def stream_loop_eof)

lemma restoreFromLog_torn:
  assumes "\<forall>r \<in> set rows. wf_row r" "wf_row r" "i \<le> length (row_value r)"
  shows "\<exists>s. restoreFromLog junk m (fresh_stream (rows_bytes rows @ take (18 + i) (row_serialize r))) =
    Some (Inr (restore_row (foldl restore_row m rows) (torn_row i r), s))"
proof -
  let ?t = "take (18 + i) (row_serialize r)" and ?m = "foldl restore_row m rows"
  let ?s = "(fresh_stream (rows_bytes rows @ ?t))\<lparr>rest := ?t\<rparr>"
  let ?loop = "stream_loop (read_each (row_deserialize junk) restore_row)"
  have "?t \<noteq> []" using row_format.format_nonempty [of r] by auto
  then have "?loop m (fresh_stream (rows_bytes rows @ ?t)) = ?loop ?m ?s"
    using assms(1) by (intro row_format.each.loop_prefix) simp_all
  moreover have "read_each (row_deserialize junk) restore_row ?m ?s =
      Inr (restore_row ?m (torn_row i r), ?s\<lparr>rest := [], eofbit := True, failbit := True\<rparr>)"
    using row_deserialize_torn [OF assms(2) _ assms(3), of ?s] by (simp add: read_each_def)
  ultimately show ?thesis
    by (simp add: restoreFromLog_def stream_loop.simps [of _ ?m ?s] stream_loop_eof peek_def)
qed

section \<open>A map that starts with the key \<open>npos\<close>\<close>

definition starts_npos :: "memtable \<Rightarrow> bool" where
  "starts_npos m \<longleftrightarrow> (case mt_map m of [] \<Rightarrow> False | (ik, r) # _ \<Rightarrow> key_id (ik_key ik) = npos)"

lemma npos_max: "i \<le> npos"
  by (simp add: npos_def)

lemma starts_npos_keys:
  assumes "mt_inv m" "starts_npos m"
  shows "\<forall>(ik, r) \<in> set (mt_map m). ik_key ik = Key npos"
proof (cases "mt_map m")
  case (Cons e es)
  obtain ik r where e: "e = (ik, r)" by (cases e)
  have first: "ik_key ik = Key npos"
    using assms(2) Cons e by (cases "ik_key ik") (simp add: starts_npos_def)
  have "ik_key ik' = Key npos" if "(ik', r') \<in> set es" for ik' r'
  proof -
    have "ik < ik'" using that assms(1) Cons e by (auto simp: mt_inv_def)
    then have "ik_key ik' = ik_key ik \<or> npos < key_id (ik_key ik')"
      unfolding less_insert_key_iff less_key_def by (auto simp: first)
    then show ?thesis
      using npos_max [of "key_id (ik_key ik')"] by (auto simp: first not_less [symmetric])
  qed
  with first Cons e show ?thesis by auto
qed simp

lemma starts_npos_rows:
  assumes "mt_inv m" "starts_npos m"
  shows "newest_rows npos (mt_map m) = []"
proof -
  have "\<forall>(ik, r) \<in> set es. ik_key ik = Key npos \<Longrightarrow> newest_rows npos es = []" for es :: "(insert_key \<times> sstable_row) list"
    by (induction es) auto
  then show ?thesis using starts_npos_keys [OF assms] .
qed

lemma starts_npos_dom:
  assumes "mt_inv m" "starts_npos m"
  shows "dom (mt_lookup m) = {Key npos}"
proof -
  obtain ik r es where "mt_map m = (ik, r) # es"
    using assms(2) by (auto simp: starts_npos_def split: list.splits)
  then show ?thesis
    using starts_npos_keys [OF assms]
    by (auto simp: mt_lookup_def newest_None_iff dom_def dest!: newest_SomeD)
qed

text \<open>Otherwise the walk is the one from any other start.\<close>

lemma newest_rows_start:
  assumes "\<not> starts_npos m"
  shows "\<exists>p. p \<noteq> npos \<and> newest_rows npos (mt_map m) = newest_rows p (mt_map m)"
proof (cases "mt_map m")
  case Nil
  then show ?thesis by (auto simp: npos_def intro: exI [of _ 0])
next
  case (Cons e es)
  obtain ik r where e: "e = (ik, r)" by (cases e)
  let ?p = "if key_id (ik_key ik) = 0 then 1 else 0 :: u64"
  have "?p \<noteq> npos" "?p \<noteq> key_id (ik_key ik)" "npos \<noteq> key_id (ik_key ik)"
    using assms Cons e by (auto simp: npos_def starts_npos_def)
  then show ?thesis using Cons e by (intro exI [of _ ?p]) simp
qed

lemma newest_rows_lookup_start:
  assumes "mt_inv m" "\<not> starts_npos m"
  shows "map_of (map (\<lambda>r. (row_key r, r)) (newest_rows npos (mt_map m))) = mt_lookup m"
proof
  fix k
  have inv: "ordered (mt_map m)" "\<forall>(ik, r) \<in> set (mt_map m). ik_key ik = row_key r"
    using assms(1) by (auto simp: mt_inv_def)
  show "map_of (map (\<lambda>r. (row_key r, r)) (newest_rows npos (mt_map m))) k = mt_lookup m k"
  proof (cases "key_id k = npos")
    case False
    then show ?thesis using newest_rows_lookup [OF inv, of npos k] by (auto simp: mt_lookup_def)
  next
    case True
    obtain p where "p \<noteq> npos" "newest_rows npos (mt_map m) = newest_rows p (mt_map m)"
      using newest_rows_start [OF assms(2)] by blast
    with True show ?thesis using newest_rows_lookup [OF inv, of p k] by (simp add: mt_lookup_def)
  qed
qed

lemma newest_rows_sorted_start:
  assumes "mt_inv m" "\<not> starts_npos m"
  shows "sorted_wrt (<) (map row_key (newest_rows npos (mt_map m)))"
proof (cases "mt_map m")
  case Nil
  then show ?thesis by simp
next
  case (Cons e es)
  obtain ik row where e: "e = (ik, row)" by (cases e)
  have ne: "npos \<noteq> key_id (ik_key ik)"
    using assms(2) Cons e by (auto simp: starts_npos_def)
  have inv: "ordered (e # es)" "\<forall>(ik, r) \<in> set (e # es). ik_key ik = row_key r"
    using assms(1) Cons by (auto simp: mt_inv_def)
  have "\<forall>(ik', r) \<in> set es. key_id (ik_key ik) = key_id (ik_key ik') \<or> key_id (ik_key ik) < key_id (ik_key ik')"
    using inv(1) e by (auto simp: less_insert_key_iff less_key_def)
  then have "sorted_wrt (<) (map row_key (newest_rows (key_id (ik_key ik)) es)) \<and>
      (\<forall>r \<in> set (newest_rows (key_id (ik_key ik)) es). key_id (ik_key ik) < key_id (row_key r))"
    using inv by (intro newest_rows_sorted) auto
  then have "sorted_wrt (<) (map row_key (newest_rows (key_id (ik_key ik)) es)) \<and>
      (\<forall>r \<in> set (newest_rows (key_id (ik_key ik)) es). row_key row < row_key r)"
    using inv(2) e by (simp add: less_key_def)
  then show ?thesis
    using Cons e ne by auto
qed

lemma starts_npos_iff:
  assumes "mt_inv m"
  shows "starts_npos m \<longleftrightarrow> dom (mt_lookup m) = {Key npos}"
proof
  assume dom: "dom (mt_lookup m) = {Key npos}"
  then obtain ik r es where m: "mt_map m = (ik, r) # es"
    by (cases "mt_map m") (auto simp: mt_lookup_def)
  then have "ik_key ik \<in> dom (mt_lookup m)" by (auto simp: mt_lookup_def)
  with dom have "ik_key ik = Key npos" by simp
  with m show "starts_npos m" by (simp add: starts_npos_def)
qed (rule starts_npos_dom [OF assms])

section \<open>Writing and logging\<close>

lemma foldl_put_entry_wal:
  "mt_wal m = Some w \<Longrightarrow> w_open w \<Longrightarrow>
   mt_wal (foldl (\<lambda>m (k, v, c, e). mt_put_entry k v c e m) m ws) =
     Some (w\<lparr>w_written := w_written w @ concat (map row_serialize (map (\<lambda>(k, v, c, e). make_row k v e c) ws))\<rparr>)"
proof (induction ws arbitrary: m w)
  case (Cons a ws)
  obtain k v c e where a: "a = (k, v, c, e)" by (cases a)
  have "mt_wal (mt_put_entry k v c e m) = Some (wal_log (make_row k v e c) w)"
    using Cons.prems by (simp add: mt_put_entry_add)
  from Cons.IH [OF this] Cons.prems a show ?case by (simp add: wal_log_def Let_def)
qed simp

lemma foldl_put_entry_lookup:
  assumes "mt_inv m" "mt_fits m (length ws)"
  shows "mt_lookup (foldl (\<lambda>m (k, v, c, e). mt_put_entry k v c e m) m ws) =
    mt_lookup m ++ map_of (rev (map (\<lambda>r. (row_key r, r)) (map (\<lambda>(k, v, c, e). make_row k v e c) ws)))"
  using assms
proof (induction ws arbitrary: m)
  case (Cons a ws)
  obtain k v c e where a: "a = (k, v, c, e)" by (cases a)
  have fits: "mt_fits m (Suc (length ws))" using Cons.prems(2) by simp
  have "mt_inv (mt_put_entry k v c e m)" "mt_fits (mt_put_entry k v c e m) (length ws)"
    using Cons.prems(1) fits by (auto intro: mt_put_entry_inv mt_put_entry_fits)
  from Cons.IH [OF this] a show ?case
    using mt_put_entry_lookup [OF Cons.prems(1), of k v c e]
    by (auto simp: map_add_def fun_eq_iff split: option.splits)
qed simp

section \<open>Properties\<close>

text \<open>
  What \<open>get\<close> of the memtable returns after a \<open>put\<close> or a \<open>remove\<close>: the value and checksum
  just put, nothing for a key just removed, and what it returned before for every other key.
\<close>

theorem memtable_get_after_write:
  assumes "mt_inv m" "mt_fits m 1"
  shows "mt_get k' (mt_put k v c m) = (if k' = k then Some (v, c) else mt_get k' m) \<and>
    mt_get k' (mt_remove k m) = (if k' = k then None else mt_get k' m)"
  using assms
  by (simp add: mt_get_lookup mt_put_def mt_remove_def mt_put_entry_inv mt_put_entry_lookup make_row_sel)

theorem memtable_get_after_write_witness:
  "mt_get (Key 4) (mt_put (Key 4) [2] (5, 6) (mt_put (Key 4) [1] (3, 3) new_memtable)) = Some ([2], (5, 6))"
proof -
  have "mt_inv (mt_put (Key 4) [1] (3, 3) new_memtable)" "mt_fits (mt_put (Key 4) [1] (3, 3) new_memtable) 1"
    unfolding mt_put_def
    by (auto intro: mt_put_entry_inv [of _ 1] mt_put_entry_fits)
  from memtable_get_after_write [OF this, of "Key 4" "Key 4" "[2]" "(5, 6)"] show ?thesis by simp
qed

text \<open>
  C25: Every operation of the memtable keeps its invariant, the order of the map, fresh ids and
  rows under their own keys, as long as the 64-bit insertion counter does not wrap.
\<close>

theorem memtable_keeps_invariant:
  assumes "mt_inv m" "mt_fits m 1"
  shows "mt_inv (mt_put k v c m) \<and> mt_inv (mt_remove k m) \<and> mt_inv (restore_row m row) \<and>
    mt_inv (fst (setWriteAheadLog p n m fs)) \<and>
    (\<forall>m' fs'. mt_clear m fs = Inr (m', fs') \<longrightarrow> mt_inv m' \<and> mt_lookup m' = Map.empty)"
proof -
  have "mt_inv m' \<and> mt_lookup m' = Map.empty" if c: "mt_clear m fs = Inr (m', fs')" for m' fs'
  proof -
    from c have "mt_map m' = []"
      by (auto simp: mt_clear_def Let_def flushAndClear_def split: option.splits)
    then show ?thesis by (simp add: mt_inv_def mt_lookup_def fun_eq_iff)
  qed
  moreover have "mt_inv (restore_row m row)"
    using assms mt_add_inv [of m 0] by (simp add: restore_row_add)
  moreover have "mt_inv (fst (setWriteAheadLog p n m fs))"
    using assms(1) by (simp add: setWriteAheadLog_def wal_open_def)
  ultimately show ?thesis
    using assms mt_put_entry_inv [of m 0] by (simp add: mt_put_def mt_remove_def)
qed

theorem memtable_keeps_invariant_witness:
  "mt_inv (mt_put (Key 1) [2] (3, 4) new_memtable) \<and> mt_inv (mt_remove (Key 1) new_memtable)"
  using memtable_keeps_invariant [of new_memtable "Key 1" "[2]" "(3, 4)"] by simp

text \<open>
  C21: The three walks over the memtable agree: the dumped bytes are the dump of the sorted
  strings table, and the index computed directly is the index of that table.
\<close>

theorem memtable_walks_agree:
  assumes "mt_inv m"
  shows "mt_dump m = sstable_dump (createSortedStringsTable m) \<and>
    createSortedStringsTableIndex f m = sstable_index_of (ucast f) (createSortedStringsTable m)"
  using mt_dump_table index_of_table [OF assms] by simp

theorem memtable_walks_agree_witness:
  "createSortedStringsTableIndex 3 (mt_put (Key 4) [1] (3, 3) new_memtable) =
     sstable_index_of 3 (createSortedStringsTable (mt_put (Key 4) [1] (3, 3) new_memtable))"
proof -
  have "mt_inv (mt_put (Key 4) [1] (3, 3) new_memtable)"
    unfolding mt_put_def by (rule mt_put_entry_inv [of _ 0]) simp_all
  from memtable_walks_agree [OF this, of 3] show ?thesis by simp
qed

text \<open>
  C20: The sorted strings table of a memtable has strictly ascending keys and holds exactly the
  newest row of every key, tombstones included; except that a memtable whose only key is the
  one with id \<open>npos\<close> gives an empty table, because the walk starts from that id.
\<close>

theorem table_holds_newest_rows:
  assumes "mt_inv m"
  shows "sorted_wrt (<) (map row_key (m_rows (createSortedStringsTable m))) \<and>
    map_of (map (\<lambda>r. (row_key r, r)) (m_rows (createSortedStringsTable m))) =
      (if dom (mt_lookup m) = {Key npos} then Map.empty else mt_lookup m)"
proof (cases "starts_npos m")
  case True
  then show ?thesis
    using assms starts_npos_rows [OF assms] starts_npos_dom [OF assms]
    by (simp add: createSortedStringsTable_rows)
next
  case False
  then show ?thesis
    using assms newest_rows_lookup_start [OF assms False] newest_rows_sorted_start [OF assms False]
      starts_npos_iff [OF assms]
    by (simp add: createSortedStringsTable_rows)
qed

theorem table_holds_newest_rows_witness:
  "m_rows (createSortedStringsTable (mt_put (Key npos) [1] (3, 3) new_memtable)) = []"
proof -
  let ?m = "mt_put (Key npos) [1] (3, 3) new_memtable"
  have "mt_inv ?m"
    unfolding mt_put_def by (rule mt_put_entry_inv [of _ 0]) simp_all
  moreover have "dom (mt_lookup ?m) = {Key npos}" by (simp add: mt_put_def mt_put_entry_lookup)
  ultimately show ?thesis using table_holds_newest_rows [of ?m] by simp
qed

text \<open>
  Replaying a log that holds rows restores a memtable in which every key has its last row.
  The size counter is not restored.
\<close>

theorem restore_replays_log:
  assumes "rows \<noteq> []" "\<forall>r \<in> set rows. wf_row r" "length rows < 2 ^ 64"
  shows "\<exists>m s. restoreFromLog junk new_memtable (fresh_stream (concat (map row_serialize rows))) = Some (Inr (m, s)) \<and>
    mt_inv m \<and> mt_lookup m = map_of (rev (map (\<lambda>r. (row_key r, r)) rows)) \<and> getApproximateSize m = 0"
  using restoreFromLog_rows [OF assms(1,2), of junk new_memtable] foldl_restore_row [of new_memtable rows] assms(3)
  by (simp add: getApproximateSize_def)

theorem restore_replays_log_witness:
  "\<exists>m s. restoreFromLog 0 new_memtable (fresh_stream (concat (map row_serialize
       [make_put_row (Key 1) [9] (0, 0), make_remove_row (Key 1)]))) = Some (Inr (m, s)) \<and>
     mt_lookup m = [Key 1 \<mapsto> make_remove_row (Key 1)]"
  using restore_replays_log [of "[make_put_row (Key 1) [9] (0, 0), make_remove_row (Key 1)]" 0]
  by (auto simp: wf_row_def make_put_row_def make_remove_row_def entry_byte_def entry_of_byte_def max_string_size)

text \<open>
  C29: Replaying an empty log file restores a row that was never written: key 0 with an empty
  value, whose entry type is an uninitialised byte.
\<close>

theorem empty_log_restores_phantom_row:
  "\<exists>m s. restoreFromLog junk new_memtable (fresh_stream []) = Some (Inr (m, s)) \<and>
     mt_lookup m = [Key 0 \<mapsto> \<lparr>row_key = Key 0, row_value = [], row_entry = entry_of_byte junk, row_checksum = (0, 0)\<rparr>]"
  using mt_add_lookup [of new_memtable "Key 0" "phantom_row junk"]
  by (simp add: restoreFromLog_empty restore_row_add) (simp add: phantom_row_def make_row_def)

text \<open>
  A log that ends within the value of a row, as a crash can leave it, is replayed without an
  error. The row it breaks off in is restored too, under its own key and with the zero checksum,
  the missing part of its value filled with zeros; it hides the row that the key had before.
\<close>

theorem torn_log_restores_corrupt_row:
  assumes "\<forall>r \<in> set rows. wf_row r" "wf_row r" "i \<le> length (row_value r)" "length rows + 1 < 2 ^ 64"
  shows "\<exists>m s. restoreFromLog junk new_memtable
      (fresh_stream (concat (map row_serialize rows) @ take (18 + i) (row_serialize r))) = Some (Inr (m, s)) \<and>
    mt_inv m \<and> mt_lookup m = (map_of (rev (map (\<lambda>r. (row_key r, r)) rows)))(row_key r \<mapsto>
      make_row (row_key r) (take i (row_value r) @ replicate (length (row_value r) - i) 0) (row_entry r) (0, 0))"
  using restoreFromLog_torn [OF assms(1-3), of junk new_memtable]
    foldl_restore_row [of new_memtable "rows @ [torn_row i r]"] assms(4)
  by (auto simp: torn_row_def fun_eq_iff split: option.splits)

text \<open>
  C18: Writes survive a clean shutdown: whatever non-empty sequence of fewer than \<open>2\<^sup>6\<^sup>4\<close> puts and
  removes a memtable with an open log takes, the log file that closing it leaves restores a memtable
  with the same rows, and with no other ones. For a memtable that takes none, the empty log it
  leaves restores one row that was never written, under key 0.
\<close>

theorem memtable_recovers_from_log:
  assumes "can_write fs p" "length ws < 2 ^ 64"
    "\<forall>(k, v, c, e) \<in> set ws. (e = EntryType_Put \<or> e = EntryType_Remove) \<and> length v \<le> max_string_size"
    "(m0, fs0) = setWriteAheadLog p n new_memtable fs"
    "m = foldl (\<lambda>m (k, v, c, e). mt_put_entry k v c e m) m0 ws"
  shows "\<exists>w m' s. mt_wal m = Some w \<and>
    restoreFromLog junk new_memtable (open_ifstream (wal_close w fs0) p) = Some (Inr (m', s)) \<and> mt_inv m' \<and>
    mt_lookup m' = (if ws = [] then [Key 0 \<mapsto> make_row (Key 0) [] (entry_of_byte junk) (0, 0)] else mt_lookup m)"
proof -
  let ?rows = "map (\<lambda>(k, v, c, e). make_row k v e c) ws"
  let ?w = "\<lparr>w_path = p, w_open = True, w_bufferSize = n, w_written = concat (map row_serialize ?rows), w_flushed = 0\<rparr>"
  have m0: "mt_wal m0 = Some \<lparr>w_path = p, w_open = True, w_bufferSize = n, w_written = [], w_flushed = 0\<rparr>"
    "mt_inv m0" "mt_lookup m0 = Map.empty" "mt_fits m0 (length ws)"
    and fs0: "fs0 = write_file fs p []"
    using assms(1,2,4) by (auto simp: setWriteAheadLog_def wal_open_def)
  have wal: "mt_wal m = Some ?w"
    unfolding assms(5) by (simp add: foldl_put_entry_wal m0(1))
  have log: "open_ifstream (wal_close ?w fs0) p = fresh_stream (concat (map row_serialize ?rows))"
    using assms(1) fs0 by (simp add: wal_close_def open_ifstream_def file_content_write_file)
  show ?thesis
  proof (cases "ws = []")
    case True
    have "mt_inv (restore_row new_memtable (phantom_row junk))"
      "mt_lookup (restore_row new_memtable (phantom_row junk)) = [Key 0 \<mapsto> make_row (Key 0) [] (entry_of_byte junk) (0, 0)]"
      using foldl_restore_row [of new_memtable "[phantom_row junk]"] by (simp_all add: phantom_row_def make_row_def)
    with True wal log show ?thesis by (simp add: restoreFromLog_empty)
  next
    case False
    have lookup: "mt_lookup m = map_of (rev (map (\<lambda>r. (row_key r, r)) ?rows))"
      unfolding assms(5) using foldl_put_entry_lookup [OF m0(2,4)] m0(3) by simp
    have "wf_row (make_row k v e c)" if "(k, v, c, e) \<in> set ws" for k v c e
      using that assms(3) by fastforce
    then have rows: "?rows \<noteq> []" "\<forall>r \<in> set ?rows. wf_row r" "length ?rows < 2 ^ 64"
      using assms(2) False by (auto split: prod.splits)
    show ?thesis
      using wal lookup log False restoreFromLog_rows [OF rows(1,2), of junk new_memtable]
        foldl_restore_row [of new_memtable ?rows] rows(3)
      by simp
  qed
qed

theorem memtable_recovers_from_log_witness:
  "\<exists>m' s. restoreFromLog 0 new_memtable (open_ifstream
       [([], Dir), ([''log''], File (row_serialize (make_row (Key 1) [5] EntryType_Put (0, 0)) @
          row_serialize (make_row (Key 1) [] EntryType_Remove (0, 0))))] [''log'']) = Some (Inr (m', s)) \<and>
     mt_lookup m' (Key 1) = Some (make_row (Key 1) [] EntryType_Remove (0, 0))"
proof -
  let ?fs = "[([], Dir)]"
  let ?ws = "[(Key 1, [5], (0, 0), EntryType_Put), (Key 1, [], (0, 0), EntryType_Remove)]"
  let ?start = "fst (setWriteAheadLog [''log''] 16 new_memtable ?fs)"
  let ?m = "foldl (\<lambda>m (k, v, c, e). mt_put_entry k v c e m) ?start ?ws"
  have can: "can_write ?fs [''log'']" by (simp add: can_write_def is_directory_def)
  have inv: "mt_inv ?start" "mt_fits ?start (length ?ws)"
    by (simp_all add: setWriteAheadLog_def wal_open_def)
  have "mt_lookup ?m (Key 1) = Some (make_row (Key 1) [] EntryType_Remove (0, 0))"
    unfolding foldl_put_entry_lookup [OF inv] by simp
  moreover have "mt_wal ?m = Some \<lparr>w_path = [''log''], w_open = True, w_bufferSize = 16, w_written =
      row_serialize (make_row (Key 1) [5] EntryType_Put (0, 0)) @
      row_serialize (make_row (Key 1) [] EntryType_Remove (0, 0)), w_flushed = 0\<rparr>"
    using can by (simp add: setWriteAheadLog_def wal_open_def mt_put_entry_add mt_add_def wal_log_def Let_def)
  ultimately show ?thesis
    using memtable_recovers_from_log [OF can, of ?ws ?start "snd (setWriteAheadLog [''log''] 16 new_memtable ?fs)" 16 ?m 0] can
    by (auto simp: max_string_size wal_close_def write_file_def setWriteAheadLog_def wal_open_def
        can_write_def is_directory_def)
qed

end
