(* ===== verification/Index.thy ===== *)
theory Index
  imports SSTableIndex
begin

text \<open>
  The index over all segments, src/Index.h and src/Index.cpp: a list of per-segment indexes,
  newest first, and a map from file ids to list nodes.
\<close>

section \<open>State and operations\<close>

record search_hint =
  sh_fileId :: u32
  sh_offset :: u32
  sh_size :: u32

definition SearchHint :: "u32 \<Rightarrow> u32 \<Rightarrow> u32 \<Rightarrow> search_hint" where
  "SearchHint f off sz = \<lparr>sh_fileId = f, sh_offset = off, sh_size = sz\<rparr>"

text \<open>
  Nodes are only ever pushed to the front, so an iterator is the number of nodes behind its
  node: it stays valid, and node \<open>j\<close> of a list of length \<open>n\<close> is at position \<open>n - 1 - j\<close>.
\<close>

record index =
  ix_tables :: "sstable_index list"
  ix_map :: "(u32 \<times> nat) list"

definition new_index :: index where
  "new_index = \<lparr>ix_tables = [], ix_map = []\<rparr>"

definition ix_position :: "index \<Rightarrow> nat \<Rightarrow> nat" where
  "ix_position ix it = length (ix_tables ix) - 1 - it"

definition ix_update_trust :: "sstable_index \<Rightarrow> bool \<Rightarrow> index \<Rightarrow> index result" where
  "ix_update_trust tableIndex trust ix =
     (if \<not> trust \<and> map_of (ix_map ix) (getFileId tableIndex) \<noteq> None
      then Inl (Runtime_error ''file id is already indexed'')
      else
        let it = length (ix_tables ix)
        in Inr \<lparr>ix_tables = tableIndex # ix_tables ix,
                ix_map = (case map_of (ix_map ix) (getFileId tableIndex) of
                    None \<Rightarrow> (getFileId tableIndex, it) # ix_map ix
                  | Some _ \<Rightarrow> ix_map ix)\<rparr>)"

definition ix_update :: "sstable_index \<Rightarrow> index \<Rightarrow> index result" where
  "ix_update tableIndex ix = ix_update_trust tableIndex False ix"

definition ix_insert :: "key \<Rightarrow> search_hint \<Rightarrow> index \<Rightarrow> index result" where
  "ix_insert k hint ix =
     (case map_of (ix_map ix) (sh_fileId hint) of
        None \<Rightarrow>
          (let tableIndex = si_insert k (FileSearchHint (sh_offset hint) (sh_size hint))
                 (new_sstable_index (sh_fileId hint))
           in ix_update_trust tableIndex True ix)
      | Some it \<Rightarrow>
          (let p = ix_position ix it
           in Inr (ix\<lparr>ix_tables := (ix_tables ix)[p :=
                si_insert k (FileSearchHint (sh_offset hint) (sh_size hint)) (ix_tables ix ! p)]\<rparr>)))"

fun get_loop :: "key \<Rightarrow> sstable_index list \<Rightarrow> bool \<times> search_hint" where
  "get_loop k [] = (False, SearchHint 0 0 0)"
| "get_loop k (tableIndex # tables) =
     (case si_get k tableIndex of
        (True, fileHint) \<Rightarrow> (True, SearchHint (getFileId tableIndex) (fh_offset fileHint) (fh_size fileHint))
      | (False, _) \<Rightarrow> get_loop k tables)"

definition ix_get :: "key \<Rightarrow> index \<Rightarrow> bool \<times> search_hint" where
  "ix_get k ix = get_loop k (ix_tables ix)"

text \<open>
  \<open>load\<close> reads the regular files of a directory in the order of a \<open>std::set<fs::path>\<close>, which
  for the entries of one directory is the lexicographic order of their names. It stops at
  the first exception, with the tables read so far in place.
\<close>

definition regular_files :: "fsys \<Rightarrow> path \<Rightarrow> string list" where
  "regular_files fs dir = filter (\<lambda>n. file_content fs (dir @ [n]) \<noteq> None) (dir_entries fs dir)"

fun load_files :: "fsys \<Rightarrow> path list \<Rightarrow> index \<Rightarrow> unit result \<times> index" where
  "load_files fs [] ix = (Inr (), ix)"
| "load_files fs (p # ps) ix =
     (let stream = open_ifstream fs p
      in if \<not> is_open stream \<or> badbit stream then (Inl (Runtime_error (''bad stream: '' @ path_string p)), ix)
         else
           case returned (si_load (new_sstable_index 0) stream) of
             Inl e \<Rightarrow> (Inl e, ix)
           | Inr indexTable \<Rightarrow>
               (case ix_update indexTable ix of
                  Inl e \<Rightarrow> (Inl e, ix)
                | Inr ix' \<Rightarrow> load_files fs ps ix'))"

definition ix_load :: "fsys \<Rightarrow> path \<Rightarrow> index \<Rightarrow> unit result \<times> index" where
  "ix_load fs dir ix =
     (if \<not> fs_exists fs dir \<or> \<not> is_directory fs dir
      then (Inl (Runtime_error (''invalid directory: '' @ path_string dir)), ix)
      else load_files fs (map (\<lambda>n. dir @ [n]) (sort (remdups (regular_files fs dir)))) ix)"

section \<open>Invariant and lookup\<close>

text \<open>
  Every table of the list has an entry of the map that leads back to it, and no file id
  occurs twice.
\<close>

definition ix_ids :: "index \<Rightarrow> u32 list" where
  "ix_ids ix = map si_fileId (ix_tables ix)"

definition ix_inv :: "index \<Rightarrow> bool" where
  "ix_inv ix \<longleftrightarrow> distinct (ix_ids ix) \<and>
     (\<forall>f. map_of (ix_map ix) f =
        (if f \<in> set (ix_ids ix)
         then Some (length (takeWhile (\<lambda>g. g \<noteq> f) (rev (ix_ids ix)))) else None))"

text \<open>The table that answers for a key: the first of the list that has it.\<close>

fun first_hit :: "key \<Rightarrow> sstable_index list \<Rightarrow> (sstable_index \<times> file_search_hint) option" where
  "first_hit k [] = None"
| "first_hit k (t # ts) =
     (case si_lookup t k of Some h \<Rightarrow> Some (t, h) | None \<Rightarrow> first_hit k ts)"

lemma get_loop_first_hit:
  "get_loop k ts = (case first_hit k ts of
      None \<Rightarrow> (False, SearchHint 0 0 0)
    | Some (t, h) \<Rightarrow> (True, SearchHint (si_fileId t) (fh_offset h) (fh_size h)))"
  by (induction k ts rule: first_hit.induct)
    (auto simp: si_get_lookup getFileId_def split: option.splits)

lemma ix_inv_new [simp]: "ix_inv new_index"
  by (simp add: ix_inv_def new_index_def ix_ids_def)

lemma new_index_sel [simp]: "ix_tables new_index = []" "ix_map new_index = []" "ix_ids new_index = []"
  by (simp_all add: new_index_def ix_ids_def)

lemma ix_update_fresh:
  assumes "ix_inv ix" "si_fileId t \<notin> set (ix_ids ix)"
  shows "\<exists>ix'. ix_update_trust t trust ix = Inr ix' \<and> ix_inv ix' \<and> ix_tables ix' = t # ix_tables ix"
proof -
  have none: "map_of (ix_map ix) (si_fileId t) = None"
    using assms by (simp add: ix_inv_def)
  let ?ix = "\<lparr>ix_tables = t # ix_tables ix, ix_map = (si_fileId t, length (ix_tables ix)) # ix_map ix\<rparr>"
  have "map_of (ix_map ?ix) f = (if f \<in> set (ix_ids ?ix)
      then Some (length (takeWhile (\<lambda>g. g \<noteq> f) (rev (ix_ids ?ix)))) else None)" for f
  proof (cases "f = si_fileId t")
    case True
    have "\<forall>g \<in> set (rev (ix_ids ix)). g \<noteq> f" using assms(2) True by auto
    then have "takeWhile (\<lambda>g. g \<noteq> f) (rev (ix_ids ix)) = rev (ix_ids ix)"
      by (simp add: takeWhile_eq_all_conv)
    then show ?thesis using True by (simp add: ix_ids_def takeWhile_append)
  next
    case False
    have "f \<in> set (ix_ids ix) \<Longrightarrow>
        takeWhile (\<lambda>g. g \<noteq> f) (rev (ix_ids ix) @ [si_fileId t]) = takeWhile (\<lambda>g. g \<noteq> f) (rev (ix_ids ix))"
      by (rule takeWhile_append1 [where x = f]) simp_all
    then show ?thesis using False assms(1) by (simp add: ix_inv_def ix_ids_def)
  qed
  then have "ix_inv ?ix"
    using assms by (simp add: ix_inv_def ix_ids_def)
  then show ?thesis
    using none by (simp add: ix_update_trust_def getFileId_def)
qed

lemma ix_update_duplicate:
  assumes "ix_inv ix" "si_fileId t \<in> set (ix_ids ix)"
  shows "ix_update t ix = Inl (Runtime_error ''file id is already indexed'')"
  using assms by (simp add: ix_update_def ix_update_trust_def getFileId_def ix_inv_def)

text \<open>An iterator leads to the table of its file id.\<close>

lemma takeWhile_index:
  assumes "f \<in> set xs"
  shows "length (takeWhile (\<lambda>g. g \<noteq> f) xs) < length xs \<and> xs ! length (takeWhile (\<lambda>g. g \<noteq> f) xs) = f"
  using assms by (induction xs) auto

lemma ix_position_id:
  assumes "ix_inv ix" "map_of (ix_map ix) f = Some it"
  shows "ix_position ix it < length (ix_tables ix) \<and> si_fileId (ix_tables ix ! ix_position ix it) = f"
proof -
  have it: "f \<in> set (rev (ix_ids ix))" "it = length (takeWhile (\<lambda>g. g \<noteq> f) (rev (ix_ids ix)))"
    using assms by (auto simp: ix_inv_def split: if_splits)
  with takeWhile_index [OF it(1)] have lt: "it < length (ix_ids ix)" and nth: "rev (ix_ids ix) ! it = f"
    by auto
  then have "ix_ids ix ! (length (ix_ids ix) - Suc it) = f"
    by (simp add: rev_nth)
  with lt show ?thesis
    by (simp add: ix_ids_def ix_position_def)
qed

lemma one_table_inv [simp]: "si_fileId t = f \<Longrightarrow> ix_inv \<lparr>ix_tables = [t], ix_map = [(f, 0)]\<rparr>"
  by (simp add: ix_inv_def ix_ids_def)

section \<open>Properties\<close>

text \<open>
  The index answers from the newest table that knows the key: after an update with a new
  table, a key of that table is found there, and every other key where it was found before.
\<close>

theorem index_get_after_update:
  assumes "ix_inv ix" "si_fileId t \<notin> set (ix_ids ix)"
  shows "\<exists>ix'. ix_update t ix = Inr ix' \<and> ix_inv ix' \<and>
    (\<forall>k. ix_get k ix' = (case si_get k t of
        (True, h) \<Rightarrow> (True, SearchHint (si_fileId t) (fh_offset h) (fh_size h))
      | (False, _) \<Rightarrow> ix_get k ix))"
  using ix_update_fresh [OF assms, of False]
  by (auto simp: ix_update_def ix_get_def getFileId_def split: prod.splits bool.splits)

theorem index_get_after_update_witness:
  "\<exists>ix'. ix_update (si_insert (Key 1) (FileSearchHint 2 3) (new_sstable_index 5)) new_index = Inr ix' \<and>
     ix_get (Key 1) ix' = (True, SearchHint 5 2 3)"
  using index_get_after_update [OF ix_inv_new, of "si_insert (Key 1) (FileSearchHint 2 3) (new_sstable_index 5)"]
  by (force simp: ix_ids_def new_index_def si_get_lookup FileSearchHint_def new_sstable_index_def)

text \<open>
  An update with a file id that is already indexed is refused and leaves the index alone.
\<close>

theorem index_refuses_duplicate_file:
  assumes "ix_inv ix" "si_fileId t \<in> set (ix_ids ix)"
  shows "ix_update t ix = Inl (Runtime_error ''file id is already indexed'')"
  using assms by (rule ix_update_duplicate)

theorem index_refuses_duplicate_file_witness:
  "ix_update (new_sstable_index 5) \<lparr>ix_tables = [new_sstable_index 5], ix_map = [(5, 0)]\<rparr> =
     Inl (Runtime_error ''file id is already indexed'')"
  by (rule index_refuses_duplicate_file) (auto simp: one_table_inv ix_ids_def new_sstable_index_def)

text \<open>
  Inserting a key into the index of a known file goes to the table of that file and to no
  other, through the stored iterator, and keeps the invariant.
\<close>

theorem index_insert_known_file:
  assumes "ix_inv ix" "p < length (ix_tables ix)" "si_fileId (ix_tables ix ! p) = sh_fileId h"
  shows "\<exists>ix'. ix_insert k h ix = Inr ix' \<and> ix_inv ix' \<and>
    ix_tables ix' = (ix_tables ix)[p := si_insert k (FileSearchHint (sh_offset h) (sh_size h)) (ix_tables ix ! p)]"
proof -
  have mem: "sh_fileId h \<in> set (ix_ids ix)"
    using nth_mem [OF assms(2)] assms(3) by (auto simp: ix_ids_def image_iff intro: bexI [of _ "ix_tables ix ! p"])
  then obtain it where it: "map_of (ix_map ix) (sh_fileId h) = Some it"
    using assms(1) by (auto simp: ix_inv_def)
  have pos: "ix_position ix it < length (ix_tables ix)" "si_fileId (ix_tables ix ! ix_position ix it) = sh_fileId h"
    using ix_position_id [OF assms(1) it] by simp_all
  then have "ix_position ix it = p"
    using assms(1-3) nth_eq_iff_index_eq [of "ix_ids ix" "ix_position ix it" p] by (simp add: ix_inv_def ix_ids_def)
  moreover have "ix_ids (ix\<lparr>ix_tables := (ix_tables ix)[p := si_insert k h' (ix_tables ix ! p)]\<rparr>) = ix_ids ix" for h'
    using assms(2) by (simp add: ix_ids_def map_update list_update_same_conv)
  ultimately show ?thesis
    using it assms(1) by (simp add: ix_insert_def Let_def ix_inv_def)
qed

theorem index_insert_known_file_witness:
  "\<exists>ix'. ix_insert (Key 1) (SearchHint 5 2 3) \<lparr>ix_tables = [new_sstable_index 5], ix_map = [(5, 0)]\<rparr> = Inr ix' \<and>
     ix_tables ix' = [si_insert (Key 1) (FileSearchHint 2 3) (new_sstable_index 5)]"
  using index_insert_known_file [of "\<lparr>ix_tables = [new_sstable_index 5], ix_map = [(5, 0)]\<rparr>" 0 "SearchHint 5 2 3" "Key 1"]
  by (auto simp: one_table_inv new_sstable_index_def SearchHint_def)

end
