(* ===== verification/Externals.thy ===== *)
theory Externals
  imports SSTableIndex "HOL-Library.Multiset"
begin

text \<open>
  The code the program calls that is not part of the repository, as one record of functions
  every definition that needs it takes as an argument: the hash functions (CityHash128 and
  MurmurHash3, git submodules), the Snappy and LZ4 libraries, and two choices the C++
  standard leaves open: the order in which an \<open>unordered_map\<close> is walked and the value of an
  uninitialised byte. The contracts below restate what the libraries document.
\<close>

record externals =
  ext_murmur3 :: "bytes \<Rightarrow> int \<Rightarrow> u32 \<Rightarrow> u128"
  ext_city128 :: "bytes \<Rightarrow> u64 \<Rightarrow> u128"
  ext_snappy_compress :: "bytes \<Rightarrow> bytes"
  ext_snappy_uncompress :: "bytes \<Rightarrow> bytes"
  ext_lz4_bound :: "int \<Rightarrow> int"
  ext_lz4_compress :: "bytes \<Rightarrow> int \<Rightarrow> int \<Rightarrow> int \<times> bytes"
  ext_lz4_decompress :: "bytes \<Rightarrow> int \<Rightarrow> int \<Rightarrow> int \<times> bytes"
  ext_map_order :: "(key \<times> file_search_hint) list \<Rightarrow> (key \<times> file_search_hint) list"
  ext_junk :: u8

text \<open>Walking an \<open>unordered_map\<close> visits every entry once.\<close>

definition map_order_contract :: "externals \<Rightarrow> bool" where
  "map_order_contract x \<longleftrightarrow> (\<forall>m. mset (ext_map_order x m) = mset m)"

text \<open>\<open>snappy::Uncompress\<close> of what \<open>snappy::Compress\<close> produced is the original.\<close>

definition snappy_contract :: "externals \<Rightarrow> bool" where
  "snappy_contract x \<longleftrightarrow> (\<forall>v. ext_snappy_uncompress x (ext_snappy_compress x v) = v)"

text \<open>
  LZ4, for inputs up to \<open>LZ4_MAX_INPUT_SIZE\<close>: \<open>LZ4_compressBound\<close> is positive;
  \<open>LZ4_compress_default\<close> with that much room succeeds, writing the number of bytes it
  returns; \<open>LZ4_decompress_safe\<close> of those bytes, with room for the original, writes the
  original and returns its length.
\<close>

definition lz4_max_input :: nat where
  "lz4_max_input = 2113929216"

definition lz4_contract :: "externals \<Rightarrow> bool" where
  "lz4_contract x \<longleftrightarrow>
     (\<forall>v. length v \<le> lz4_max_input \<longrightarrow>
        (let bound = ext_lz4_bound x (int (length v));
             (n, out) = ext_lz4_compress x v (int (length v)) bound
         in 0 < bound \<and> bound < 2 ^ 31 - 8 \<and> 0 < n \<and> n \<le> bound \<and> length out = nat n \<and>
            ext_lz4_decompress x out n (int (length v)) = (int (length v), v)))"

text \<open>\<open>LZ4_COMPRESSBOUND\<close>, which the library's header defines.\<close>

definition lz4_bound_contract :: "externals \<Rightarrow> bool" where
  "lz4_bound_contract x \<longleftrightarrow>
     (\<forall>n. 0 \<le> n \<longrightarrow> n \<le> int lz4_max_input \<longrightarrow> ext_lz4_bound x n = n + n div 255 + 16)"

text \<open>A concrete environment that meets the contracts, for evaluating the model.\<close>

definition plain_externals :: externals where
  "plain_externals =
     \<lparr>ext_murmur3 = (\<lambda>d n seed. (word_of_bytes d, 1)),
      ext_city128 = (\<lambda>d n. (word_of_bytes (take 8 d), n)),
      ext_snappy_compress = (\<lambda>v. 0 # v),
      ext_snappy_uncompress = tl,
      ext_lz4_bound = (\<lambda>n. n + 1),
      ext_lz4_compress = (\<lambda>v n cap. (n + 1, 0 # v)),
      ext_lz4_decompress = (\<lambda>v n cap. (n - 1, tl v)),
      ext_map_order = rev,
      ext_junk = 0\<rparr>"

lemma plain_map_order_contract: "map_order_contract plain_externals"
  by (simp add: map_order_contract_def plain_externals_def)

lemma plain_snappy_contract: "snappy_contract plain_externals"
  by (simp add: snappy_contract_def plain_externals_def)

lemma plain_lz4_contract: "lz4_contract plain_externals"
  by (simp add: lz4_contract_def lz4_max_input_def plain_externals_def Let_def nat_add_distrib)

definition bounded_externals :: externals where
  "bounded_externals = plain_externals\<lparr>ext_lz4_bound := \<lambda>n. n + n div 255 + 16\<rparr>"

lemma bounded_externals_contracts: "lz4_contract bounded_externals" "lz4_bound_contract bounded_externals"
proof -
  show "lz4_contract bounded_externals"
    unfolding lz4_contract_def
  proof (intro allI impI)
    fix v :: bytes assume v: "length v \<le> lz4_max_input"
    have "int (length v) div 255 \<le> 8289918" "0 \<le> int (length v) div 255"
      using v by (auto simp: lz4_max_input_def)
    with v show "let bound = ext_lz4_bound bounded_externals (int (length v));
             (n, out) = ext_lz4_compress bounded_externals v (int (length v)) bound
         in 0 < bound \<and> bound < 2 ^ 31 - 8 \<and> 0 < n \<and> n \<le> bound \<and> length out = nat n \<and>
            ext_lz4_decompress bounded_externals out n (int (length v)) = (int (length v), v)"
      by (simp add: bounded_externals_def plain_externals_def lz4_max_input_def Let_def nat_add_distrib)
  qed
  show "lz4_bound_contract bounded_externals"
    by (simp add: lz4_bound_contract_def bounded_externals_def)
qed

end
