(* ===== verification/BloomFilter.thy ===== *)
theory BloomFilter
  imports Externals
begin

text \<open>
  The Bloom filter template of src/BloomFilter.h. The template arguments \<open>FilterSize\<close> and
  \<open>NumHashes\<close> are the parameters \<open>fsz\<close> and \<open>nh\<close>; the storage engine instantiates them with
  \<open>kFilterSize\<close> and \<open>kNumHashes\<close> of src/StorageEngine.h. One byte is kept per bit.
\<close>

record bloom =
  bf_bits :: bytes

definition new_bloom :: "nat \<Rightarrow> bloom" where
  "new_bloom fsz = \<lparr>bf_bits = replicate fsz 0\<rparr>"

definition bf_hash :: "externals \<Rightarrow> key \<Rightarrow> u128" where
  "bf_hash x k = ext_murmur3 x (word_bytes (key_id k)) 8 46"

definition rehash :: "u8 \<Rightarrow> u128 \<Rightarrow> bloom \<Rightarrow> u64" where
  "rehash index hash b = (fst hash + ucast index * snd hash) mod size_of_list (bf_bits b)"

definition bf_add :: "externals \<Rightarrow> nat \<Rightarrow> key \<Rightarrow> bloom \<Rightarrow> bloom" where
  "bf_add x nh k b =
     (let hashValue = bf_hash x k
      in foldl (\<lambda>b i. b\<lparr>bf_bits :=
           (bf_bits b)[unat (rehash (word_of_nat i) hashValue b) := 1]\<rparr>) b [0..<nh])"

fun contains_loop :: "u128 \<Rightarrow> bloom \<Rightarrow> nat list \<Rightarrow> bool" where
  "contains_loop hashValue b [] = True"
| "contains_loop hashValue b (i # is) =
     (let index = rehash (word_of_nat i) hashValue b
      in if bf_bits b ! unat index = 0 then False else contains_loop hashValue b is)"

definition probablyContains :: "externals \<Rightarrow> nat \<Rightarrow> key \<Rightarrow> bloom \<Rightarrow> bool" where
  "probablyContains x nh k b = contains_loop (bf_hash x k) b [0..<nh]"

definition bf_dump :: "nat \<Rightarrow> bool \<Rightarrow> bloom \<Rightarrow> bytes result" where
  "bf_dump fsz opened b =
     (if \<not> opened then Inl (Runtime_error ''invalid output stream'')
      else Inr (take fsz (bf_bits b)))"

definition bf_load :: "nat \<Rightarrow> istream \<Rightarrow> bloom \<Rightarrow> (bloom \<times> istream) result" where
  "bf_load fsz s b =
     (if \<not> is_open s then Inl (Runtime_error ''invalid input stream'')
      else rmap (\<lambda>(bits, s'). (b\<lparr>bf_bits := bits\<rparr>, peek s')) (read_into fsz (bf_bits b) s))"

section \<open>The contract of an approximate set\<close>

text \<open>What was added is found, whatever is added later: there are no false negatives.\<close>

locale approximate_set =
  fixes add :: "'k \<Rightarrow> 's \<Rightarrow> 's"
    and contains :: "'k \<Rightarrow> 's \<Rightarrow> bool"
    and invar :: "'s \<Rightarrow> bool"
  assumes contains_add: "invar s \<Longrightarrow> contains k (add k s)"
    and contains_add_other: "invar s \<Longrightarrow> contains k s \<Longrightarrow> contains k (add k' s)"
    and invar_add: "invar s \<Longrightarrow> invar (add k s)"
begin

lemma add_all:
  "invar s \<Longrightarrow> invar (foldl (\<lambda>s k. add k s) s ks) \<and>
    (\<forall>k. k \<in> set ks \<or> contains k s \<longrightarrow> contains k (foldl (\<lambda>s k. add k s) s ks))"
proof (induction ks arbitrary: s)
  case Nil
  then show ?case by simp
next
  case (Cons k ks)
  then show ?case
    using Cons.IH [of "add k s"] by (auto intro: contains_add contains_add_other invar_add)
qed

end

section \<open>The filter meets it\<close>

definition bf_inv :: "nat \<Rightarrow> bloom \<Rightarrow> bool" where
  "bf_inv fsz b \<longleftrightarrow> length (bf_bits b) = fsz \<and> 0 < fsz \<and> fsz < 2 ^ 64"

text \<open>The positions a key's hash selects in a filter of a given size.\<close>

definition bf_positions :: "u128 \<Rightarrow> nat \<Rightarrow> bloom \<Rightarrow> nat list" where
  "bf_positions h nh b = map (\<lambda>i. unat (rehash (word_of_nat i) h b)) [0..<nh]"

lemma rehash_length: "length (bf_bits b) = length (bf_bits b') \<Longrightarrow> rehash i h b = rehash i h b'"
  by (simp add: rehash_def size_of_list_def)

lemma rehash_bound: "bf_inv fsz b \<Longrightarrow> unat (rehash i h b) < fsz"
  by (simp add: bf_inv_def rehash_def unat_mod)

lemma contains_loop_iff:
  "contains_loop h b is \<longleftrightarrow> (\<forall>i \<in> set is. bf_bits b ! unat (rehash (word_of_nat i) h b) \<noteq> 0)"
  by (induction h b "is" rule: contains_loop.induct) (auto simp: Let_def)

lemma probablyContains_iff:
  "probablyContains x nh k b \<longleftrightarrow> (\<forall>p \<in> set (bf_positions (bf_hash x k) nh b). bf_bits b ! p \<noteq> 0)"
  by (simp add: probablyContains_def contains_loop_iff bf_positions_def)

text \<open>Setting bytes to 1 one after the other.\<close>

definition set_bits :: "nat list \<Rightarrow> bytes \<Rightarrow> bytes" where
  "set_bits ps bs = foldl (\<lambda>bs p. bs[p := 1]) bs ps"

lemma length_set_bits [simp]: "length (set_bits ps bs) = length bs"
  by (induction ps arbitrary: bs) (auto simp: set_bits_def)

lemma set_bits_nth:
  "q < length bs \<Longrightarrow> set_bits ps bs ! q = (if q \<in> set ps then 1 else bs ! q)"
proof (induction ps arbitrary: bs)
  case Nil
  then show ?case by (simp add: set_bits_def)
next
  case (Cons p ps)
  have "set_bits (p # ps) bs = set_bits ps (bs[p := 1])" by (simp add: set_bits_def)
  then show ?case using Cons by (simp add: nth_list_update)
qed

lemma foldl_bits:
  "foldl (\<lambda>b i. b\<lparr>bf_bits := (bf_bits b)[unat (rehash (word_of_nat i) h b) := 1]\<rparr>) b is =
   b\<lparr>bf_bits := set_bits (map (\<lambda>i. unat (rehash (word_of_nat i) h b)) is) (bf_bits b)\<rparr>"
proof (induction "is" arbitrary: b)
  case Nil
  show ?case by (simp add: set_bits_def)
next
  case (Cons i "is")
  let ?b = "b\<lparr>bf_bits := (bf_bits b)[unat (rehash (word_of_nat i) h b) := 1]\<rparr>"
  have "rehash j h ?b = rehash j h b" for j by (rule rehash_length) simp
  then show ?case using Cons [of ?b] by (simp add: Let_def set_bits_def)
qed

lemma bf_add_bits:
  "bf_add x nh k b = b\<lparr>bf_bits := set_bits (bf_positions (bf_hash x k) nh b) (bf_bits b)\<rparr>"
  by (simp add: bf_add_def foldl_bits bf_positions_def)

lemma bf_positions_add [simp]: "bf_positions h nh (bf_add x n k b) = bf_positions h nh b"
  unfolding bf_positions_def
  by (intro map_cong refl arg_cong [where f = unat] rehash_length) (simp add: bf_add_bits)

lemma bf_positions_bound: "bf_inv fsz b \<Longrightarrow> p \<in> set (bf_positions h nh b) \<Longrightarrow> p < length (bf_bits b)"
  by (auto simp: bf_positions_def bf_inv_def intro: rehash_bound [unfolded bf_inv_def])

lemma bf_add_nth:
  "bf_inv fsz b \<Longrightarrow> p \<in> set (bf_positions h m b) \<Longrightarrow>
   bf_bits (bf_add x nh k b) ! p =
     (if p \<in> set (bf_positions (bf_hash x k) nh b) then 1 else bf_bits b ! p)"
  by (simp add: bf_add_bits set_bits_nth bf_positions_bound)

lemma bf_inv_add: "bf_inv fsz b \<Longrightarrow> bf_inv fsz (bf_add x nh k b)"
  by (simp add: bf_inv_def bf_add_bits)

lemma bf_contains_add: "bf_inv fsz b \<Longrightarrow> probablyContains x nh k (bf_add x nh k b)"
  unfolding probablyContains_iff bf_positions_add by (simp add: bf_add_nth)

lemma bf_contains_add_other:
  "bf_inv fsz b \<Longrightarrow> probablyContains x nh k b \<Longrightarrow> probablyContains x nh k (bf_add x nh k' b)"
  unfolding probablyContains_iff bf_positions_add by (simp add: bf_add_nth)

interpretation bloom: approximate_set "bf_add x nh" "probablyContains x nh" "bf_inv fsz" for x nh fsz
  by unfold_locales (auto intro: bf_contains_add bf_contains_add_other bf_inv_add)

lemma bf_inv_new: "0 < fsz \<Longrightarrow> fsz < 2 ^ 64 \<Longrightarrow> bf_inv fsz (new_bloom fsz)"
  by (simp add: bf_inv_def new_bloom_def)

lemma bf_load_dump:
  assumes "bf_inv fsz b" "bf_inv fsz b'" "bf_dump fsz True b = Inr bs"
  shows "\<exists>s. bf_load fsz (fresh_stream bs) b' = Inr (b, s)"
proof -
  have bs: "bs = bf_bits b" using assms(1,3) by (simp add: bf_dump_def bf_inv_def)
  have "read_into fsz (bf_bits b') (fresh_stream bs) = Inr (bs, (fresh_stream bs)\<lparr>rest := []\<rparr>)"
    using assms bs by (intro read_into_prefix) (simp_all add: bf_inv_def)
  then show ?thesis using bs by (simp add: bf_load_def)
qed

section \<open>Properties\<close>

text \<open>
  C30: The Bloom filter has no false negatives: whatever keys are added to a filter, in whatever
  order, every one of them and every key it contained before is probably contained.
\<close>

theorem bloom_no_false_negatives:
  assumes "bf_inv fsz b" "k \<in> set ks \<or> probablyContains x nh k b"
  shows "probablyContains x nh k (foldl (\<lambda>b k. bf_add x nh k b) b ks)"
  using bloom.add_all [OF assms(1), of x nh ks] assms(2) by blast

theorem bloom_no_false_negatives_witness:
  "probablyContains plain_externals 3 (Key 5)
     (foldl (\<lambda>b k. bf_add plain_externals 3 k b) (new_bloom 16) [Key 5, Key 9])"
  by (rule bloom_no_false_negatives [of 16]) (simp_all add: bf_inv_new)

text \<open>
  A Bloom filter that is dumped and loaded into any filter of the same size answers as
  before.
\<close>

theorem bloom_file_round_trip:
  assumes "bf_inv fsz b" "bf_inv fsz b'" "bf_dump fsz True b = Inr bs"
  shows "\<exists>b'' s. bf_load fsz (fresh_stream bs) b' = Inr (b'', s) \<and>
    (\<forall>x nh k. probablyContains x nh k b'' = probablyContains x nh k b)"
  using bf_load_dump [OF assms] by blast

theorem bloom_file_round_trip_witness:
  "\<exists>b'' s. bf_load 4 (fresh_stream [0, 1, 0, 1]) (new_bloom 4) = Inr (b'', s) \<and>
    (\<forall>x nh k. probablyContains x nh k b'' = probablyContains x nh k \<lparr>bf_bits = [0, 1, 0, 1]\<rparr>)"
  by (rule bloom_file_round_trip) (simp_all add: bf_inv_def new_bloom_def bf_dump_def)

end
