(* ===== verification/Compression.thy ===== *)
theory Compression
  imports Externals
begin

text \<open>
  src/Compression: the \<open>ICompression\<close> interface, its three implementations and the factory.
  A compressor object is a value of a datatype and the virtual calls dispatch on it.
\<close>

section \<open>The interface\<close>

text \<open>
  What the storage engine relies on: a value in the compressor's domain is compressed without
  an exception, and uncompressing the result gives the value back.
\<close>

locale codec =
  fixes compress :: "bytes \<Rightarrow> bytes result"
    and uncompress :: "bytes \<Rightarrow> bytes result"
    and domain :: "bytes \<Rightarrow> bool"
  assumes round_trip: "domain v \<Longrightarrow> \<exists>c. compress v = Inr c \<and> uncompress c = Inr v"
begin

lemma uncompress_compress: "domain v \<Longrightarrow> compress v = Inr c \<Longrightarrow> uncompress c = Inr v"
  using round_trip by fastforce

lemma compress_inj: "domain v \<Longrightarrow> domain w \<Longrightarrow> compress v = compress w \<Longrightarrow> v = w"
  using round_trip by (metis Inr_inject)

end

section \<open>Implementations\<close>

datatype compressor = NoCompression | SnappyCompressionAdapter | LZ4CompressionAdapter

definition no_compress :: "bytes \<Rightarrow> bytes result" where
  "no_compress input = Inr input"

definition no_uncompress :: "bytes \<Rightarrow> bytes result" where
  "no_uncompress input = Inr input"

definition snappy_compress :: "externals \<Rightarrow> bytes \<Rightarrow> bytes result" where
  "snappy_compress x input = Inr (ext_snappy_compress x input)"

definition snappy_uncompress :: "externals \<Rightarrow> bytes \<Rightarrow> bytes result" where
  "snappy_uncompress x input = Inr (ext_snappy_uncompress x input)"

text \<open>\<open>std::string::resize\<close>, and the conversion of a \<open>size_t\<close> to \<open>int\<close>.\<close>

definition resize :: "nat \<Rightarrow> bytes \<Rightarrow> bytes" where
  "resize n s = take n s @ replicate (n - length s) 0"

definition int_of_size :: "u64 \<Rightarrow> int" where
  "int_of_size n = sint (ucast n :: u32)"

definition int_to_string :: "int \<Rightarrow> string" where
  "int_to_string n = (if n < 0 then ''-'' @ to_string (nat (- n)) else to_string (nat n))"

text \<open>
  The LZ4 adapter puts the size of the input in front of the compressed bytes. Bytes the
  library writes overwrite the start of the output buffer; writing past its end is undefined.
\<close>

definition lz4_compress :: "externals \<Rightarrow> bytes \<Rightarrow> bytes result" where
  "lz4_compress x input =
     (let inputSize = size_of_list input;
          maxCompressedSize = ext_lz4_bound x (int_of_size (size_of_list input))
      in if maxCompressedSize \<le> 0
         then Inl (Runtime_error (''Invalid input size for LZ4 compression: '' @ to_string (length input)))
         else
           let output = resize (nat (maxCompressedSize + 8)) [];
               (compressedSize, out) = ext_lz4_compress x input (int_of_size inputSize)
                 (int_of_size (size_of_list output - 8))
           in if length out > length output - 8 then Inl (Undefined_behaviour ''write past the buffer'')
              else if compressedSize \<le> 0
              then Inl (Runtime_error (''result '' @ int_to_string compressedSize @
                     '' indicates a failure trying to compress the data.''))
              else Inr (resize (nat (compressedSize + 8))
                     (word_bytes inputSize @ out @ drop (length out + 8) output)))"

text \<open>
  \<open>uncompress\<close> reads the size from the first eight bytes that \<open>c_str()\<close> points to, of which
  there are \<open>input.size() + 1\<close>.
\<close>

definition lz4_uncompress :: "externals \<Rightarrow> bytes \<Rightarrow> bytes result" where
  "lz4_uncompress x input =
     (if length input + 1 < 8 then Inl (Undefined_behaviour ''read past the string'')
      else
        let outputSize = (word_of_bytes (take 8 (input @ [0])) :: u64)
        in if outputSize > max_size then Inl Length_error
           else
             let output = resize (unat outputSize) [];
                 (decompressedSize, out) = ext_lz4_decompress x (drop 8 input)
                   (int_of_size (size_of_list input - 8)) (int_of_size outputSize)
             in if length out > length output then Inl (Undefined_behaviour ''write past the buffer'')
                else if decompressedSize \<le> 0
                then Inl (Runtime_error (''result '' @ int_to_string decompressedSize @
                       '' indicates a failure trying to uncompress the data.''))
                else Inr (resize (nat decompressedSize) (out @ drop (length out) output)))"

fun compress :: "externals \<Rightarrow> compressor \<Rightarrow> bytes \<Rightarrow> bytes result" where
  "compress x NoCompression = no_compress"
| "compress x SnappyCompressionAdapter = snappy_compress x"
| "compress x LZ4CompressionAdapter = lz4_compress x"

fun uncompress :: "externals \<Rightarrow> compressor \<Rightarrow> bytes \<Rightarrow> bytes result" where
  "uncompress x NoCompression = no_uncompress"
| "uncompress x SnappyCompressionAdapter = snappy_uncompress x"
| "uncompress x LZ4CompressionAdapter = lz4_uncompress x"

section \<open>The factory\<close>

datatype compression_type = CompressionType_NoCompression | CompressionType_Snappy
  | CompressionType_LZ4 | CompressionType_other u8

definition compression_byte :: "compression_type \<Rightarrow> u8" where
  "compression_byte c = (case c of CompressionType_NoCompression \<Rightarrow> 0 | CompressionType_Snappy \<Rightarrow> 1
     | CompressionType_LZ4 \<Rightarrow> 2 | CompressionType_other b \<Rightarrow> b)"

definition compression_of_byte :: "u8 \<Rightarrow> compression_type" where
  "compression_of_byte b = (if b = 0 then CompressionType_NoCompression
     else if b = 1 then CompressionType_Snappy else if b = 2 then CompressionType_LZ4
     else CompressionType_other b)"

fun createCompressor :: "compression_type \<Rightarrow> compressor" where
  "createCompressor CompressionType_NoCompression = NoCompression"
| "createCompressor CompressionType_Snappy = SnappyCompressionAdapter"
| "createCompressor CompressionType_LZ4 = LZ4CompressionAdapter"
| "createCompressor (CompressionType_other _) = NoCompression"

fun compression_toString :: "compression_type \<Rightarrow> string" where
  "compression_toString CompressionType_NoCompression = ''NoCompression''"
| "compression_toString CompressionType_Snappy = ''Snappy''"
| "compression_toString CompressionType_LZ4 = ''LZ4''"
| "compression_toString (CompressionType_other _) = ''Unknown''"

section \<open>The implementations meet the interface\<close>

text \<open>
  The values each compressor gives back: all of them without compression or with Snappy;
  with LZ4, those that are not empty and not above the library's limit.
\<close>

fun codec_domain :: "externals \<Rightarrow> compressor \<Rightarrow> bytes \<Rightarrow> bool" where
  "codec_domain x NoCompression v = True"
| "codec_domain x SnappyCompressionAdapter v = snappy_contract x"
| "codec_domain x LZ4CompressionAdapter v \<longleftrightarrow> lz4_contract x \<and> v \<noteq> [] \<and> length v \<le> lz4_max_input"

lemma int_of_size_small: "unat n < 2 ^ 31 \<Longrightarrow> int_of_size n = int (unat n)"
proof -
  assume n: "unat n < 2 ^ 31"
  then have "unat (ucast n :: u32) = unat n"
    by (simp add: unsigned_ucast_eq take_bit_nat_eq_self)
  then have u: "uint (ucast n :: u32) = int (unat n)"
    by (metis uint_nat)
  have "signed_take_bit 31 (int m) = int m" if "m < 2 ^ 31" for m
    using that by (intro signed_take_bit_int_eq_self) simp_all
  then have "signed_take_bit 31 (int (unat n)) = int (unat n)"
    using n by blast
  then show "int_of_size n = int (unat n)"
    by (simp only: int_of_size_def sint_uint u) simp
qed

lemma int_of_size_of_nat: "m < 2 ^ 31 \<Longrightarrow> int_of_size (word_of_nat m) = int m"
  by (subst int_of_size_small) (simp_all add: unat_word_of_nat)

lemma resize_replicate [simp]: "resize n [] = replicate n 0"
  by (simp add: resize_def)

lemma resize_take: "n \<le> length s \<Longrightarrow> resize n s = take n s"
  by (simp add: resize_def)

lemma lz4_compress_ok:
  assumes "lz4_contract x" "length v \<le> lz4_max_input"
  obtains n out where "lz4_compress x v = Inr (word_bytes (size_of_list v) @ out)"
    "0 < n" "n < 2 ^ 31 - 8" "n \<le> ext_lz4_bound x (int (length v))" "length out = nat n"
    "ext_lz4_decompress x out n (int (length v)) = (int (length v), v)"
proof -
  let ?bound = "ext_lz4_bound x (int (length v))"
  obtain n out where c: "ext_lz4_compress x v (int (length v)) ?bound = (n, out)"
    by (cases "ext_lz4_compress x v (int (length v)) ?bound")
  have k: "0 < ?bound" "?bound < 2 ^ 31 - 8" "0 < n" "n \<le> ?bound" "length out = nat n"
    "ext_lz4_decompress x out n (int (length v)) = (int (length v), v)"
    using assms c unfolding lz4_contract_def by (auto simp: Let_def dest!: spec [of _ v])
  have v: "int_of_size (size_of_list v) = int (length v)"
    using assms(2) by (subst int_of_size_small) (simp_all add: lz4_max_input_def)
  have "size_of_list (replicate (nat (?bound + 8)) (0 :: u8)) - 8 = word_of_nat (nat ?bound)"
    using k(1) by (simp add: size_of_list_def nat_add_distrib)
  moreover have "int_of_size (word_of_nat (nat ?bound)) = ?bound"
    using k(1,2) int_of_size_of_nat [of "nat ?bound"] by simp
  ultimately have cap: "int_of_size (size_of_list (replicate (nat (?bound + 8)) (0 :: u8)) - 8) = ?bound"
    by simp
  have fit: "length out \<le> nat (?bound + 8) - 8" using k by linarith
  have "resize (nat (n + 8)) (word_bytes (size_of_list v) @ out @ ts) = word_bytes (size_of_list v) @ out" for ts
    using k(3,5) by (simp add: resize_take nat_add_distrib)
  then have "lz4_compress x v = Inr (word_bytes (size_of_list v) @ out)"
    using k(1,3) c v cap fit by (simp add: lz4_compress_def Let_def)
  then show ?thesis using k that by fastforce
qed

lemma lz4_uncompress_parts:
  assumes "length v \<le> lz4_max_input" "0 < n" "n < 2 ^ 31 - 8" "length out = nat n"
    "ext_lz4_decompress x out n (int (length v)) = (int (length v), v)"
  shows "lz4_uncompress x (word_bytes (size_of_list v) @ out) =
    (if v = [] then Inl (Runtime_error (''result '' @ int_to_string 0 @
         '' indicates a failure trying to uncompress the data.'')) else Inr v)"
proof -
  let ?c = "word_bytes (size_of_list v) @ out"
  have "size_of_list ?c - 8 = word_of_nat (nat n)"
    using assms(4) by (simp add: size_of_list_def)
  moreover have "int_of_size (word_of_nat (nat n)) = n"
    using assms(2,3) int_of_size_of_nat [of "nat n"] by simp
  ultimately have src: "int_of_size (size_of_list ?c - 8) = n" by simp
  have sz: "unat (size_of_list v) = length v" "\<not> length v > max_string_size"
    using assms(1) by (simp_all add: lz4_max_input_def max_string_size)
  have dst: "int_of_size (size_of_list v) = int (length v)"
    using assms(1) by (subst int_of_size_small) (simp_all add: lz4_max_input_def)
  have hd: "(word_of_bytes (take 8 (?c @ [0])) :: u64) = size_of_list v" by simp
  have "drop 8 ?c = out" by simp
  then show ?thesis
    unfolding lz4_uncompress_def hd Let_def
    using assms(5) src dst sz by (simp add: resize_take greater_max_size_iff)
qed

lemma lz4_round_trip:
  assumes "lz4_contract x" "v \<noteq> []" "length v \<le> lz4_max_input"
  shows "\<exists>c. lz4_compress x v = Inr c \<and> lz4_uncompress x c = Inr v"
  using lz4_compress_ok [OF assms(1,3)] lz4_uncompress_parts [OF assms(3)] assms(2) by metis

interpretation comp: codec "compress x c" "uncompress x c" "codec_domain x c" for x c
proof
  fix v assume "codec_domain x c v"
  then show "\<exists>d. compress x c v = Inr d \<and> uncompress x c d = Inr v"
    by (cases c) (auto simp: no_compress_def no_uncompress_def snappy_compress_def
        snappy_uncompress_def snappy_contract_def lz4_round_trip)
qed

lemma int_to_string_0: "int_to_string 0 = ''0''"
  by code_simp

section \<open>Properties\<close>

text \<open>
  C31: Every compressor gives back the values of its domain: compressing does not fail, and
  uncompressing the result yields the value; the default, LZ4, does so for every value that is
  not empty and within the library's limit.
\<close>

theorem codec_round_trip:
  assumes "codec_domain x (createCompressor t) v"
  shows "\<exists>d. compress x (createCompressor t) v = Inr d \<and> uncompress x (createCompressor t) d = Inr v"
  using assms by (rule comp.round_trip)

theorem codec_round_trip_witness:
  "\<exists>d. compress plain_externals (createCompressor CompressionType_LZ4) [1, 2, 3] = Inr d \<and>
     uncompress plain_externals (createCompressor CompressionType_LZ4) d = Inr [1, 2, 3]"
  by (rule codec_round_trip) (simp add: plain_lz4_contract lz4_max_input_def)

text \<open>
  C32: The empty value is the exception to the LZ4 round trip: it compresses without an error,
  and uncompressing the result throws.
\<close>

theorem lz4_loses_empty_value:
  assumes "lz4_contract x"
  shows "\<exists>d. compress x LZ4CompressionAdapter [] = Inr d \<and>
    uncompress x LZ4CompressionAdapter d =
      Inl (Runtime_error ''result 0 indicates a failure trying to uncompress the data.'')"
proof -
  have "length ([] :: bytes) \<le> lz4_max_input" by (simp add: lz4_max_input_def)
  from lz4_compress_ok [OF assms this] lz4_uncompress_parts [OF this] show ?thesis
    by (metis (no_types) append_Cons append_Nil compress.simps(3) int_to_string_0 uncompress.simps(3))
qed

theorem lz4_loses_empty_value_witness:
  "\<exists>d. compress plain_externals LZ4CompressionAdapter [] = Inr d \<and>
    uncompress plain_externals LZ4CompressionAdapter d =
      Inl (Runtime_error ''result 0 indicates a failure trying to uncompress the data.'')"
  by (rule lz4_loses_empty_value) (rule plain_lz4_contract)

end
