(* ===== verification/Hashing.thy ===== *)
theory Hashing
  imports Externals
begin

text \<open>
  src/Hasher: the \<open>IHasher\<close> interface, its three implementations and the factory, which
  returns a null pointer for a value of \<open>HashType\<close> it does not know.
\<close>

datatype hasher = NoHash | CityHash128Adapter | MurmurHash3Adapter

definition no_hash :: "bytes \<Rightarrow> u128" where
  "no_hash data = (0, 0)"

definition city_hash :: "externals \<Rightarrow> bytes \<Rightarrow> u128" where
  "city_hash x data = ext_city128 x data (size_of_list data)"

text \<open>The length parameter of \<open>MurmurHash3_x64_128\<close> is an \<open>int\<close>.\<close>

definition murmur_hash :: "externals \<Rightarrow> bytes \<Rightarrow> u128" where
  "murmur_hash x data = ext_murmur3 x data (sint (ucast (size_of_list data) :: u32)) 46"

fun hasher_hash :: "externals \<Rightarrow> hasher \<Rightarrow> bytes \<Rightarrow> u128" where
  "hasher_hash x NoHash data = no_hash data"
| "hasher_hash x CityHash128Adapter data = city_hash x data"
| "hasher_hash x MurmurHash3Adapter data = murmur_hash x data"

datatype hash_type = HashType_NoHash | HashType_CityHash128 | HashType_MurmurHash3
  | HashType_other u8

definition hash_type_byte :: "hash_type \<Rightarrow> u8" where
  "hash_type_byte h = (case h of HashType_NoHash \<Rightarrow> 0 | HashType_CityHash128 \<Rightarrow> 1
     | HashType_MurmurHash3 \<Rightarrow> 2 | HashType_other b \<Rightarrow> b)"

definition hash_type_of_byte :: "u8 \<Rightarrow> hash_type" where
  "hash_type_of_byte b = (if b = 0 then HashType_NoHash else if b = 1 then HashType_CityHash128
     else if b = 2 then HashType_MurmurHash3 else HashType_other b)"

fun createHasher :: "hash_type \<Rightarrow> hasher option" where
  "createHasher HashType_NoHash = Some NoHash"
| "createHasher HashType_CityHash128 = Some CityHash128Adapter"
| "createHasher HashType_MurmurHash3 = Some MurmurHash3Adapter"
| "createHasher (HashType_other _) = None"

fun hash_toString :: "hash_type \<Rightarrow> string" where
  "hash_toString HashType_NoHash = ''NoHash''"
| "hash_toString HashType_CityHash128 = ''CityHash128''"
| "hash_toString HashType_MurmurHash3 = ''MurmurHash3''"
| "hash_toString (HashType_other _) = ''Unknown''"

definition u128_eq :: "u128 \<Rightarrow> u128 \<Rightarrow> bool" where
  "u128_eq lhs rhs \<longleftrightarrow> fst lhs = fst rhs \<and> snd lhs = snd rhs"

lemma u128_eq_iff [simp]: "u128_eq a b \<longleftrightarrow> a = b"
  by (auto simp: u128_eq_def prod_eq_iff)

end
