(* ===== verification/EngineOptions.thy ===== *)
theory EngineOptions
  imports Compression Hashing
begin

text \<open>
  \<open>Options\<close> (include/omx/Options.h) and the options file that \<open>StorageEngine::saveOptions\<close> and
  \<open>loadOptions\<close> write and read.
\<close>

record options =
  opt_maxMemTableSize :: u64
  opt_maxWalBufferSize :: u32
  opt_compressionType :: compression_type
  opt_hashType :: hash_type

definition default_options :: options where
  "default_options = \<lparr>opt_maxMemTableSize = 1 * 1024 * 1024, opt_maxWalBufferSize = 1 * 1024,
     opt_compressionType = CompressionType_LZ4, opt_hashType = HashType_CityHash128\<rparr>"

definition options_bytes :: "options \<Rightarrow> bytes" where
  "options_bytes opts =
     word_bytes (opt_maxMemTableSize opts) @ word_bytes (opt_maxWalBufferSize opts) @
     word_bytes (compression_byte (opt_compressionType opts)) @
     word_bytes (hash_type_byte (opt_hashType opts))"

text \<open>Each field keeps its previous value as far as the file is too short.\<close>

definition options_read :: "options \<Rightarrow> istream \<Rightarrow> (options \<times> istream) result" where
  "options_read opts s0 =
     rbind (read_word 8 (opt_maxMemTableSize opts) s0) (\<lambda>(maxMemTableSize, s1).
     rbind (read_word 4 (opt_maxWalBufferSize opts) s1) (\<lambda>(maxWalBufferSize, s2).
     rbind (read_word 1 (compression_byte (opt_compressionType opts)) s2) (\<lambda>(compressionType, s3).
     rbind (read_word 1 (hash_type_byte (opt_hashType opts)) s3) (\<lambda>(hashType, s4).
     Inr (\<lparr>opt_maxMemTableSize = maxMemTableSize, opt_maxWalBufferSize = maxWalBufferSize,
            opt_compressionType = compression_of_byte compressionType,
            opt_hashType = hash_type_of_byte hashType\<rparr>, peek s4)))))"

definition wf_options :: "options \<Rightarrow> bool" where
  "wf_options opts \<longleftrightarrow>
     compression_of_byte (compression_byte (opt_compressionType opts)) = opt_compressionType opts \<and>
     hash_type_of_byte (hash_type_byte (opt_hashType opts)) = opt_hashType opts"

lemma options_read_bytes:
  assumes "wf_options opts" "is_good s" "rest s = options_bytes opts @ t"
  shows "options_read old s = Inr (opts, peek (s\<lparr>rest := t\<rparr>))"
proof -
  let ?t3 = "word_bytes (hash_type_byte (opt_hashType opts)) @ t"
  let ?t2 = "word_bytes (compression_byte (opt_compressionType opts)) @ ?t3"
  let ?t1 = "word_bytes (opt_maxWalBufferSize opts) @ ?t2"
  have s: "s = s\<lparr>rest := word_bytes (opt_maxMemTableSize opts) @ ?t1\<rparr>"
    using assms(3) by (simp add: options_bytes_def)
  have r1: "read_word 8 (opt_maxMemTableSize old) s = Inr (opt_maxMemTableSize opts, s\<lparr>rest := ?t1\<rparr>)"
    by (subst s, rule read_word_step) (use assms(2) in simp_all)
  have r2: "read_word 4 (opt_maxWalBufferSize old) (s\<lparr>rest := ?t1\<rparr>) =
      Inr (opt_maxWalBufferSize opts, s\<lparr>rest := ?t2\<rparr>)"
    by (rule read_word_step) (use assms(2) in simp_all)
  have r3: "read_word 1 (compression_byte (opt_compressionType old)) (s\<lparr>rest := ?t2\<rparr>) =
      Inr (compression_byte (opt_compressionType opts), s\<lparr>rest := ?t3\<rparr>)"
    by (rule read_word_step) (use assms(2) in simp_all)
  have r4: "read_word 1 (hash_type_byte (opt_hashType old)) (s\<lparr>rest := ?t3\<rparr>) =
      Inr (hash_type_byte (opt_hashType opts), s\<lparr>rest := t\<rparr>)"
    by (rule read_word_step) (use assms(2) in simp_all)
  show ?thesis
    unfolding options_read_def
    using assms(1) by (simp only: r1 r2 r3 r4 rbind.simps prod.case) (simp add: wf_options_def)
qed

lemma options_bytes_not_Nil [simp]: "options_bytes opts \<noteq> []"
proof -
  have "length (options_bytes opts) = 14" by (simp add: options_bytes_def)
  then show ?thesis by (metis list.size(3) zero_neq_numeral)
qed

section \<open>Properties\<close>

text \<open>
  Options that are written to the options file read back unchanged, whatever options the
  engine held before.
\<close>

theorem options_file_round_trip:
  assumes "wf_options opts"
  shows "\<exists>s. options_read old (fresh_stream (options_bytes opts)) = Inr (opts, s)"
  using options_read_bytes [OF assms, of "fresh_stream (options_bytes opts)" "[]" old] by simp

theorem options_file_round_trip_witness:
  "\<exists>s. options_read \<lparr>opt_maxMemTableSize = 7, opt_maxWalBufferSize = 8,
       opt_compressionType = CompressionType_Snappy, opt_hashType = HashType_NoHash\<rparr>
     (fresh_stream (options_bytes default_options)) = Inr (default_options, s)"
  by (rule options_file_round_trip)
    (simp add: wf_options_def default_options_def compression_byte_def compression_of_byte_def
      hash_type_byte_def hash_type_of_byte_def)

end
