(* ===== verification/Messages.thy ===== *)
theory Messages
  imports Streams KeyOrder "HOL-Library.Sublist"
begin

text \<open>
  The wire messages: \<open>Request\<close> and \<open>Response\<close> (include/omx/Request.h, Response.h and their
  .cpp files), each a 32-bit content length followed by the content.
\<close>

section \<open>Request\<close>

datatype request_type = RequestType_Get | RequestType_Put | RequestType_Delete
  | RequestType_other u8

definition request_type_byte :: "request_type \<Rightarrow> u8" where
  "request_type_byte r = (case r of RequestType_Get \<Rightarrow> 0 | RequestType_Put \<Rightarrow> 1
     | RequestType_Delete \<Rightarrow> 2 | RequestType_other b \<Rightarrow> b)"

definition request_type_of_byte :: "u8 \<Rightarrow> request_type" where
  "request_type_of_byte b = (if b = 0 then RequestType_Get else if b = 1 then RequestType_Put
     else if b = 2 then RequestType_Delete else RequestType_other b)"

record request =
  rq_contentLength :: u32
  rq_type :: request_type
  rq_key :: key
  rq_value :: bytes

text \<open>The constructor: \<open>contentLength\<close> accumulates in 32 bits.\<close>

definition Request :: "request_type \<Rightarrow> key \<Rightarrow> bytes \<Rightarrow> request" where
  "Request requestType k value =
     \<lparr>rq_contentLength = 0 + 1 + 8 + 4 + ucast (size_of_list value),
      rq_type = requestType, rq_key = k, rq_value = value\<rparr>"

definition request_serialize :: "request \<Rightarrow> bytes" where
  "request_serialize r =
     (let valueSize = (ucast (size_of_list (rq_value r)) :: u32)
      in word_bytes (rq_contentLength r) @ word_bytes (request_type_byte (rq_type r)) @
         word_bytes (key_id (rq_key r)) @ word_bytes valueSize @ take (unat valueSize) (rq_value r))"

text \<open>Fields that the buffer is too short for keep what the object held before.\<close>

definition request_deserialize :: "bytes \<Rightarrow> request \<Rightarrow> request result" where
  "request_deserialize buffer r =
     rbind (read_word 4 (rq_contentLength r) (fresh_stream buffer)) (\<lambda>(contentLength, s1).
     rbind (read_word 1 (request_type_byte (rq_type r)) s1) (\<lambda>(requestType, s2).
     rbind (read_word 8 (key_id (rq_key r)) s2) (\<lambda>(kid, s3).
     rbind (read_word 4 (0 :: u32) s3) (\<lambda>(valueSize, s4).
     rbind (read_into (unat valueSize)
        (take (unat valueSize) (rq_value r) @ replicate (unat valueSize - length (rq_value r)) 0) s4)
       (\<lambda>(value, s5).
     Inr \<lparr>rq_contentLength = contentLength, rq_type = request_type_of_byte requestType,
          rq_key = Key kid, rq_value = value\<rparr>)))))"

text \<open>\<open>operator==\<close> does not compare the content length.\<close>

definition request_eq :: "request \<Rightarrow> request \<Rightarrow> bool" where
  "request_eq a b \<longleftrightarrow> rq_type a = rq_type b \<and> rq_key a = rq_key b \<and> rq_value a = rq_value b"

section \<open>Response\<close>

datatype response_status = ResponseStatus_Ok | ResponseStatus_NotFound
  | ResponseStatus_InvalidRequestType | ResponseStatus_UnknownError | ResponseStatus_other u8

definition status_byte :: "response_status \<Rightarrow> u8" where
  "status_byte s = (case s of ResponseStatus_Ok \<Rightarrow> 0 | ResponseStatus_NotFound \<Rightarrow> 1
     | ResponseStatus_InvalidRequestType \<Rightarrow> 2 | ResponseStatus_UnknownError \<Rightarrow> 3
     | ResponseStatus_other b \<Rightarrow> b)"

definition status_of_byte :: "u8 \<Rightarrow> response_status" where
  "status_of_byte b = (if b = 0 then ResponseStatus_Ok else if b = 1 then ResponseStatus_NotFound
     else if b = 2 then ResponseStatus_InvalidRequestType
     else if b = 3 then ResponseStatus_UnknownError else ResponseStatus_other b)"

record response =
  rs_contentLength :: u32
  rs_status :: response_status
  rs_value :: bytes

definition Response :: "response_status \<Rightarrow> bytes \<Rightarrow> response" where
  "Response status value =
     \<lparr>rs_contentLength = 0 + 1 + 4 + ucast (size_of_list value),
      rs_status = status, rs_value = value\<rparr>"

definition response_serialize :: "response \<Rightarrow> bytes" where
  "response_serialize r =
     (let valueSize = (ucast (size_of_list (rs_value r)) :: u32)
      in word_bytes (rs_contentLength r) @ word_bytes (status_byte (rs_status r)) @
         word_bytes valueSize @ take (unat valueSize) (rs_value r))"

definition response_deserialize :: "bytes \<Rightarrow> response \<Rightarrow> response result" where
  "response_deserialize buffer r =
     rbind (read_word 4 (rs_contentLength r) (fresh_stream buffer)) (\<lambda>(contentLength, s1).
     rbind (read_word 1 (status_byte (rs_status r)) s1) (\<lambda>(status, s2).
     rbind (read_word 4 (0 :: u32) s2) (\<lambda>(valueSize, s3).
     rbind (read_into (unat valueSize)
        (take (unat valueSize) (rs_value r) @ replicate (unat valueSize - length (rs_value r)) 0) s3)
       (\<lambda>(value, s4).
     Inr \<lparr>rs_contentLength = contentLength, rs_status = status_of_byte status, rs_value = value\<rparr>))))"

definition response_eq :: "response \<Rightarrow> response \<Rightarrow> bool" where
  "response_eq a b \<longleftrightarrow> rs_status a = rs_status b \<and> rs_value a = rs_value b"

section \<open>The contract of a framed message\<close>

text \<open>
  What two reads take from a stream that begins with \<open>bs\<close>, one of four bytes and one of as many as
  they announce: \<open>None\<close> if the bytes are not all there.
\<close>

definition two_reads :: "bytes \<Rightarrow> bytes option" where
  "two_reads bs =
     (let n = unat (word_of_bytes (take 4 bs) :: u32)
      in if 4 + n \<le> length bs then Some (take (4 + n) bs) else None)"

lemma two_reads_Nil [simp]: "two_reads [] = None"
  by (simp add: two_reads_def Let_def)

lemma two_reads_done:
  assumes "length buf = 4" "n = unat (word_of_bytes buf :: u32)" "n \<le> length xs"
  shows "two_reads (buf @ xs @ ys) = Some (buf @ take n xs)"
  using assms by (simp add: two_reads_def Let_def)

text \<open>
  What the two ends of a connection rely on: the first four bytes are the number of bytes
  that follow them, and the whole reads back as the message, into any object.
\<close>

locale framed_message =
  fixes ser :: "'m \<Rightarrow> bytes"
    and des :: "bytes \<Rightarrow> 'm \<Rightarrow> 'm result"
    and content_length :: "'m \<Rightarrow> u32"
    and wf :: "'m \<Rightarrow> bool"
  assumes des_ser: "wf m \<Longrightarrow> des (ser m) old = Inr m"
    and frame: "wf m \<Longrightarrow> length (ser m) = 4 + unat (content_length m)"
    and prefix: "take 4 (ser m) = word_bytes (content_length m)"
begin

text \<open>Two reads, of four bytes and of the length they announce, take exactly the message.\<close>

lemma split_off:
  assumes "wf m"
  shows "word_of_bytes (take 4 (ser m @ extra)) = content_length m"
    and "take (4 + unat (content_length m)) (ser m @ extra) = ser m"
    and "drop (4 + unat (content_length m)) (ser m @ extra) = extra"
proof -
  have "4 \<le> length (ser m)"
    using frame [OF assms] by simp
  then have "take 4 (ser m @ extra) = take 4 (ser m)"
    by simp
  then show "word_of_bytes (take 4 (ser m @ extra)) = content_length m"
    by (simp only: prefix) simp
qed (simp_all add: frame [OF assms])

text \<open>From the message itself they take all of it, from a proper prefix nothing.\<close>

lemma two_reads_ser: "wf m \<Longrightarrow> two_reads (ser m) = Some (ser m)"
  using split_off [of m "[]"] frame [of m] by (simp add: two_reads_def Let_def)

lemma two_reads_part:
  assumes "wf m" "two_reads (take k (ser m)) = Some b"
  shows "b = ser m" "length (ser m) \<le> k"
proof -
  have "4 \<le> k" using assms(2) by (auto simp: two_reads_def Let_def split: if_splits)
  then have "take 4 (take k (ser m)) = take 4 (ser m)" by (simp add: min_def)
  then show "b = ser m" "length (ser m) \<le> k"
    using assms(2) split_off [OF assms(1), of "[]"] frame [OF assms(1)]
    by (auto simp: two_reads_def Let_def split: if_splits)
qed

lemma ser_inj: "wf m \<Longrightarrow> wf m' \<Longrightarrow> ser m = ser m' \<Longrightarrow> m = m'"
  using des_ser by (metis Inr_inject)

end

text \<open>A message whose length fits the 32-bit length fields, with a canonical type byte.\<close>

definition wf_request :: "request \<Rightarrow> bool" where
  "wf_request r \<longleftrightarrow> request_type_of_byte (request_type_byte (rq_type r)) = rq_type r \<and>
     length (rq_value r) + 13 < 2 ^ 32 \<and> rq_contentLength r = word_of_nat (length (rq_value r) + 13)"

definition wf_response :: "response \<Rightarrow> bool" where
  "wf_response r \<longleftrightarrow> status_of_byte (status_byte (rs_status r)) = rs_status r \<and>
     length (rs_value r) + 5 < 2 ^ 32 \<and> rs_contentLength r = word_of_nat (length (rs_value r) + 5)"

lemma ucast_size_of_list: "ucast (size_of_list xs) = (word_of_nat (length xs) :: u32)"
  by (rule word_unat_eq_iff [THEN iffD2])
    (simp add: size_of_list_def unsigned_ucast_eq unat_of_nat take_bit_eq_mod mod_mod_cancel)

lemma wf_Request:
  "length v + 13 < 2 ^ 32 \<Longrightarrow> request_type_of_byte (request_type_byte t) = t \<Longrightarrow> wf_request (Request t k v)"
  by (simp add: wf_request_def Request_def ucast_size_of_list)

lemma wf_Response:
  "length v + 5 < 2 ^ 32 \<Longrightarrow> status_of_byte (status_byte t) = t \<Longrightarrow> wf_response (Response t v)"
  by (simp add: wf_response_def Response_def ucast_size_of_list)

lemma request_des_ser:
  assumes "wf_request r"
  shows "request_deserialize (request_serialize r) old = Inr r"
proof -
  let ?n = "ucast (size_of_list (rq_value r)) :: u32"
  have n: "unat ?n = length (rq_value r)"
    using assms by (simp add: wf_request_def ucast_size_of_list unat_word_of_nat)
  let ?t3 = "word_bytes ?n @ rq_value r @ []"
  let ?t2 = "word_bytes (key_id (rq_key r)) @ ?t3"
  let ?t1 = "word_bytes (request_type_byte (rq_type r)) @ ?t2"
  let ?b = "word_bytes (rq_contentLength r) @ ?t1"
  let ?s = "fresh_stream ?b"
  have b: "request_serialize r = ?b"
    using n by (simp add: request_serialize_def Let_def)
  have s: "?s = ?s\<lparr>rest := ?b\<rparr>" by (simp add: fresh_stream_def)
  have r1: "read_word 4 (rq_contentLength old) ?s = Inr (rq_contentLength r, ?s\<lparr>rest := ?t1\<rparr>)"
    by (subst s, rule read_word_step) simp_all
  have r2: "read_word 1 (request_type_byte (rq_type old)) (?s\<lparr>rest := ?t1\<rparr>) =
      Inr (request_type_byte (rq_type r), ?s\<lparr>rest := ?t2\<rparr>)"
    by (rule read_word_step) simp_all
  have r3: "read_word 8 (key_id (rq_key old)) (?s\<lparr>rest := ?t2\<rparr>) =
      Inr (key_id (rq_key r), ?s\<lparr>rest := ?t3\<rparr>)"
    by (rule read_word_step) simp_all
  have r4: "read_word 4 (0 :: u32) (?s\<lparr>rest := ?t3\<rparr>) = Inr (?n, ?s\<lparr>rest := rq_value r @ []\<rparr>)"
    by (rule read_word_step) simp_all
  have r5: "read_into (length (rq_value r)) (take (length (rq_value r)) (rq_value old) @
        replicate (length (rq_value r) - length (rq_value old)) 0) (?s\<lparr>rest := rq_value r @ []\<rparr>) =
      Inr (rq_value r, ?s\<lparr>rest := []\<rparr>)"
    by (rule read_into_step) simp_all
  show ?thesis
    unfolding request_deserialize_def b
    using assms by (simp only: r1 r2 r3 r4 r5 n rbind.simps prod.case) (simp add: wf_request_def)
qed

lemma response_des_ser:
  assumes "wf_response r"
  shows "response_deserialize (response_serialize r) old = Inr r"
proof -
  let ?n = "ucast (size_of_list (rs_value r)) :: u32"
  have n: "unat ?n = length (rs_value r)"
    using assms by (simp add: wf_response_def ucast_size_of_list unat_word_of_nat)
  let ?t2 = "word_bytes ?n @ rs_value r @ []"
  let ?t1 = "word_bytes (status_byte (rs_status r)) @ ?t2"
  let ?b = "word_bytes (rs_contentLength r) @ ?t1"
  let ?s = "fresh_stream ?b"
  have b: "response_serialize r = ?b"
    using n by (simp add: response_serialize_def Let_def)
  have s: "?s = ?s\<lparr>rest := ?b\<rparr>" by (simp add: fresh_stream_def)
  have r1: "read_word 4 (rs_contentLength old) ?s = Inr (rs_contentLength r, ?s\<lparr>rest := ?t1\<rparr>)"
    by (subst s, rule read_word_step) simp_all
  have r2: "read_word 1 (status_byte (rs_status old)) (?s\<lparr>rest := ?t1\<rparr>) =
      Inr (status_byte (rs_status r), ?s\<lparr>rest := ?t2\<rparr>)"
    by (rule read_word_step) simp_all
  have r3: "read_word 4 (0 :: u32) (?s\<lparr>rest := ?t2\<rparr>) = Inr (?n, ?s\<lparr>rest := rs_value r @ []\<rparr>)"
    by (rule read_word_step) simp_all
  have r4: "read_into (length (rs_value r)) (take (length (rs_value r)) (rs_value old) @
        replicate (length (rs_value r) - length (rs_value old)) 0) (?s\<lparr>rest := rs_value r @ []\<rparr>) =
      Inr (rs_value r, ?s\<lparr>rest := []\<rparr>)"
    by (rule read_into_step) simp_all
  show ?thesis
    unfolding response_deserialize_def b
    using assms by (simp only: r1 r2 r3 r4 n rbind.simps prod.case) (simp add: wf_response_def)
qed

text \<open>Any bytes give some message: what is missing keeps its old value.\<close>

lemma response_deserialize_total: "\<exists>r. response_deserialize bs old = Inr r"
proof -
  let ?old = "\<lambda>n :: u32. take (unat n) (rs_value old) @ replicate (unat n - length (rs_value old)) 0"
  have len: "length (?old n) = unat n" for n by simp
  obtain n1 s1 where 1: "read_word 4 (rs_contentLength old) (fresh_stream bs) = Inr (n1, s1)"
    using read_word_total [of 4 "rs_contentLength old" "fresh_stream bs"] by auto
  obtain n2 s2 where 2: "read_word 1 (status_byte (rs_status old)) s1 = Inr (n2, s2)"
    using read_word_total [of 1 "status_byte (rs_status old)" "s1"] by auto
  obtain n3 s3 where 3: "read_word 4 (0 :: u32) s2 = Inr (n3, s3)"
    using read_word_total [of 4 "0 :: u32" "s2"] by auto
  obtain v s4 where "read_into (unat n3) (?old n3) s3 = Inr (v, s4)"
    using read_into_total [OF len] by blast
  with 1 2 3 show ?thesis by (simp add: response_deserialize_def)
qed

lemma request_deserialize_total: "\<exists>r. request_deserialize bs old = Inr r"
proof -
  let ?old = "\<lambda>n :: u32. take (unat n) (rq_value old) @ replicate (unat n - length (rq_value old)) 0"
  have len: "length (?old n) = unat n" for n by simp
  obtain n1 s1 where 1: "read_word 4 (rq_contentLength old) (fresh_stream bs) = Inr (n1, s1)"
    using read_word_total [of 4 "rq_contentLength old" "fresh_stream bs"] by auto
  obtain n2 s2 where 2: "read_word 1 (request_type_byte (rq_type old)) s1 = Inr (n2, s2)"
    using read_word_total [of 1 "request_type_byte (rq_type old)" "s1"] by auto
  obtain n3 s3 where 3: "read_word 8 (key_id (rq_key old)) s2 = Inr (n3, s3)"
    using read_word_total [of 8 "key_id (rq_key old)" "s2"] by auto
  obtain n4 s4 where 4: "read_word 4 (0 :: u32) s3 = Inr (n4, s4)"
    using read_word_total [of 4 "0 :: u32" "s3"] by auto
  obtain v s5 where "read_into (unat n4) (?old n4) s4 = Inr (v, s5)"
    using read_into_total [OF len] by blast
  with 1 2 3 4 show ?thesis by (simp add: request_deserialize_def)
qed

interpretation req: framed_message request_serialize request_deserialize rq_contentLength wf_request
proof
  fix m old
  show "wf_request m \<Longrightarrow> request_deserialize (request_serialize m) old = Inr m"
    by (rule request_des_ser)
  show "wf_request m \<Longrightarrow> length (request_serialize m) = 4 + unat (rq_contentLength m)"
    by (simp add: wf_request_def request_serialize_def Let_def ucast_size_of_list unat_word_of_nat
        del: of_nat_add)
  show "take 4 (request_serialize m) = word_bytes (rq_contentLength m)"
    by (simp add: request_serialize_def Let_def)
qed

interpretation resp: framed_message response_serialize response_deserialize rs_contentLength wf_response
proof
  fix m old
  show "wf_response m \<Longrightarrow> response_deserialize (response_serialize m) old = Inr m"
    by (rule response_des_ser)
  show "wf_response m \<Longrightarrow> length (response_serialize m) = 4 + unat (rs_contentLength m)"
    by (simp add: wf_response_def response_serialize_def Let_def ucast_size_of_list unat_word_of_nat
        del: of_nat_add)
  show "take 4 (response_serialize m) = word_bytes (rs_contentLength m)"
    by (simp add: response_serialize_def Let_def)
qed

section \<open>Properties\<close>

text \<open>
  C33: Requests and responses that are sent as bytes are received as they were, and the two-step
  framing works: the first four bytes of the stream give the number of bytes that follow, and taking
  those leaves exactly what was sent after it.
\<close>

theorem messages_transfer:
  assumes "length v + 13 < 2 ^ 32" "request_type_of_byte (request_type_byte t) = t"
    "length w + 5 < 2 ^ 32" "status_of_byte (status_byte st) = st"
  shows "(let bs = request_serialize (Request t k v); n = word_of_bytes (take 4 (bs @ rest_bytes)) :: u32
      in request_deserialize (take (4 + unat n) (bs @ rest_bytes)) old = Inr (Request t k v) \<and>
         drop (4 + unat n) (bs @ rest_bytes) = rest_bytes) \<and>
    (let bs = response_serialize (Response st w); n = word_of_bytes (take 4 (bs @ rest_bytes)) :: u32
      in response_deserialize (take (4 + unat n) (bs @ rest_bytes)) old_r = Inr (Response st w) \<and>
         drop (4 + unat n) (bs @ rest_bytes) = rest_bytes)"
  using req.split_off [OF wf_Request [OF assms(1,2), of k], of rest_bytes]
    request_des_ser [OF wf_Request [OF assms(1,2), of k], of old]
    resp.split_off [OF wf_Response [OF assms(3,4)], of rest_bytes]
    response_des_ser [OF wf_Response [OF assms(3,4)], of old_r]
  by (simp add: Let_def)

theorem messages_transfer_witness:
  "request_deserialize (request_serialize (Request RequestType_Put (Key 7) [1, 2]))
     (Request RequestType_Get (Key 0) []) = Inr (Request RequestType_Put (Key 7) [1, 2]) \<and>
   response_deserialize (response_serialize (Response ResponseStatus_Ok [1, 2]))
     (Response ResponseStatus_NotFound []) = Inr (Response ResponseStatus_Ok [1, 2])"
  using messages_transfer [of "[1, 2]" RequestType_Put "[1, 2]" ResponseStatus_Ok "Key 7" "[]"
      "Request RequestType_Get (Key 0) []" "Response ResponseStatus_NotFound []"]
    req.frame [OF wf_Request [of "[1, 2]" RequestType_Put "Key 7"]]
    req.split_off [OF wf_Request [of "[1, 2]" RequestType_Put "Key 7"], of "[]"]
    resp.frame [OF wf_Response [of "[1, 2]" ResponseStatus_Ok]]
    resp.split_off [OF wf_Response [of "[1, 2]" ResponseStatus_Ok], of "[]"]
  by (simp add: Let_def request_type_of_byte_def request_type_byte_def status_of_byte_def status_byte_def)

end
