(* ===== verification/StorageEngine.thy ===== *)
theory StorageEngine
  imports MemTable Index BloomFilter EngineOptions Messages
begin

text \<open>
  src/StorageEngine.h and src/StorageEngine.cpp: the engine's state and its operations, each
  as a function of the environment, the engine and the file system that returns a result or
  an exception together with the state the code leaves behind. The \<open>Database\<close> facade of
  src/Database.cpp forwards to it.
\<close>

section \<open>State\<close>

text \<open>The template arguments of the Bloom filter and the values the header gives them.\<close>

record filter_params =
  p_filterSize :: nat
  p_numHashes :: nat

definition kFilterSize :: nat where
  "kFilterSize = 10000000"

definition kNumHashes :: nat where
  "kNumHashes = 7"

definition omx_params :: filter_params where
  "omx_params = \<lparr>p_filterSize = kFilterSize, p_numHashes = kNumHashes\<rparr>"

text \<open>Smart pointers that may be null are options.\<close>

record engine =
  e_memTable :: "memtable option"
  e_compressor :: "compressor option"
  e_hasher :: "hasher option"
  e_index :: "index option"
  e_segmentId :: u64
  e_memTableLimit :: u64
  e_dir :: path
  e_walFileName :: path
  e_indexDir :: path
  e_chunkDir :: path
  e_bloomFileName :: path
  e_optionsFileName :: path
  e_opts :: options
  e_bloom :: bloom

definition new_engine :: "filter_params \<Rightarrow> engine" where
  "new_engine P =
     \<lparr>e_memTable = None, e_compressor = None, e_hasher = None, e_index = None, e_segmentId = 0,
      e_memTableLimit = 1 * 1024 * 1024, e_dir = [], e_walFileName = [], e_indexDir = [],
      e_chunkDir = [], e_bloomFileName = [], e_optionsFileName = [], e_opts = default_options,
      e_bloom = new_bloom (p_filterSize P)\<rparr>"

abbreviation null_error :: error where
  "null_error \<equiv> Undefined_behaviour ''null pointer''"

definition deref :: "'a option \<Rightarrow> 'a result" where
  "deref p = (case p of None \<Rightarrow> Inl null_error | Some v \<Rightarrow> Inr v)"

definition segment_name :: "nat \<Rightarrow> string" where
  "segment_name n = ''segment_'' @ to_string n @ ''.bin''"

definition index_name :: "nat \<Rightarrow> string" where
  "index_name n = ''index_'' @ to_string n @ ''.bin''"

section \<open>Writing\<close>

definition makeSnapshot ::
    "externals \<Rightarrow> filter_params \<Rightarrow> engine \<Rightarrow> fsys \<Rightarrow> unit result \<times> engine \<times> fsys" where
  "makeSnapshot x P e fs =
     (case e_memTable e of
        None \<Rightarrow> (Inl null_error, e, fs)
      | Some m \<Rightarrow>
          (let segment = e_segmentId e;
               e1 = e\<lparr>e_segmentId := segment + 1\<rparr>;
               chunkFileName = e_chunkDir e @ [segment_name (unat segment)];
               indexFileName = e_indexDir e @ [index_name (unat segment)];
               table = createSortedStringsTable m;
               fs1 = write_file fs chunkFileName (mt_dump m)
           in case mt_clear m fs1 of
                Inl err \<Rightarrow> (Inl err, e1, fs1)
              | Inr (m', fs2) \<Rightarrow>
                  (let bloom' = foldl (\<lambda>b k. bf_add x (p_numHashes P) k b) (e_bloom e)
                         (map row_key (getRowList table));
                       e2 = e1\<lparr>e_memTable := Some m', e_bloom := bloom'\<rparr>
                   in case bf_dump (p_filterSize P) (can_write fs2 (e_bloomFileName e)) bloom' of
                        Inl err \<Rightarrow> (Inl err, e2, fs2)
                      | Inr bloomBytes \<Rightarrow>
                          (let fs3 = write_file fs2 (e_bloomFileName e) bloomBytes;
                               tableIndex = sstable_index_of (ucast segment) table
                           in case si_dump (ext_map_order x) (can_write fs3 indexFileName) tableIndex of
                                Inl err \<Rightarrow> (Inl err, e2, fs3)
                              | Inr indexBytes \<Rightarrow>
                                  (let fs4 = write_file fs3 indexFileName indexBytes
                                   in case rbind (deref (e_index e2)) (ix_update tableIndex) of
                                        Inl err \<Rightarrow> (Inl err, e2, fs4)
                                      | Inr ix' \<Rightarrow> (Inr (), e2\<lparr>e_index := Some ix'\<rparr>, fs4))))))"

definition se_put ::
    "externals \<Rightarrow> filter_params \<Rightarrow> key \<Rightarrow> bytes \<Rightarrow> engine \<Rightarrow> fsys \<Rightarrow> unit result \<times> engine \<times> fsys" where
  "se_put x P k value e fs =
     (case rbind (deref (e_compressor e)) (\<lambda>c. compress x c value) of
        Inl err \<Rightarrow> (Inl err, e, fs)
      | Inr compressed \<Rightarrow>
          (case rmap (\<lambda>h. hasher_hash x h compressed) (deref (e_hasher e)) of
             Inl err \<Rightarrow> (Inl err, e, fs)
           | Inr checksum \<Rightarrow>
               (case deref (e_memTable e) of
                  Inl err \<Rightarrow> (Inl err, e, fs)
                | Inr m \<Rightarrow>
                    (let m' = mt_put k compressed checksum m;
                         e' = e\<lparr>e_memTable := Some m'\<rparr>
                     in if getApproximateSize m' \<ge> e_memTableLimit e' then makeSnapshot x P e' fs
                        else (Inr (), e', fs)))))"

definition se_remove :: "key \<Rightarrow> engine \<Rightarrow> fsys \<Rightarrow> unit result \<times> engine \<times> fsys" where
  "se_remove k e fs =
     (case deref (e_memTable e) of
        Inl err \<Rightarrow> (Inl err, e, fs)
      | Inr m \<Rightarrow> (Inr (), e\<lparr>e_memTable := Some (mt_remove k m)\<rparr>, fs))"

section \<open>Reading\<close>

definition findInMemory :: "key \<Rightarrow> engine \<Rightarrow> (bytes \<times> u128) option result" where
  "findInMemory k e = rmap (mt_get k) (deref (e_memTable e))"

definition findOnDisk ::
    "externals \<Rightarrow> filter_params \<Rightarrow> key \<Rightarrow> engine \<Rightarrow> fsys \<Rightarrow> (bytes \<times> u128) option result" where
  "findOnDisk x P k e fs =
     (if \<not> probablyContains x (p_numHashes P) k (e_bloom e) then Inr None
      else
        rbind (rmap (ix_get k) (deref (e_index e))) (\<lambda>(found, hint).
          if \<not> found then Inr None
          else
            let chunkName = segment_name (unat (sh_fileId hint));
                stream = open_ifstream fs (e_chunkDir e @ [chunkName]);
                data0 = replicate (unat (sh_size hint)) 0
            in rbind (read_into (length data0) data0 (seekg (unat (sh_offset hint)) stream)) (\<lambda>(data, _).
               rbind (row_deserialize_string (ext_junk x) data) (\<lambda>row.
                 if row_entry row = EntryType_Remove then Inr None
                 else Inr (Some (row_value row, row_checksum row))))))"

definition se_get ::
    "externals \<Rightarrow> filter_params \<Rightarrow> key \<Rightarrow> engine \<Rightarrow> fsys \<Rightarrow> bytes option result" where
  "se_get x P k e fs =
     rbind (rbind (findInMemory k e) (\<lambda>r. case r of
              Some found \<Rightarrow> Inr (Some found)
            | None \<Rightarrow> findOnDisk x P k e fs)) (\<lambda>r. case r of
         None \<Rightarrow> Inr None
       | Some (compressed, checksum) \<Rightarrow>
           rbind (deref (e_hasher e)) (\<lambda>h.
             if \<not> u128_eq (hasher_hash x h compressed) checksum
             then Inl (Runtime_error ''data corrupted: invalid checksum'')
             else rbind (deref (e_compressor e)) (\<lambda>c. rmap Some (uncompress x c compressed))))"

section \<open>Requests\<close>

text \<open>
  \<open>handle\<close> turns every exception into an \<open>UnknownError\<close> response. What is not an exception
  of \<open>std::exception\<close> is not caught.
\<close>

definition caught :: "(response result \<times> engine \<times> fsys) \<Rightarrow> response result \<times> engine \<times> fsys" where
  "caught r =
     (case r of
        (Inl err, e, fs) \<Rightarrow>
          if is_std_exception err then (Inr (Response ResponseStatus_UnknownError []), e, fs) else (Inl err, e, fs)
      | (Inr resp, e, fs) \<Rightarrow> (Inr resp, e, fs))"

definition se_handle ::
    "externals \<Rightarrow> filter_params \<Rightarrow> request \<Rightarrow> engine \<Rightarrow> fsys \<Rightarrow> response result \<times> engine \<times> fsys" where
  "se_handle x P request e fs =
     caught (case rq_type request of
         RequestType_Get \<Rightarrow>
           (rmap (\<lambda>r. case r of
                Some value \<Rightarrow> Response ResponseStatus_Ok value
              | None \<Rightarrow> Response ResponseStatus_NotFound []) (se_get x P (rq_key request) e fs), e, fs)
       | RequestType_Put \<Rightarrow>
           (case se_put x P (rq_key request) (rq_value request) e fs of
              (r, e', fs') \<Rightarrow> (rmap (\<lambda>_. Response ResponseStatus_Ok []) r, e', fs'))
       | RequestType_Delete \<Rightarrow>
           (case se_remove (rq_key request) e fs of
              (r, e', fs') \<Rightarrow> (rmap (\<lambda>_. Response ResponseStatus_Ok []) r, e', fs'))
       | RequestType_other _ \<Rightarrow> (Inr (Response ResponseStatus_InvalidRequestType []), e, fs))"

section \<open>Opening and closing\<close>

definition saveOptions :: "engine \<Rightarrow> fsys \<Rightarrow> fsys" where
  "saveOptions e fs = write_file fs (e_optionsFileName e) (options_bytes (e_opts e))"

definition loadOptions :: "engine \<Rightarrow> fsys \<Rightarrow> engine result" where
  "loadOptions e fs =
     rmap (\<lambda>(opts, _). e\<lparr>e_opts := opts\<rparr>)
       (options_read (e_opts e) (open_ifstream fs (e_optionsFileName e)))"

definition fs_is_empty :: "fsys \<Rightarrow> path \<Rightarrow> bool result" where
  "fs_is_empty fs p =
     (case map_of fs p of
        None \<Rightarrow> Inl Filesystem_error
      | Some Dir \<Rightarrow> Inr (dir_entries fs p = [])
      | Some (File c) \<Rightarrow> Inr (c = []))"

definition ensure_directory :: "fsys \<Rightarrow> path \<Rightarrow> fsys result" where
  "ensure_directory fs p = (if fs_exists fs p then Inr fs else create_directory fs p)"

text \<open>The log of a memtable that is destroyed is closed, which flushes it.\<close>

definition close_memtable :: "memtable option \<Rightarrow> fsys \<Rightarrow> fsys" where
  "close_memtable mo fs =
     (case mo of None \<Rightarrow> fs | Some m \<Rightarrow> wal_release (mt_wal m) fs)"

definition open_paths :: "path \<Rightarrow> options \<Rightarrow> engine \<Rightarrow> engine" where
  "open_paths dir options e =
     e\<lparr>e_opts := options, e_dir := dir, e_walFileName := dir @ [''wal.bin''],
       e_indexDir := dir @ [''index''], e_chunkDir := dir @ [''segment''],
       e_optionsFileName := dir @ [''options.bin''],
       e_bloomFileName := dir @ [''bloom_filter.bin'']\<rparr>"

definition open_options :: "engine \<Rightarrow> fsys \<Rightarrow> (engine \<times> fsys) result" where
  "open_options e fs =
     (if fs_exists fs (e_optionsFileName e) then rmap (\<lambda>e'. (e', fs)) (loadOptions e fs)
      else Inr (e, saveOptions e fs))"

definition open_objects :: "engine \<Rightarrow> engine" where
  "open_objects e =
     e\<lparr>e_compressor := Some (createCompressor (opt_compressionType (e_opts e))),
       e_hasher := createHasher (opt_hashType (e_opts e)),
       e_memTableLimit := opt_maxMemTableSize (e_opts e),
       e_memTable := Some new_memtable, e_index := Some new_index\<rparr>"

definition open_log :: "externals \<Rightarrow> engine \<Rightarrow> fsys \<Rightarrow> memtable result" where
  "open_log x e fs =
     rbind (deref (e_memTable e)) (\<lambda>m.
       if fs_exists fs (e_walFileName e)
       then rmap fst (returned (restoreFromLog (ext_junk x) m (open_ifstream fs (e_walFileName e))))
       else Inr m)"

definition open_bloom :: "filter_params \<Rightarrow> engine \<Rightarrow> fsys \<Rightarrow> bloom result" where
  "open_bloom P e fs =
     (if fs_exists fs (e_bloomFileName e)
      then rmap fst (bf_load (p_filterSize P) (open_ifstream fs (e_bloomFileName e)) (e_bloom e))
      else Inr (e_bloom e))"

text \<open>The last part of \<open>open\<close>: the indexes of the segments and the Bloom filter.\<close>

definition open_index ::
    "externals \<Rightarrow> filter_params \<Rightarrow> engine \<Rightarrow> fsys \<Rightarrow> unit result \<times> engine \<times> fsys" where
  "open_index x P e fs =
     (case fs_is_empty fs (e_indexDir e) of
        Inl err \<Rightarrow> (Inl err, e, fs)
      | Inr noFiles \<Rightarrow>
          (case (if noFiles then (Inr (), new_index) else ix_load fs (e_indexDir e) new_index) of
             (Inl err, ix) \<Rightarrow> (Inl err, e\<lparr>e_index := Some ix\<rparr>, fs)
           | (Inr _, ix) \<Rightarrow>
               (let e' = e\<lparr>e_index := Some ix\<rparr>
                in case open_bloom P e' fs of
                     Inl err \<Rightarrow> (Inl err, e', fs)
                   | Inr b \<Rightarrow> (Inr (), e'\<lparr>e_bloom := b\<rparr>, fs))))"

text \<open>
  Where \<open>restoreFromLog\<close> throws, the rows read before it are not represented: the memtable
  is the empty one that \<open>open\<close> created.
\<close>

definition se_open ::
    "externals \<Rightarrow> filter_params \<Rightarrow> path \<Rightarrow> options \<Rightarrow> engine \<Rightarrow> fsys \<Rightarrow> unit result \<times> engine \<times> fsys" where
  "se_open x P dir options e0 fs0 =
     (let e1 = open_paths dir options e0
      in case open_options e1 fs0 of
           Inl err \<Rightarrow> (Inl err, e1, fs0)
         | Inr (e2, fs2) \<Rightarrow>
             (let e3 = open_objects e2;
                  fs3 = close_memtable (e_memTable e2) fs2
              in case open_log x e3 fs3 of
                   Inl err \<Rightarrow> (Inl err, e3, fs3)
                 | Inr m \<Rightarrow>
                     (let (m', fs4) = setWriteAheadLog (e_walFileName e3)
                            (opt_maxWalBufferSize (e_opts e3)) m fs3;
                          e4 = e3\<lparr>e_memTable := Some m'\<rparr>
                      in case ensure_directory fs4 (e_chunkDir e4) of
                           Inl err \<Rightarrow> (Inl err, e4, fs4)
                         | Inr fs5 \<Rightarrow>
                             (case ensure_directory fs5 (e_indexDir e4) of
                                Inl err \<Rightarrow> (Inl err, e4, fs5)
                              | Inr fs6 \<Rightarrow> open_index x P e4 fs6))))"

text \<open>Destruction of the engine, and the death of the process with \<open>n\<close> bytes of the log written.\<close>

definition se_close :: "engine \<Rightarrow> fsys \<Rightarrow> fsys" where
  "se_close e fs = close_memtable (e_memTable e) fs"

definition se_crash :: "nat \<Rightarrow> engine \<Rightarrow> fsys \<Rightarrow> fsys" where
  "se_crash n e fs =
     (case e_memTable e of None \<Rightarrow> fs
      | Some m \<Rightarrow> (case mt_wal m of None \<Rightarrow> fs | Some w \<Rightarrow> wal_crash n w fs))"

section \<open>The Database facade\<close>

definition Database_put ::
    "externals \<Rightarrow> filter_params \<Rightarrow> key \<Rightarrow> bytes \<Rightarrow> engine \<Rightarrow> fsys \<Rightarrow> unit result \<times> engine \<times> fsys" where
  "Database_put x P k value impl fs = se_put x P k value impl fs"

definition Database_remove :: "key \<Rightarrow> engine \<Rightarrow> fsys \<Rightarrow> unit result \<times> engine \<times> fsys" where
  "Database_remove k impl fs = se_remove k impl fs"

definition Database_get ::
    "externals \<Rightarrow> filter_params \<Rightarrow> key \<Rightarrow> engine \<Rightarrow> fsys \<Rightarrow> bytes option result" where
  "Database_get x P k impl fs = se_get x P k impl fs"

definition Database_open ::
    "externals \<Rightarrow> filter_params \<Rightarrow> path \<Rightarrow> options \<Rightarrow> engine \<Rightarrow> fsys \<Rightarrow> unit result \<times> engine \<times> fsys" where
  "Database_open x P p options impl fs = se_open x P p options impl fs"

definition Database_handle ::
    "externals \<Rightarrow> filter_params \<Rightarrow> request \<Rightarrow> engine \<Rightarrow> fsys \<Rightarrow> response result \<times> engine \<times> fsys" where
  "Database_handle x P request impl fs = se_handle x P request impl fs"

end
