(* ===== verification/EngineRefinement.thy ===== *)
theory EngineRefinement
  imports StorageEngine
begin

text \<open>
  The storage engine against an abstract store: one partial map from keys to rows for the
  memtable and one for each segment, newest first. The invariant \<open>se_inv\<close> relates the two;
  reading, writing and taking a snapshot are shown to follow the abstract store.
\<close>

section \<open>The abstract store\<close>

type_synonym store = "key \<rightharpoonup> sstable_row"

fun on_disk :: "store list \<Rightarrow> store" where
  "on_disk [] k = None"
| "on_disk (s # ss) k = (case s k of Some r \<Rightarrow> Some r | None \<Rightarrow> on_disk ss k)"

text \<open>The most recent row of a key, tombstones included.\<close>

definition latest :: "store \<Rightarrow> store list \<Rightarrow> store" where
  "latest am segs = on_disk (am # segs)"

fun live :: "sstable_row option \<Rightarrow> sstable_row option" where
  "live None = None"
| "live (Some r) = (if row_entry r = EntryType_Remove then None else Some r)"

text \<open>
  What a lookup should see, and what the engine's two-stage lookup sees: a tombstone in
  memory counts as "not found", so the search goes on to the segments.
\<close>

definition view :: "store \<Rightarrow> store list \<Rightarrow> store" where
  "view am segs k = live (latest am segs k)"

definition reads :: "store \<Rightarrow> store list \<Rightarrow> store" where
  "reads am segs k = (case live (am k) of Some r \<Rightarrow> Some r | None \<Rightarrow> live (on_disk segs k))"

lemma latest_simps: "latest am segs k = (case am k of Some r \<Rightarrow> Some r | None \<Rightarrow> on_disk segs k)"
  by (simp add: latest_def)

lemma latest_snapshot [simp]: "latest Map.empty (am # segs) = latest am segs"
  by (simp add: latest_def fun_eq_iff)

lemma latest_update: "latest (am(k \<mapsto> r)) segs = (latest am segs)(k \<mapsto> r)"
  by (auto simp: latest_simps fun_eq_iff)

lemma view_update:
  "view (am(k \<mapsto> r)) segs = (view am segs)(k := live (Some r))"
  by (auto simp: view_def latest_update fun_eq_iff)

lemma view_snapshot [simp]: "view Map.empty (am # segs) = view am segs"
  by (simp add: view_def fun_eq_iff)

text \<open>The two lookups agree except for a removed key whose old row is still in a segment.\<close>

definition shadowed :: "store \<Rightarrow> store list \<Rightarrow> key \<Rightarrow> bool" where
  "shadowed am segs k \<longleftrightarrow> (\<exists>r. am k = Some r \<and> row_entry r = EntryType_Remove) \<and>
     live (on_disk segs k) \<noteq> None"

lemma reads_view: "reads am segs k = (if shadowed am segs k then live (on_disk segs k) else view am segs k)"
  by (auto simp: reads_def view_def latest_simps shadowed_def split: option.splits)

section \<open>The invariant\<close>

definition rows_map :: "sstable_row list \<Rightarrow> store" where
  "rows_map rows = map_of (map (\<lambda>r. (row_key r, r)) rows)"

definition seg_ok :: "fsys \<Rightarrow> path \<Rightarrow> sstable_index \<Rightarrow> store \<Rightarrow> bool" where
  "seg_ok fs dir t seg \<longleftrightarrow>
     (\<exists>rows. file_content fs (dir @ [segment_name (unat (si_fileId t))]) = Some (rows_bytes rows) \<and>
        distinct (map row_key rows) \<and> (\<forall>r \<in> set rows. wf_row r) \<and> seg = rows_map rows \<and>
        (\<forall>k. si_lookup t k = None \<longleftrightarrow> seg k = None) \<and>
        (\<forall>r \<in> set rows. \<exists>h. si_lookup t (row_key r) = Some h \<and> points_to h (rows_bytes rows) r))"

definition paths_ok :: "engine \<Rightarrow> fsys \<Rightarrow> bool" where
  "paths_ok e fs \<longleftrightarrow>
     e_chunkDir e = e_dir e @ [''segment''] \<and> e_indexDir e = e_dir e @ [''index''] \<and>
     e_walFileName e = e_dir e @ [''wal.bin''] \<and> e_bloomFileName e = e_dir e @ [''bloom_filter.bin''] \<and>
     is_directory fs (e_dir e) \<and> is_directory fs (e_chunkDir e) \<and> is_directory fs (e_indexDir e) \<and>
     \<not> is_directory fs (e_walFileName e) \<and> \<not> is_directory fs (e_bloomFileName e) \<and>
     (\<forall>n. \<not> is_directory fs (e_chunkDir e @ [segment_name n])) \<and>
     (\<forall>n. \<not> is_directory fs (e_indexDir e @ [index_name n]))"

definition mem_ok :: "engine \<Rightarrow> memtable \<Rightarrow> bool" where
  "mem_ok e m \<longleftrightarrow> mt_inv m \<and> (\<forall>(ik, r) \<in> set (mt_map m). wf_row r) \<and>
     (\<exists>w. mt_wal m = Some w \<and> w_path w = e_walFileName e)"

definition disk_ok :: "externals \<Rightarrow> filter_params \<Rightarrow> engine \<Rightarrow> fsys \<Rightarrow> store list \<Rightarrow> bool" where
  "disk_ok x P e fs segs \<longleftrightarrow>
     (\<exists>ix. e_index e = Some ix \<and> ix_inv ix \<and>
        list_all2 (seg_ok fs (e_chunkDir e)) (ix_tables ix) segs) \<and>
     bf_inv (p_filterSize P) (e_bloom e) \<and>
     (\<forall>seg \<in> set segs. \<forall>k \<in> dom seg. probablyContains x (p_numHashes P) k (e_bloom e))"

text \<open>The next segment's id is above those of the segments there are.\<close>

definition ids_ok :: "engine \<Rightarrow> bool" where
  "ids_ok e \<longleftrightarrow> (\<forall>ix. e_index e = Some ix \<longrightarrow> (\<forall>f \<in> set (ix_ids ix). unat f < unat (e_segmentId e)))"

text \<open>What lookups need, and what writes need in addition.\<close>

definition read_inv ::
    "externals \<Rightarrow> filter_params \<Rightarrow> engine \<Rightarrow> fsys \<Rightarrow> memtable \<Rightarrow> store list \<Rightarrow> bool" where
  "read_inv x P e fs m segs \<longleftrightarrow>
     e_memTable e = Some m \<and> e_compressor e \<noteq> None \<and> e_hasher e \<noteq> None \<and>
     paths_ok e fs \<and> mem_ok e m \<and> disk_ok x P e fs segs"

definition se_inv ::
    "externals \<Rightarrow> filter_params \<Rightarrow> engine \<Rightarrow> fsys \<Rightarrow> memtable \<Rightarrow> store list \<Rightarrow> bool" where
  "se_inv x P e fs m segs \<longleftrightarrow> read_inv x P e fs m segs \<and> ids_ok e"

section \<open>Reading a segment\<close>

lemma on_disk_None_iff: "on_disk segs k = None \<longleftrightarrow> (\<forall>s \<in> set segs. s k = None)"
  by (induction segs) (auto split: option.splits)

lemma rows_map_Some: "rows_map rows k = Some r \<Longrightarrow> r \<in> set rows \<and> row_key r = k"
  by (auto simp: rows_map_def dest: map_of_SomeD)

lemma rows_map_None: "rows_map rows k = None \<longleftrightarrow> k \<notin> row_key ` set rows"
  by (auto simp: rows_map_def map_of_eq_None_iff image_image)

lemma first_hit_on_disk:
  assumes "list_all2 (seg_ok fs dir) ts segs"
  shows "(first_hit k ts = None \<and> on_disk segs k = None) \<or>
    (\<exists>t h r bs. first_hit k ts = Some (t, h) \<and> on_disk segs k = Some r \<and>
       file_content fs (dir @ [segment_name (unat (si_fileId t))]) = Some bs \<and>
       points_to h bs r \<and> wf_row r)"
  using assms
proof (induction rule: list_all2_induct)
  case Nil
  show ?case by simp
next
  case (Cons t ts seg segs)
  from Cons.hyps(1) obtain rows where rows:
    "file_content fs (dir @ [segment_name (unat (si_fileId t))]) = Some (rows_bytes rows)"
    "\<forall>r \<in> set rows. wf_row r" "seg = rows_map rows" "si_lookup t k = None \<longleftrightarrow> seg k = None"
    "\<forall>r \<in> set rows. \<exists>h. si_lookup t (row_key r) = Some h \<and> points_to h (rows_bytes rows) r"
    unfolding seg_ok_def by blast
  show ?case
  proof (cases "seg k")
    case None
    with rows(4) Cons.IH show ?thesis by simp
  next
    case (Some r)
    with rows(3) have "r \<in> set rows" "row_key r = k" by (auto dest: rows_map_Some)
    with rows(2,5) obtain h where "si_lookup t k = Some h" "points_to h (rows_bytes rows) r" "wf_row r"
      by blast
    with Some rows(1) show ?thesis by simp
  qed
qed

lemma read_pointed:
  assumes "points_to h bs r"
  shows "\<exists>s. read_into (unat (fh_size h)) (replicate (unat (fh_size h)) 0)
      (seekg (unat (fh_offset h)) (fresh_stream bs)) = Inr (row_serialize r, s)"
proof -
  let ?n = "unat (fh_size h)"
  let ?rest = "drop (unat (fh_offset h)) bs"
  have n: "?n = length (row_serialize r)" and t: "take ?n ?rest = row_serialize r"
    using assms by (auto simp: points_to_def slice_def)
  have s: "seekg (unat (fh_offset h)) (fresh_stream bs) = (fresh_stream bs)\<lparr>rest := ?rest\<rparr>"
    by (simp add: seekg_def fresh_stream_def)
  have good: "is_good (fresh_stream bs)" by simp
  have rest: "?rest = row_serialize r @ drop ?n ?rest"
    using t by (metis append_take_drop_id)
  have "read_into ?n (replicate ?n 0) ((fresh_stream bs)\<lparr>rest := row_serialize r @ drop ?n ?rest\<rparr>) =
      Inr (row_serialize r, (fresh_stream bs)\<lparr>rest := drop ?n ?rest\<rparr>)"
    using good n by (intro read_into_step) simp_all
  then show ?thesis
    unfolding s using rest by simp
qed

definition found :: "sstable_row option \<Rightarrow> (bytes \<times> u128) option" where
  "found r = map_option (\<lambda>r. (row_value r, row_checksum r)) r"

lemma row_deserialize_string_serialize:
  "wf_row r \<Longrightarrow> row_deserialize_string junk (row_serialize r) = Inr r"
  using row_deserialize_serialize [of r "fresh_stream (row_serialize r)" "[]" junk]
  by (simp add: row_deserialize_string_def)

lemma findOnDisk_on_disk:
  assumes "disk_ok x P e fs segs"
  shows "findOnDisk x P k e fs = Inr (found (live (on_disk segs k)))"
proof (cases "probablyContains x (p_numHashes P) k (e_bloom e)")
  case False
  then have "on_disk segs k = None"
    using assms by (auto simp: disk_ok_def on_disk_None_iff)
  with False show ?thesis by (simp add: findOnDisk_def found_def)
next
  case True
  from assms obtain ix where ix: "e_index e = Some ix"
    and segs: "list_all2 (seg_ok fs (e_chunkDir e)) (ix_tables ix) segs"
    by (auto simp: disk_ok_def)
  note bloom = True
  from first_hit_on_disk [OF segs, of k] show ?thesis
  proof
    assume "first_hit k (ix_tables ix) = None \<and> on_disk segs k = None"
    with bloom ix show ?thesis
      by (simp add: findOnDisk_def deref_def ix_get_def get_loop_first_hit found_def)
  next
    assume "\<exists>t h r bs. first_hit k (ix_tables ix) = Some (t, h) \<and> on_disk segs k = Some r \<and>
       file_content fs (e_chunkDir e @ [segment_name (unat (si_fileId t))]) = Some bs \<and>
       points_to h bs r \<and> wf_row r"
    then obtain t h r bs where hit: "first_hit k (ix_tables ix) = Some (t, h)" "on_disk segs k = Some r"
      and content: "file_content fs (e_chunkDir e @ [segment_name (unat (si_fileId t))]) = Some bs"
      and r: "points_to h bs r" "wf_row r" by blast
    obtain s where "read_into (unat (fh_size h)) (replicate (unat (fh_size h)) 0)
        (seekg (unat (fh_offset h)) (fresh_stream bs)) = Inr (row_serialize r, s)"
      using read_pointed [OF r(1)] by blast
    then show ?thesis
      using bloom ix hit content r(2)
      by (simp add: findOnDisk_def deref_def ix_get_def get_loop_first_hit SearchHint_def
          open_ifstream_def row_deserialize_string_serialize found_def)
  qed
qed

text \<open>What \<open>get\<close> does with a row it has found.\<close>

definition decode :: "externals \<Rightarrow> engine \<Rightarrow> sstable_row \<Rightarrow> bytes option result" where
  "decode x e r =
     rbind (deref (e_hasher e)) (\<lambda>h.
       if \<not> u128_eq (hasher_hash x h (row_value r)) (row_checksum r)
       then Inl (Runtime_error ''data corrupted: invalid checksum'')
       else rbind (deref (e_compressor e)) (\<lambda>c. rmap Some (uncompress x c (row_value r))))"

lemma se_get_from:
  assumes "e_memTable e = Some m" "mt_inv m" "findOnDisk x P k e fs = Inr (found (live (on_disk segs k)))"
  shows "se_get x P k e fs =
    (case reads (mt_lookup m) segs k of None \<Rightarrow> Inr None | Some r \<Rightarrow> decode x e r)"
proof -
  have "mt_get k m = found (live (mt_lookup m k))"
    using assms(2) by (auto simp: mt_get_lookup found_def split: option.splits)
  then have "findInMemory k e = Inr (found (live (mt_lookup m k)))"
    using assms(1) by (simp add: findInMemory_def deref_def)
  with assms(3) show ?thesis
    by (auto simp: se_get_def reads_def found_def decode_def split: option.splits)
qed

lemma se_get_reads:
  assumes "read_inv x P e fs m segs"
  shows "se_get x P k e fs =
    (case reads (mt_lookup m) segs k of None \<Rightarrow> Inr None | Some r \<Rightarrow> decode x e r)"
  using assms by (intro se_get_from) (simp_all add: read_inv_def mem_ok_def findOnDisk_on_disk)

section \<open>Writing to the memtable\<close>

lemma mem_ok_put_entry:
  assumes "mem_ok e m" "mt_fits m 1" "length v \<le> max_string_size"
    "en = EntryType_Put \<or> en = EntryType_Remove"
  shows "mem_ok e (mt_put_entry k v c en m)"
proof -
  have "mt_inv (mt_put_entry k v c en m)"
    using assms mt_put_entry_inv [of m 0] by (simp add: mem_ok_def)
  moreover have "wf_row (make_row k v en c)"
    using assms(3,4) by auto
  ultimately show ?thesis
    using assms(1) set_map_insert_subset [of "InsertKey (mt_counter m) k" "make_row k v en c" "mt_map m"]
    by (fastforce simp: mem_ok_def mt_put_entry_add mt_add_def)
qed

lemma engine_frame [simp]:
  "paths_ok (e\<lparr>e_memTable := mo\<rparr>) fs = paths_ok e fs"
  "paths_ok (e\<lparr>e_index := ixo\<rparr>) fs = paths_ok e fs"
  "paths_ok (e\<lparr>e_segmentId := i\<rparr>) fs = paths_ok e fs"
  "paths_ok (e\<lparr>e_bloom := b\<rparr>) fs = paths_ok e fs"
  "mem_ok (e\<lparr>e_memTable := mo\<rparr>) = mem_ok e"
  "mem_ok (e\<lparr>e_index := ixo\<rparr>) = mem_ok e"
  "mem_ok (e\<lparr>e_segmentId := i\<rparr>) = mem_ok e"
  "mem_ok (e\<lparr>e_bloom := b\<rparr>) = mem_ok e"
  "disk_ok x P (e\<lparr>e_memTable := mo\<rparr>) fs segs = disk_ok x P e fs segs"
  "ids_ok (e\<lparr>e_memTable := mo\<rparr>) = ids_ok e"
  by (simp_all add: paths_ok_def mem_ok_def disk_ok_def ids_ok_def fun_eq_iff)

lemma se_inv_memtable:
  "se_inv x P e fs m segs \<Longrightarrow> mem_ok e m' \<Longrightarrow> se_inv x P (e\<lparr>e_memTable := Some m'\<rparr>) fs m' segs"
  by (simp add: se_inv_def read_inv_def)

lemma se_invD:
  assumes "se_inv x P e fs m segs"
  shows "e_memTable e = Some m" "mem_ok e m" "paths_ok e fs" "disk_ok x P e fs segs" "ids_ok e"
    "read_inv x P e fs m segs"
  using assms by (simp_all add: se_inv_def read_inv_def)

section \<open>Snapshots\<close>

text \<open>The memtable and the engine after a snapshot, and the files it has written.\<close>

definition cleared :: "memtable \<Rightarrow> memtable" where
  "cleared m = m\<lparr>mt_counter := 0, mt_memorySize := 0, mt_map := [],
     mt_wal := map_option (\<lambda>w. w\<lparr>w_flushed := length (w_written w), w_bufferSize := 0\<rparr>) (mt_wal m)\<rparr>"

definition snapshot_bloom :: "externals \<Rightarrow> filter_params \<Rightarrow> engine \<Rightarrow> memtable \<Rightarrow> bloom" where
  "snapshot_bloom x P e m = foldl (\<lambda>b k. bf_add x (p_numHashes P) k b) (e_bloom e)
     (map row_key (getRowList (createSortedStringsTable m)))"

definition snapshot_index :: "engine \<Rightarrow> memtable \<Rightarrow> sstable_index" where
  "snapshot_index e m = sstable_index_of (ucast (e_segmentId e)) (createSortedStringsTable m)"

definition index_file :: "externals \<Rightarrow> sstable_index \<Rightarrow> bytes" where
  "index_file x t = word_bytes (4 :: u8) @ word_bytes (si_fileId t) @
     concat (map entry_serialize (ext_map_order x (si_map t)))"

definition snapshot_fs :: "externals \<Rightarrow> filter_params \<Rightarrow> engine \<Rightarrow> memtable \<Rightarrow> fsys \<Rightarrow> fsys" where
  "snapshot_fs x P e m fs =
     write_file
       (write_file
         (wal_release (mt_wal m)
           (write_file fs (e_chunkDir e @ [segment_name (unat (e_segmentId e))]) (mt_dump m)))
         (e_bloomFileName e) (take (p_filterSize P) (bf_bits (snapshot_bloom x P e m))))
       (e_indexDir e @ [index_name (unat (e_segmentId e))]) (index_file x (snapshot_index e m))"

definition snapshot_engine ::
    "externals \<Rightarrow> filter_params \<Rightarrow> engine \<Rightarrow> memtable \<Rightarrow> index \<Rightarrow> engine" where
  "snapshot_engine x P e m ix' = e\<lparr>e_segmentId := e_segmentId e + 1, e_memTable := Some (cleared m),
     e_bloom := snapshot_bloom x P e m, e_index := Some ix'\<rparr>"

lemma mt_clear_cleared:
  assumes "mt_wal m \<noteq> None"
  shows "mt_clear m fs = Inr (cleared m, wal_release (mt_wal m) fs)"
  using assms by (auto simp: mt_clear_def Let_def flushAndClear_def cleared_def wal_release_def wal_close_def)

lemma mt_lookup_empty: "mt_map m = [] \<Longrightarrow> mt_lookup m = Map.empty"
  by (simp add: mt_lookup_def fun_eq_iff)

lemma cleared_simps [simp]:
  "mt_map (cleared m) = []" "mt_counter (cleared m) = 0" "mt_memorySize (cleared m) = 0"
  "mem_ok e m \<Longrightarrow> mem_ok e (cleared m)"
  by (auto simp: cleared_def mem_ok_def mt_inv_def)

lemma paths_can_write:
  assumes "paths_ok e fs"
  shows "can_write fs (e_walFileName e)" "can_write fs (e_bloomFileName e)"
    "can_write fs (e_chunkDir e @ [segment_name n])" "can_write fs (e_indexDir e @ [index_name n])"
proof -
  have dirs: "is_directory fs (e_dir e)" "is_directory fs (e_chunkDir e)" "is_directory fs (e_indexDir e)"
    and names: "e_walFileName e = e_dir e @ [''wal.bin'']" "e_bloomFileName e = e_dir e @ [''bloom_filter.bin'']"
    and files: "\<not> is_directory fs (e_walFileName e)" "\<not> is_directory fs (e_bloomFileName e)"
      "\<not> is_directory fs (e_chunkDir e @ [segment_name n])" "\<not> is_directory fs (e_indexDir e @ [index_name n])"
    using assms unfolding paths_ok_def by blast+
  have bl: "butlast (e_walFileName e) = e_dir e" "butlast (e_bloomFileName e) = e_dir e"
    "e_walFileName e \<noteq> []" "e_bloomFileName e \<noteq> []"
    by (simp_all add: names)
  show "can_write fs (e_walFileName e)" "can_write fs (e_bloomFileName e)"
    "can_write fs (e_chunkDir e @ [segment_name n])" "can_write fs (e_indexDir e @ [index_name n])"
    using dirs files bl by (simp_all add: can_write_def)
qed

lemma paths_distinct:
  assumes "paths_ok e fs"
  shows "e_walFileName e \<noteq> e_chunkDir e @ [a]" "e_bloomFileName e \<noteq> e_chunkDir e @ [a]"
    "e_indexDir e \<noteq> e_chunkDir e"
proof -
  have "e_chunkDir e = e_dir e @ [''segment'']" "e_indexDir e = e_dir e @ [''index'']"
    "e_walFileName e = e_dir e @ [''wal.bin'']" "e_bloomFileName e = e_dir e @ [''bloom_filter.bin'']"
    using assms unfolding paths_ok_def by blast+
  then show "e_walFileName e \<noteq> e_chunkDir e @ [a]" "e_bloomFileName e \<noteq> e_chunkDir e @ [a]"
    "e_indexDir e \<noteq> e_chunkDir e" by simp_all
qed

lemma paths_ok_dirs:
  assumes "paths_ok e fs" "\<And>d. is_directory fs' d = is_directory fs d"
  shows "paths_ok e fs'"
proof -
  have eq: "is_directory fs' = is_directory fs" using assms(2) by (rule ext)
  show ?thesis using assms(1) unfolding paths_ok_def eq .
qed

lemma segment_name_inject [simp]: "segment_name m = segment_name n \<longleftrightarrow> m = n"
  by (simp add: segment_name_def)

lemma new_segment_ok:
  assumes "mem_ok e m" "no_npos m" "length (mt_dump m) < 2 ^ 32"
    "file_content fs (dir @ [segment_name (unat f)]) = Some (mt_dump m)"
  shows "seg_ok fs dir (sstable_index_of f (createSortedStringsTable m)) (mt_lookup m)"
proof -
  let ?rows = "newest_rows npos (mt_map m)"
  have inv: "mt_inv m" using assms(1) by (simp add: mem_ok_def)
  have dump: "mt_dump m = rows_bytes ?rows" by (simp add: mt_dump_def dump_loop_rows)
  have distinct: "distinct (map row_key ?rows)" using inv assms(2) by (rule newest_rows_distinct)
  have wf: "\<forall>r \<in> set ?rows. wf_row r"
    using assms(1) newest_rows_sub by (fastforce simp: mem_ok_def)
  have lookup: "mt_lookup m = rows_map ?rows"
    using newest_rows_npos_lookup [OF inv assms(2)] by (simp add: rows_map_def)
  have len: "length (rows_bytes ?rows) < 2 ^ 32" using assms(3) dump by simp
  have "\<exists>h. si_lookup (sstable_index_of f \<lparr>m_rows = ?rows\<rparr>) (row_key r) = Some h \<and>
      points_to h (rows_bytes ?rows) r" if r: "r \<in> set ?rows" for r
    using sstable_index_of_lookup [OF distinct len r] .
  moreover have "si_lookup (sstable_index_of f \<lparr>m_rows = ?rows\<rparr>) k = None \<longleftrightarrow> rows_map ?rows k = None" for k
    using calculation sstable_index_of_lookup_other [of k ?rows f] rows_map_None [of ?rows k]
    by (cases "k \<in> row_key ` set ?rows") fastforce+
  ultimately show ?thesis
    using assms(4) dump distinct wf lookup
    by (auto simp: seg_ok_def createSortedStringsTable_rows)
qed

lemma seg_ok_frame:
  "seg_ok fs dir t seg \<Longrightarrow>
   file_content fs' (dir @ [segment_name (unat (si_fileId t))]) =
     file_content fs (dir @ [segment_name (unat (si_fileId t))]) \<Longrightarrow>
   seg_ok fs' dir t seg"
  by (simp add: seg_ok_def)

lemma snapshot_keys:
  assumes "mem_ok e m" "no_npos m"
  shows "set (map row_key (getRowList (createSortedStringsTable m))) = dom (mt_lookup m)"
proof -
  have "mt_lookup m = map_of (map (\<lambda>r. (row_key r, r)) (newest_rows npos (mt_map m)))"
    using assms newest_rows_npos_lookup [of m] by (simp add: mem_ok_def)
  then show ?thesis
    by (simp add: getRowList_def createSortedStringsTable_rows dom_map_of_conv_image_fst image_image)
qed

lemma makeSnapshot_run:
  assumes "e_memTable e = Some m" "mt_wal m \<noteq> None" "paths_ok e fs" "e_index e = Some ix"
    "ix_update (snapshot_index e m) ix = Inr ix'"
  shows "makeSnapshot x P e fs = (Inr (), snapshot_engine x P e m ix', snapshot_fs x P e m fs)"
proof -
  have "can_write (wal_release (mt_wal m) fs') p = can_write fs' p" for fs' p
    by (simp add: wal_release_def wal_close_def split: option.splits)
  with assms paths_can_write [OF assms(3)] show ?thesis
    by (simp add: makeSnapshot_def Let_def mt_clear_cleared bf_dump_def si_dump_def deref_def
        snapshot_fs_def snapshot_engine_def snapshot_bloom_def snapshot_index_def index_file_def)
qed

lemma is_directory_snapshot [simp]: "is_directory (snapshot_fs x P e m fs) d = is_directory fs d"
  by (simp add: snapshot_fs_def wal_release_def wal_close_def split: option.splits)

text \<open>The content of every path after a snapshot.\<close>

lemma map_of_snapshot_fs:
  assumes "paths_ok e fs" "mt_wal m = Some w" "w_path w = e_walFileName e"
  shows "map_of (snapshot_fs x P e m fs) p =
    (if p = e_indexDir e @ [index_name (unat (e_segmentId e))] then Some (File (index_file x (snapshot_index e m)))
     else if p = e_bloomFileName e then Some (File (take (p_filterSize P) (bf_bits (snapshot_bloom x P e m))))
     else if p = e_walFileName e \<and> w_open w then Some (File (w_written w))
     else if p = e_chunkDir e @ [segment_name (unat (e_segmentId e))] then Some (File (mt_dump m))
     else map_of fs p)"
  using paths_can_write [OF assms(1)] assms(2,3)
  by (simp add: snapshot_fs_def map_of_write_file wal_release_def wal_close_def)

lemma segments_snapshot:
  assumes "paths_ok e fs" "mem_ok e m"
  shows "file_content (snapshot_fs x P e m fs) (e_chunkDir e @ [segment_name n]) =
    (if n = unat (e_segmentId e) then Some (mt_dump m) else file_content fs (e_chunkDir e @ [segment_name n]))"
proof -
  obtain w where w: "mt_wal m = Some w" "w_path w = e_walFileName e"
    using assms(2) by (auto simp: mem_ok_def)
  show ?thesis
    using paths_distinct [OF assms(1)] paths_distinct [OF assms(1), symmetric]
    by (simp add: file_content_def map_of_snapshot_fs [OF assms(1) w])
qed

lemma snapshot_bloom_ok:
  assumes "disk_ok x P e fs segs" "mem_ok e m" "no_npos m"
  shows "bf_inv (p_filterSize P) (snapshot_bloom x P e m) \<and>
    (\<forall>seg \<in> set (mt_lookup m # segs). \<forall>k \<in> dom seg. probablyContains x (p_numHashes P) k (snapshot_bloom x P e m))"
  using bloom.add_all [of "p_filterSize P" "e_bloom e" x "p_numHashes P"
      "map row_key (getRowList (createSortedStringsTable m))"]
    snapshot_keys [OF assms(2,3)] assms(1)
  unfolding snapshot_bloom_def disk_ok_def by auto

lemma snapshot_tables_ok:
  assumes "list_all2 (seg_ok fs (e_chunkDir e)) ts segs" "\<forall>t \<in> set ts. unat (si_fileId t) < unat (e_segmentId e)"
    "paths_ok e fs" "mem_ok e m"
  shows "list_all2 (seg_ok (snapshot_fs x P e m fs) (e_chunkDir e)) ts segs"
  using assms(1,2)
proof (induction rule: list_all2_induct)
  case (Cons t ts seg segs)
  have "file_content (snapshot_fs x P e m fs) (e_chunkDir e @ [segment_name (unat (si_fileId t))]) =
      file_content fs (e_chunkDir e @ [segment_name (unat (si_fileId t))])"
    using Cons.prems by (simp add: segments_snapshot [OF assms(3,4)])
  then show ?case using Cons by (simp add: seg_ok_frame)
qed simp

lemma makeSnapshot_effect:
  assumes inv: "se_inv x P e fs m segs"
    and "no_npos m" "length (mt_dump m) < 2 ^ 32" "unat (e_segmentId e) < 2 ^ 32"
  shows "\<exists>ix ix'. e_index e = Some ix \<and> ix_tables ix' = snapshot_index e m # ix_tables ix \<and>
    unat (si_fileId (snapshot_index e m)) = unat (e_segmentId e) \<and>
    makeSnapshot x P e fs = (Inr (), snapshot_engine x P e m ix', snapshot_fs x P e m fs) \<and>
    se_inv x P (snapshot_engine x P e m ix') (snapshot_fs x P e m fs) (cleared m) (mt_lookup m # segs)"
proof -
  let ?e' = "\<lambda>ix'. snapshot_engine x P e m ix'" and ?fs' = "snapshot_fs x P e m fs"
  note mem = se_invD(1,2) [OF inv] and paths = se_invD(3) [OF inv] and disk = se_invD(4) [OF inv]
  have id: "unat (si_fileId (snapshot_index e m)) = unat (e_segmentId e)"
    using assms(4) by (simp add: snapshot_index_def unat_ucast_u64_u32)
  from disk se_invD(5) [OF inv] obtain ix where ix: "e_index e = Some ix" "ix_inv ix"
    "list_all2 (seg_ok fs (e_chunkDir e)) (ix_tables ix) segs"
    "\<forall>f \<in> set (ix_ids ix). unat f < unat (e_segmentId e)" by (auto simp: disk_ok_def ids_ok_def)
  have "si_fileId (snapshot_index e m) \<notin> set (ix_ids ix)" using ix(4) id by fastforce
  from ix_update_fresh [OF ix(2) this, of False] obtain ix' where ix':
    "ix_update (snapshot_index e m) ix = Inr ix'" "ix_inv ix'" "ix_tables ix' = snapshot_index e m # ix_tables ix"
    by (auto simp: ix_update_def)
  have wal: "mt_wal m \<noteq> None" using mem(2) by (auto simp: mem_ok_def)
  have "seg_ok ?fs' (e_chunkDir e) (snapshot_index e m) (mt_lookup m)"
    using new_segment_ok [OF mem(2) assms(2,3), of ?fs' "e_chunkDir e" "ucast (e_segmentId e)"] id
      segments_snapshot [OF paths mem(2), of x P "unat (e_segmentId e)"]
    by (simp add: snapshot_index_def)
  then have tables: "list_all2 (seg_ok ?fs' (e_chunkDir e)) (ix_tables ix') (mt_lookup m # segs)"
    using snapshot_tables_ok [OF ix(3) _ paths mem(2)] ix(4) ix'(3) by (simp add: ix_ids_def)
  have "unat (e_segmentId e + 1) = Suc (unat (e_segmentId e))"
    using assms(4) by (simp add: unat_word_ariths)
  then have ids: "ids_ok (?e' ix')"
    using ix(4) ix'(3) id by (auto simp: ids_ok_def snapshot_engine_def ix_ids_def intro: less_SucI)
  have "disk_ok x P (?e' ix') ?fs' (mt_lookup m # segs)"
    using tables ix'(2) snapshot_bloom_ok [OF disk mem(2) assms(2)]
    by (simp add: disk_ok_def snapshot_engine_def)
  moreover have "paths_ok (?e' ix') ?fs'"
    using paths_ok_dirs [OF paths, of ?fs'] by (simp add: snapshot_engine_def)
  ultimately have "se_inv x P (?e' ix') ?fs' (cleared m) (mt_lookup m # segs)"
    using inv ids mem(2) by (simp add: se_inv_def read_inv_def snapshot_engine_def)
  then show ?thesis
    using makeSnapshot_run [OF mem(1) wal paths ix(1) ix'(1)] ix(1) ix'(3) id by blast
qed

lemma makeSnapshot_ok:
  assumes inv: "se_inv x P e fs m segs"
    and "no_npos m" "length (mt_dump m) < 2 ^ 32" "unat (e_segmentId e) < 2 ^ 32"
  shows "\<exists>e' fs' m'. makeSnapshot x P e fs = (Inr (), e', fs') \<and>
    se_inv x P e' fs' m' (mt_lookup m # segs) \<and> mt_map m' = [] \<and> mt_counter m' = 0 \<and>
    unat (e_segmentId e') = Suc (unat (e_segmentId e)) \<and>
    e_compressor e' = e_compressor e \<and> e_hasher e' = e_hasher e"
proof -
  have "unat (e_segmentId e + 1) = Suc (unat (e_segmentId e))"
    using assms(4) by (simp add: unat_word_ariths)
  then show ?thesis
    using makeSnapshot_effect [OF assms] by (fastforce simp: snapshot_engine_def)
qed

end
