(* ===== verification/EngineDurable.thy ===== *)
theory EngineDurable
  imports EngineRefinement
begin

text \<open>
  What the files of a database hold while an engine runs: the options, the log with every row
  written since the engine was opened, one index file for each segment, and the Bloom filter.
  The writes and snapshots of the engine keep them so; \<open>EngineReopen\<close> reads them back.
\<close>

section \<open>The files of a database\<close>

definition options_ok :: "engine \<Rightarrow> fsys \<Rightarrow> bool" where
  "options_ok e fs \<longleftrightarrow> e_optionsFileName e = e_dir e @ [''options.bin''] \<and>
     file_content fs (e_optionsFileName e) = Some (options_bytes (e_opts e)) \<and> wf_options (e_opts e) \<and>
     e_compressor e = Some (createCompressor (opt_compressionType (e_opts e))) \<and>
     e_hasher e = createHasher (opt_hashType (e_opts e))"

definition log_ok :: "engine \<Rightarrow> memtable \<Rightarrow> sstable_row list \<Rightarrow> bool" where
  "log_ok e m rows \<longleftrightarrow> (\<forall>r \<in> set rows. wf_row r) \<and>
     (\<exists>w. mt_wal m = Some w \<and> w_open w \<and> w_path w = e_walFileName e \<and> w_written w = rows_bytes rows)"

definition index_dir_ok :: "externals \<Rightarrow> engine \<Rightarrow> fsys \<Rightarrow> sstable_index list \<Rightarrow> bool" where
  "index_dir_ok x e fs ts \<longleftrightarrow>
     (\<forall>t \<in> set ts. map_of fs (e_indexDir e @ [index_name (unat (si_fileId t))]) = Some (File (index_file x t)) \<and>
        si_inv t \<and> si_map t \<noteq> []) \<and>
     (\<forall>n. map_of fs (e_indexDir e @ [n]) \<noteq> None \<longrightarrow> (\<exists>t \<in> set ts. n = index_name (unat (si_fileId t))))"

definition bloom_file_ok :: "filter_params \<Rightarrow> engine \<Rightarrow> fsys \<Rightarrow> bool" where
  "bloom_file_ok P e fs \<longleftrightarrow>
     (if map_of fs (e_bloomFileName e) = None then e_bloom e = new_bloom (p_filterSize P)
      else map_of fs (e_bloomFileName e) = Some (File (bf_bits (e_bloom e))))"

definition keyed :: "sstable_row list \<Rightarrow> (key \<times> sstable_row) list" where
  "keyed rows = map (\<lambda>r. (row_key r, r)) rows"

definition durable ::
    "externals \<Rightarrow> filter_params \<Rightarrow> engine \<Rightarrow> fsys \<Rightarrow> memtable \<Rightarrow> store list \<Rightarrow> sstable_row list \<Rightarrow> bool" where
  "durable x P e fs m segs rows \<longleftrightarrow>
     options_ok e fs \<and> log_ok e m rows \<and> bloom_file_ok P e fs \<and>
     (\<exists>ix. e_index e = Some ix \<and> index_dir_ok x e fs (ix_tables ix)) \<and>
     latest (mt_lookup m) segs = map_of (rev (keyed rows))"

section \<open>Writes\<close>

lemma durable_frame [simp]:
  "options_ok (e\<lparr>e_memTable := mo\<rparr>) fs = options_ok e fs"
  "log_ok (e\<lparr>e_memTable := mo\<rparr>) = log_ok e"
  "index_dir_ok x (e\<lparr>e_memTable := mo\<rparr>) fs ts = index_dir_ok x e fs ts"
  "bloom_file_ok P (e\<lparr>e_memTable := mo\<rparr>) fs = bloom_file_ok P e fs"
  by (simp_all add: options_ok_def log_ok_def index_dir_ok_def bloom_file_ok_def fun_eq_iff)

lemma durable_put_entry:
  assumes d: "durable x P e fs m segs rows" and "mt_inv m" "wf_row (make_row k v en c)"
  shows "durable x P (e\<lparr>e_memTable := Some (mt_put_entry k v c en m)\<rparr>) fs (mt_put_entry k v c en m) segs
    (rows @ [make_row k v en c])"
proof -
  let ?e = "e\<lparr>e_memTable := Some (mt_put_entry k v c en m)\<rparr>" and ?m = "mt_put_entry k v c en m"
  have "options_ok ?e fs \<and> bloom_file_ok P ?e fs \<and> (\<exists>ix. e_index ?e = Some ix \<and> index_dir_ok x ?e fs (ix_tables ix))"
    using d by (simp add: durable_def)
  moreover have "log_ok ?e ?m (rows @ [make_row k v en c])"
    using d assms(3) by (auto simp: durable_def log_ok_def mt_put_entry_add wal_log_def Let_def)
  moreover have "latest (mt_lookup ?m) segs = map_of (rev (keyed (rows @ [make_row k v en c])))"
    using d by (simp add: mt_put_entry_lookup [OF assms(2)] latest_update durable_def keyed_def)
  ultimately show ?thesis by (simp add: durable_def)
qed

section \<open>Snapshots\<close>

lemma index_name_inject [simp]: "index_name m = index_name n \<longleftrightarrow> m = n"
  by (simp add: index_name_def)

lemma snapshot_index_ok:
  assumes "mem_ok e m" "no_npos m" "mt_map m \<noteq> []"
  shows "si_inv (snapshot_index e m) \<and> si_map (snapshot_index e m) \<noteq> []"
proof -
  have inv: "si_inv (index_rows off rows t)" if "si_inv t" for off rows t
    using that by (induction off rows t rule: index_rows.induct) (auto simp: si_inv_insert)
  obtain ik r es where "mt_map m = (ik, r) # es" using assms(3) by (metis neq_Nil_conv surj_pair)
  then have "mt_lookup m (ik_key ik) \<noteq> None" by (simp add: mt_lookup_def)
  then have "m_rows (createSortedStringsTable m) \<noteq> []"
    using snapshot_keys [OF assms(1,2)] by (auto simp: getRowList_def)
  then obtain r' rs where "m_rows (createSortedStringsTable m) = r' # rs" by (metis neq_Nil_conv)
  moreover have "si_map (index_rows off rows t) \<noteq> []" if "si_map t \<noteq> []" for off rows t
    using that by (induction off rows t rule: index_rows.induct) (auto simp: si_insert_def update_nonempty)
  ultimately show ?thesis
    using inv by (simp add: snapshot_index_def sstable_index_of_def getRowList_def si_inv_def
        new_sstable_index_def si_insert_def)
qed

lemma paths_names:
  assumes "paths_ok e fs"
  shows "e_chunkDir e = e_dir e @ [''segment'']" "e_indexDir e = e_dir e @ [''index'']"
    "e_walFileName e = e_dir e @ [''wal.bin'']" "e_bloomFileName e = e_dir e @ [''bloom_filter.bin'']"
  using assms unfolding paths_ok_def by blast+

lemma durable_snapshot:
  assumes inv: "se_inv x P e fs m segs" and d: "durable x P e fs m segs rows"
    and m: "no_npos m" "mt_map m \<noteq> []"
    and ix: "e_index e = Some ix" "ix_tables ix' = snapshot_index e m # ix_tables ix"
      "unat (si_fileId (snapshot_index e m)) = unat (e_segmentId e)"
  shows "durable x P (snapshot_engine x P e m ix') (snapshot_fs x P e m fs) (cleared m) (mt_lookup m # segs) rows"
proof -
  let ?e = "snapshot_engine x P e m ix'" and ?fs = "snapshot_fs x P e m fs"
  note paths = se_invD(3) [OF inv] and names = paths_names [OF se_invD(3) [OF inv]]
  obtain w where w: "mt_wal m = Some w" "w_open w" "w_path w = e_walFileName e" "w_written w = rows_bytes rows"
    and rows: "\<forall>r \<in> set rows. wf_row r"
    using d by (auto simp: durable_def log_ok_def)
  note look = map_of_snapshot_fs [OF paths w(1,3), of x P]
  have "options_ok e fs" using d by (simp add: durable_def)
  then have opts: "e_optionsFileName e = e_dir e @ [''options.bin'']"
    "file_content fs (e_dir e @ [''options.bin'']) = Some (options_bytes (e_opts e))"
    unfolding options_ok_def by metis+
  then have "options_ok ?e ?fs"
    using \<open>options_ok e fs\<close>
    by (simp add: options_ok_def snapshot_engine_def file_content_def look names)
  moreover have "log_ok ?e (cleared m) rows"
    using w rows by (simp add: log_ok_def cleared_def snapshot_engine_def)
  moreover have "bloom_file_ok P ?e ?fs"
    using snapshot_bloom_ok [OF se_invD(4,2) [OF inv] m(1)]
    by (simp add: bloom_file_ok_def snapshot_engine_def look names bf_inv_def)
  moreover have "index_dir_ok x ?e ?fs (ix_tables ix')"
  proof -
    have old: "\<forall>t \<in> set (ix_tables ix). unat (si_fileId t) < unat (e_segmentId e)"
      using se_invD(5) [OF inv] ix(1) by (simp add: ids_ok_def ix_ids_def)
    show ?thesis
      using d ix old snapshot_index_ok [OF se_invD(2) [OF inv] m]
      by (auto simp: durable_def index_dir_ok_def snapshot_engine_def look names split: if_splits)
  qed
  moreover have "latest (mt_lookup (cleared m)) (mt_lookup m # segs) = map_of (rev (keyed rows))"
    using d by (simp add: durable_def mt_lookup_empty)
  ultimately show ?thesis by (simp add: durable_def snapshot_engine_def)
qed

end
