(* ===== verification/EngineRun.thy ===== *)
theory EngineRun
  imports EngineDurable
begin

text \<open>
  Sequences of writes on the storage engine, from the opening of an empty directory: what
  each put and each remove does to the abstract store of \<open>EngineRefinement\<close>, and what a
  lookup returns after any sequence of them.
\<close>

section \<open>Room\<close>

text \<open>
  Positions in a segment are 32-bit numbers, and so are file ids; the insertion counter has
  64 bits. \<open>room n b e m\<close>: \<open>n\<close> more writes of \<open>b\<close> more bytes altogether fit.
\<close>

definition mt_bytes :: "memtable \<Rightarrow> nat" where
  "mt_bytes m = sum_list (map (\<lambda>e. length (row_serialize (snd e))) (mt_map m))"

definition room :: "nat \<Rightarrow> nat \<Rightarrow> engine \<Rightarrow> memtable \<Rightarrow> bool" where
  "room n b e m \<longleftrightarrow> mt_fits m n \<and> mt_bytes m + b < 2 ^ 32 \<and> unat (e_segmentId e) + n < 2 ^ 32"

lemma length_dump_loop:
  "length (dump_loop prev es) \<le> sum_list (map (\<lambda>e. length (row_serialize (snd e))) es)"
  by (induction prev es rule: dump_loop.induct) (auto simp: Let_def)

lemma length_mt_dump: "length (mt_dump m) \<le> mt_bytes m"
  unfolding mt_dump_def mt_bytes_def by (rule length_dump_loop)

lemma sum_map_insert:
  fixes f :: "'k::linorder \<times> 'v \<Rightarrow> nat"
  shows "sum_list (map f (map_insert k v es)) \<le> sum_list (map f es) + f (k, v)"
  by (induction k v es rule: map_insert.induct) auto

lemma mt_put_entry_bytes: "mt_bytes (mt_put_entry k v c en m) \<le> mt_bytes m + (35 + length v)"
  using sum_map_insert [of "\<lambda>e. length (row_serialize (snd e))"
      "InsertKey (mt_counter m) k" "make_row k v en c" "mt_map m"]
  by (simp add: mt_bytes_def mt_put_entry_add mt_add_def)

lemma mt_bytes_empty: "mt_map m = [] \<Longrightarrow> mt_bytes m = 0"
  by (simp add: mt_bytes_def)

lemma room_put_entry:
  assumes "room (Suc n) (35 + length v + b) e m"
  shows "room n b e (mt_put_entry k v c en m)"
  using assms mt_put_entry_bytes [of k v c en m] mt_put_entry_fits [of m n k v c en]
  by (simp add: room_def)

lemma room_snapshot:
  assumes "room (Suc n) b' e m" "b \<le> b'" "mt_map m' = []" "mt_counter m' = 0"
    "unat (e_segmentId e') = Suc (unat (e_segmentId e))"
  shows "room n b e' m'"
  using assms by (auto simp: room_def mt_fits_def mt_bytes_empty)

section \<open>Puts and removes\<close>

lemma no_npos_put_entry:
  "mem_ok e m \<Longrightarrow> no_npos m \<Longrightarrow> k \<noteq> Key npos \<Longrightarrow> no_npos (mt_put_entry k v c en m)"
  by (simp add: no_npos_def mem_ok_def mt_put_entry_lookup)

lemma no_npos_empty: "mt_map m = [] \<Longrightarrow> no_npos m"
  by (simp add: no_npos_def mt_lookup_def)

text \<open>The abstract effect of a write of row \<open>r\<close>: with and without a snapshot after it.\<close>

definition written :: "key \<Rightarrow> sstable_row \<Rightarrow> store list \<Rightarrow> store list \<Rightarrow> bool" where
  "written k r before after \<longleftrightarrow>
     after = (hd before)(k \<mapsto> r) # tl before \<or> after = Map.empty # (hd before)(k \<mapsto> r) # tl before"

lemma view_written:
  "written k r (am # segs) (am' # segs') \<Longrightarrow> view am' segs' = (view am segs)(k := live (Some r))"
  by (auto simp: written_def view_update)

text \<open>The segments an index knows, and their files, are not touched by what follows.\<close>

definition segments_kept :: "engine \<Rightarrow> fsys \<Rightarrow> engine \<Rightarrow> fsys \<Rightarrow> bool" where
  "segments_kept e fs e' fs' \<longleftrightarrow> e_chunkDir e' = e_chunkDir e \<and>
     (\<forall>ix. e_index e = Some ix \<longrightarrow> (\<exists>ix'. e_index e' = Some ix' \<and> set (ix_ids ix) \<subseteq> set (ix_ids ix')) \<and>
        (\<forall>f \<in> set (ix_ids ix). file_content fs' (e_chunkDir e @ [segment_name (unat f)]) =
           file_content fs (e_chunkDir e @ [segment_name (unat f)])))"

lemma segments_kept_memTable [simp]: "segments_kept e fs (e\<lparr>e_memTable := mo\<rparr>) fs"
  by (simp add: segments_kept_def)

lemma segments_kept_snapshot:
  assumes inv: "se_inv x P e fs m segs" and "e_index e = Some ix" "ix_tables ix' = snapshot_index e m # ix_tables ix"
  shows "segments_kept e fs (snapshot_engine x P e m ix') (snapshot_fs x P e m fs)"
proof -
  have "\<forall>f \<in> set (ix_ids ix). unat f \<noteq> unat (e_segmentId e)"
    using se_invD(5) [OF inv] assms(2) by (auto simp: ids_ok_def)
  then show ?thesis
    using segments_snapshot [OF se_invD(3,2) [OF inv], of x P] assms(2,3)
    by (auto simp: segments_kept_def snapshot_engine_def ix_ids_def)
qed

text \<open>The engine with the row of a put in its memtable, before a snapshot.\<close>

lemma put_memory:
  assumes inv: "se_inv x P e fs m segs" and "no_npos m" "k \<noteq> Key npos"
    and room: "room (Suc n) (35 + length cv + b) e m"
    and c: "e_compressor e = Some c" "compress x c v = Inr cv" and h: "e_hasher e = Some h"
    and defs: "m1 = mt_put k cv (hasher_hash x h cv) m" "e1 = e\<lparr>e_memTable := Some m1\<rparr>"
  shows "se_put x P k v e fs =
      (if getApproximateSize m1 \<ge> e_memTableLimit e then makeSnapshot x P e1 fs else (Inr (), e1, fs))"
    and "se_inv x P e1 fs m1 segs" and "no_npos m1" and "mt_map m1 \<noteq> []" and "room n b e1 m1"
    and "mt_lookup m1 = (mt_lookup m)(k \<mapsto> make_put_row k cv (hasher_hash x h cv))"
    and "durable x P e fs m segs rows \<Longrightarrow>
      durable x P e1 fs m1 segs (rows @ [make_put_row k cv (hasher_hash x h cv)])"
proof -
  let ?row = "make_put_row k cv (hasher_hash x h cv)"
  note mem = se_invD(1,2) [OF inv]
  have row: "?row = make_row k cv EntryType_Put (hasher_hash x h cv)"
    by (simp add: make_put_row_def make_row_def)
  have m1: "m1 = mt_put_entry k cv (hasher_hash x h cv) EntryType_Put m" by (simp add: defs(1) mt_put_def)
  show "se_put x P k v e fs =
      (if getApproximateSize m1 \<ge> e_memTableLimit e then makeSnapshot x P e1 fs else (Inr (), e1, fs))"
    using c h mem(1) by (simp add: se_put_def deref_def defs Let_def)
  have len: "mt_fits m 1" "length cv \<le> max_string_size"
    using room by (auto simp: room_def max_string_size intro: mt_fits_mono)
  then have "mem_ok e m1" using mem(2) by (simp add: m1 mem_ok_put_entry)
  then show "se_inv x P e1 fs m1 segs" using inv by (simp add: defs(2) se_inv_memtable)
  show "no_npos m1" using mem assms(2,3) by (simp add: m1 no_npos_put_entry)
  show "mt_map m1 \<noteq> []" by (simp add: m1 mt_put_entry_add mt_add_def)
  show "room n b e1 m1" using room_put_entry [OF room] by (simp add: m1 defs(2) room_def)
  show "mt_lookup m1 = (mt_lookup m)(k \<mapsto> ?row)"
    using mem(2) by (simp add: m1 mem_ok_def mt_put_entry_lookup row)
  show "durable x P e1 fs m1 segs (rows @ [?row])" if "durable x P e fs m segs rows"
    using durable_put_entry [OF that] mem(2) len by (simp add: m1 defs(2) row mem_ok_def)
qed

lemma put_step:
  assumes inv: "se_inv x P e fs m segs" and "no_npos m" "k \<noteq> Key npos"
    and room: "room (Suc n) (35 + length cv + b) e m"
    and c: "e_compressor e = Some c" "compress x c v = Inr cv" and h: "e_hasher e = Some h"
  shows "\<exists>e' fs' m' segs'. se_put x P k v e fs = (Inr (), e', fs') \<and> se_inv x P e' fs' m' segs' \<and>
    no_npos m' \<and> room n b e' m' \<and> e_compressor e' = Some c \<and> e_hasher e' = Some h \<and>
    written k (make_put_row k cv (hasher_hash x h cv)) (mt_lookup m # segs) (mt_lookup m' # segs') \<and>
    segments_kept e fs e' fs' \<and>
    (\<forall>rows. durable x P e fs m segs rows \<longrightarrow>
       durable x P e' fs' m' segs' (rows @ [make_put_row k cv (hasher_hash x h cv)]))"
proof -
  let ?row = "make_put_row k cv (hasher_hash x h cv)"
  define m1 where "m1 = mt_put k cv (hasher_hash x h cv) m"
  define e1 where "e1 = e\<lparr>e_memTable := Some m1\<rparr>"
  note put = put_memory [OF inv assms(2,3) room c h m1_def e1_def]
  note inv1 = put(2) and npos1 = put(3) and some1 = put(4) and room1 = put(5) and lookup1 = put(6) and dur1 = put(7)
  show ?thesis
  proof (cases "getApproximateSize m1 \<ge> e_memTableLimit e")
    case False
    then show ?thesis
      using put inv1 npos1 room1 lookup1 c h dur1
      by (intro exI [of _ e1] exI [of _ fs] exI [of _ m1] exI [of _ segs]) (simp add: written_def e1_def)
  next
    case True
    have bounds: "length (mt_dump m1) < 2 ^ 32" "unat (e_segmentId e1) < 2 ^ 32"
      using room1 length_mt_dump [of m1] by (auto simp: room_def)
    from makeSnapshot_effect [OF inv1 npos1 bounds] obtain ix ix' where snap:
      "e_index e1 = Some ix" "ix_tables ix' = snapshot_index e1 m1 # ix_tables ix"
      "unat (si_fileId (snapshot_index e1 m1)) = unat (e_segmentId e1)"
      "makeSnapshot x P e1 fs = (Inr (), snapshot_engine x P e1 m1 ix', snapshot_fs x P e1 m1 fs)"
      "se_inv x P (snapshot_engine x P e1 m1 ix') (snapshot_fs x P e1 m1 fs) (cleared m1) (mt_lookup m1 # segs)"
      by blast
    let ?e' = "snapshot_engine x P e1 m1 ix'" and ?fs' = "snapshot_fs x P e1 m1 fs"
    have "unat (e_segmentId e + 1) = Suc (unat (e_segmentId e))"
      using bounds(2) by (simp add: unat_word_ariths e1_def)
    then have "room n b ?e' (cleared m1)"
      by (intro room_snapshot [OF room]) (simp_all add: snapshot_engine_def e1_def)
    moreover have "durable x P ?e' ?fs' (cleared m1) (mt_lookup m1 # segs) rows'"
      if "durable x P e1 fs m1 segs rows'" for rows'
      by (rule durable_snapshot [OF inv1 that npos1 some1 snap(1-3)])
    moreover have "segments_kept e fs ?e' ?fs'"
      using segments_kept_snapshot [OF inv1 snap(1,2)] by (simp add: segments_kept_def e1_def)
    moreover have "no_npos (cleared m1)" by (simp add: no_npos_empty)
    moreover have "e_compressor ?e' = Some c" "e_hasher ?e' = Some h"
      using c h by (simp_all add: snapshot_engine_def e1_def)
    moreover have "written k ?row (mt_lookup m # segs) (mt_lookup (cleared m1) # mt_lookup m1 # segs)"
      by (simp add: written_def lookup1 mt_lookup_empty)
    ultimately show ?thesis
      using put True snap(4,5) dur1
      by (intro exI [of _ ?e'] exI [of _ ?fs'] exI [of _ "cleared m1"] exI [of _ "mt_lookup m1 # segs"]) simp
  qed
qed

lemma remove_step:
  assumes inv: "se_inv x P e fs m segs" and "no_npos m" "k \<noteq> Key npos"
    and room: "room (Suc n) (35 + b) e m"
  shows "\<exists>e' m'. se_remove k e fs = (Inr (), e', fs) \<and> segments_kept e fs e' fs \<and> se_inv x P e' fs m' segs \<and>
    no_npos m' \<and> room n b e' m' \<and> e_compressor e' = e_compressor e \<and> e_hasher e' = e_hasher e \<and>
    mt_lookup m' = (mt_lookup m)(k \<mapsto> make_remove_row k) \<and>
    (\<forall>rows. durable x P e fs m segs rows \<longrightarrow> durable x P e' fs m' segs (rows @ [make_remove_row k]))"
proof -
  have row: "make_remove_row k = make_row k [] EntryType_Remove (0, 0)"
    by (simp add: make_remove_row_def make_row_def)
  have mem: "e_memTable e = Some m" "mem_ok e m" using inv by (simp_all add: se_invD)
  have "mt_fits m 1" using room by (auto simp: room_def intro: mt_fits_mono)
  then have "mem_ok e (mt_remove k m)"
    using mem(2) by (simp add: mt_remove_def mem_ok_put_entry)
  moreover have "no_npos (mt_remove k m)"
    using mem assms(2,3) by (simp add: mt_remove_def no_npos_put_entry)
  moreover have "room n b (e\<lparr>e_memTable := Some (mt_remove k m)\<rparr>) (mt_remove k m)"
    using room_put_entry [of n "[]" b e m] room by (simp add: mt_remove_def room_def)
  moreover have "mt_lookup (mt_remove k m) = (mt_lookup m)(k \<mapsto> make_remove_row k)"
    using mem(2) by (simp add: mem_ok_def mt_remove_def mt_put_entry_lookup row)
  moreover have "durable x P (e\<lparr>e_memTable := Some (mt_remove k m)\<rparr>) fs (mt_remove k m) segs (rows @ [make_remove_row k])"
    if "durable x P e fs m segs rows" for rows
    using durable_put_entry [OF that] mem(2) by (simp add: mt_remove_def row mem_ok_def)
  ultimately show ?thesis
    using se_inv_memtable [OF inv] mem(1)
    by (intro exI [of _ "e\<lparr>e_memTable := Some (mt_remove k m)\<rparr>"] exI [of _ "mt_remove k m"])
      (simp add: se_remove_def deref_def)
qed

section \<open>Sequences of writes\<close>

datatype db_op = Op_put key bytes | Op_remove key

fun op_key :: "db_op \<Rightarrow> key" where
  "op_key (Op_put k v) = k"
| "op_key (Op_remove k) = k"

fun se_step ::
    "externals \<Rightarrow> filter_params \<Rightarrow> db_op \<Rightarrow> engine \<Rightarrow> fsys \<Rightarrow> unit result \<times> engine \<times> fsys" where
  "se_step x P (Op_put k v) e fs = Database_put x P k v e fs"
| "se_step x P (Op_remove k) e fs = Database_remove k e fs"

text \<open>A caller that stops at the first exception.\<close>

fun se_run ::
    "externals \<Rightarrow> filter_params \<Rightarrow> db_op list \<Rightarrow> engine \<Rightarrow> fsys \<Rightarrow> unit result \<times> engine \<times> fsys" where
  "se_run x P [] e fs = (Inr (), e, fs)"
| "se_run x P (op # ops) e fs =
     (case se_step x P op e fs of
        (Inl err, e', fs') \<Rightarrow> (Inl err, e', fs')
      | (Inr _, e', fs') \<Rightarrow> se_run x P ops e' fs')"

text \<open>
  The specification: the last write of a key decides, \<open>Some None\<close> for a remove. Next to it,
  the values a key has been given so far.
\<close>

definition apply_op :: "db_op \<Rightarrow> (key \<rightharpoonup> bytes option) \<Rightarrow> (key \<rightharpoonup> bytes option)" where
  "apply_op op spec = (case op of Op_put k v \<Rightarrow> spec(k \<mapsto> Some v) | Op_remove k \<Rightarrow> spec(k \<mapsto> None))"

definition last_writes :: "db_op list \<Rightarrow> key \<rightharpoonup> bytes option" where
  "last_writes ops = fold apply_op ops Map.empty"

definition put_values :: "db_op list \<Rightarrow> key \<Rightarrow> bytes set" where
  "put_values ops k = {v. Op_put k v \<in> set ops}"

text \<open>How many bytes a write adds at most, and the writes the engine is meant for.\<close>

definition op_bytes :: "externals \<Rightarrow> compressor \<Rightarrow> db_op \<Rightarrow> nat" where
  "op_bytes x c op = (case op of
       Op_put k v \<Rightarrow> 35 + (case compress x c v of Inr cv \<Rightarrow> length cv | Inl _ \<Rightarrow> 0)
     | Op_remove k \<Rightarrow> 35)"

definition op_ok :: "externals \<Rightarrow> compressor \<Rightarrow> db_op \<Rightarrow> bool" where
  "op_ok x c op \<longleftrightarrow> op_key op \<noteq> Key npos \<and>
     (case op of Op_put k v \<Rightarrow> codec_domain x c v | Op_remove k \<Rightarrow> True)"

text \<open>A row that stands for a value, and the relation between rows and the writes so far.\<close>

definition holds :: "externals \<Rightarrow> compressor \<Rightarrow> hasher \<Rightarrow> sstable_row \<Rightarrow> bytes \<Rightarrow> bool" where
  "holds x c h r v \<longleftrightarrow> row_entry r = EntryType_Put \<and>
     row_checksum r = hasher_hash x h (row_value r) \<and> uncompress x c (row_value r) = Inr v"

definition explains ::
    "externals \<Rightarrow> compressor \<Rightarrow> hasher \<Rightarrow> sstable_row option \<Rightarrow> bytes option option \<Rightarrow> bool" where
  "explains x c h ro w = (case w of
       None \<Rightarrow> ro = None
     | Some None \<Rightarrow> (\<exists>r. ro = Some r \<and> row_entry r = EntryType_Remove)
     | Some (Some v) \<Rightarrow> (\<exists>r. ro = Some r \<and> holds x c h r v))"

definition tracks ::
    "externals \<Rightarrow> compressor \<Rightarrow> hasher \<Rightarrow> db_op list \<Rightarrow> store list \<Rightarrow> bool" where
  "tracks x c h ops stores \<longleftrightarrow>
     (\<forall>k. explains x c h (on_disk stores k) (last_writes ops k)) \<and>
     (\<forall>s \<in> set stores. \<forall>k r. s k = Some r \<longrightarrow>
        row_entry r = EntryType_Remove \<or> (\<exists>v \<in> put_values ops k. holds x c h r v))"

lemma last_writes_snoc: "last_writes (ops @ [op]) = apply_op op (last_writes ops)"
  by (simp add: last_writes_def)

lemma put_values_snoc: "put_values ops k \<subseteq> put_values (ops @ [op]) k"
  by (auto simp: put_values_def)

lemma on_disk_written:
  assumes "written k r (am # segs) stores"
  shows "on_disk stores = (on_disk (am # segs))(k \<mapsto> r)"
  using assms by (auto simp: written_def fun_eq_iff)

lemma tracks_written:
  assumes t: "tracks x c h ops (am # segs)" and w: "written k r (am # segs) stores"
    and op: "(op = Op_put k v \<and> holds x c h r v) \<or> (op = Op_remove k \<and> row_entry r = EntryType_Remove)"
  shows "tracks x c h (ops @ [op]) stores"
  unfolding tracks_def
proof (intro conjI ballI allI impI)
  fix k'
  show "explains x c h (on_disk stores k') (last_writes (ops @ [op]) k')"
    using t op by (auto simp: on_disk_written [OF w] last_writes_snoc apply_op_def tracks_def explains_def
        simp del: on_disk.simps)
next
  fix s k' r'
  assume s: "s \<in> set stores" "s k' = Some r'"
  then have "(k' = k \<and> r' = r) \<or> (\<exists>s0 \<in> set (am # segs). s0 k' = Some r')"
    using w by (auto simp: written_def split: if_splits)
  then show "row_entry r' = EntryType_Remove \<or> (\<exists>v \<in> put_values (ops @ [op]) k'. holds x c h r' v)"
  proof
    assume "k' = k \<and> r' = r"
    then show ?thesis using op by (auto simp: put_values_def)
  next
    assume "\<exists>s0 \<in> set (am # segs). s0 k' = Some r'"
    then show ?thesis using t put_values_snoc [of ops k' op] unfolding tracks_def by blast
  qed
qed

definition run_inv ::
    "externals \<Rightarrow> filter_params \<Rightarrow> compressor \<Rightarrow> hasher \<Rightarrow> db_op list \<Rightarrow> engine \<Rightarrow> fsys \<Rightarrow>
     memtable \<Rightarrow> store list \<Rightarrow> bool" where
  "run_inv x P c h ops e fs m segs \<longleftrightarrow>
     se_inv x P e fs m segs \<and> no_npos m \<and> e_compressor e = Some c \<and> e_hasher e = Some h \<and>
     tracks x c h ops (mt_lookup m # segs)"

lemma step_run_inv:
  assumes inv: "run_inv x P c h ops e fs m segs" and ok: "op_ok x c op"
    and room: "room (Suc n) (op_bytes x c op + b) e m"
  shows "\<exists>e' fs' m' segs'. se_step x P op e fs = (Inr (), e', fs') \<and>
    run_inv x P c h (ops @ [op]) e' fs' m' segs' \<and> room n b e' m' \<and> segments_kept e fs e' fs' \<and>
    (\<exists>r. written (op_key op) r (mt_lookup m # segs) (mt_lookup m' # segs')) \<and>
    (\<forall>rows. durable x P e fs m segs rows \<longrightarrow> (\<exists>r. durable x P e' fs' m' segs' (rows @ [r])))"
proof (cases op)
  case op: (Op_put k v)
  from ok op comp.round_trip [of x c v] obtain cv where cv:
    "compress x c v = Inr cv" "uncompress x c cv = Inr v" by (auto simp: op_ok_def)
  let ?r = "make_put_row k cv (hasher_hash x h cv)"
  have "k \<noteq> Key npos" "room (Suc n) (35 + length cv + b) e m"
    using ok room op cv(1) by (auto simp: op_ok_def op_bytes_def)
  from put_step [OF _ _ this _ cv(1), where P = P and fs = fs and segs = segs and h = h] inv
  obtain e' fs' m' segs' where step: "se_put x P k v e fs = (Inr (), e', fs')"
    "se_inv x P e' fs' m' segs'" "no_npos m'" "room n b e' m'" "e_compressor e' = Some c"
    "e_hasher e' = Some h" "written k ?r (mt_lookup m # segs) (mt_lookup m' # segs')"
    "segments_kept e fs e' fs'"
    and dur: "\<forall>rows. durable x P e fs m segs rows \<longrightarrow> durable x P e' fs' m' segs' (rows @ [?r])"
    unfolding run_inv_def by blast
  have "holds x c h ?r v" using cv(2) by (simp add: holds_def make_put_row_def)
  then have "tracks x c h (ops @ [op]) (mt_lookup m' # segs')"
    using inv op tracks_written [OF _ step(7), of x c h ops op v] by (simp add: run_inv_def)
  then have "run_inv x P c h (ops @ [op]) e' fs' m' segs'"
    using step by (simp add: run_inv_def)
  moreover have "se_step x P op e fs = (Inr (), e', fs')"
    using step(1) op by (simp add: Database_put_def)
  moreover have "written (op_key op) ?r (mt_lookup m # segs) (mt_lookup m' # segs')" using step(7) op by simp
  ultimately show ?thesis using step(4,8) dur by blast
next
  case op: (Op_remove k)
  have "k \<noteq> Key npos" "room (Suc n) (35 + b) e m"
    using ok room op by (auto simp: op_ok_def op_bytes_def)
  from remove_step [OF _ _ this, where x = x and P = P and fs = fs and segs = segs] inv
  obtain e' m' where step: "se_remove k e fs = (Inr (), e', fs)" "segments_kept e fs e' fs"
    "se_inv x P e' fs m' segs" "no_npos m'" "room n b e' m'" "e_compressor e' = e_compressor e"
    "e_hasher e' = e_hasher e" "mt_lookup m' = (mt_lookup m)(k \<mapsto> make_remove_row k)"
    and dur: "\<forall>rows. durable x P e fs m segs rows \<longrightarrow> durable x P e' fs m' segs (rows @ [make_remove_row k])"
    unfolding run_inv_def by blast
  have w: "written k (make_remove_row k) (mt_lookup m # segs) (mt_lookup m' # segs)"
    using step(8) by (simp add: written_def)
  have "tracks x c h (ops @ [op]) (mt_lookup m' # segs)"
    using inv op tracks_written [OF _ w, of x c h ops op] by (simp add: run_inv_def make_remove_row_def)
  then have "run_inv x P c h (ops @ [op]) e' fs m' segs"
    using step inv by (simp add: run_inv_def)
  moreover have "se_step x P op e fs = (Inr (), e', fs)"
    using step(1) op by (simp add: Database_remove_def)
  moreover have "written (op_key op) (make_remove_row k) (mt_lookup m # segs) (mt_lookup m' # segs)" using w op by simp
  ultimately show ?thesis using step(2,5) dur by blast
qed

text \<open>The same after a sequence of writes.\<close>

lemma put_in_memory:
  assumes inv: "run_inv x P c h ops e fs m segs" and ok: "op_ok x c (Op_put k v)"
    and room: "room (Suc n) (35 + length cv + b) e m"
    and cv: "compress x c v = Inr cv" "uncompress x c cv = Inr v"
    and defs: "m1 = mt_put k cv (hasher_hash x h cv) m" "e1 = e\<lparr>e_memTable := Some m1\<rparr>"
  shows "se_put x P k v e fs =
      (if getApproximateSize m1 \<ge> e_memTableLimit e then makeSnapshot x P e1 fs else (Inr (), e1, fs))"
    and "run_inv x P c h (ops @ [Op_put k v]) e1 fs m1 segs" and "room n b e1 m1"
    and "durable x P e fs m segs rows \<Longrightarrow>
      durable x P e1 fs m1 segs (rows @ [make_put_row k cv (hasher_hash x h cv)])"
proof -
  let ?r = "make_put_row k cv (hasher_hash x h cv)"
  have se: "se_inv x P e fs m segs" and e: "e_compressor e = Some c" "e_hasher e = Some h" "no_npos m"
    and t: "tracks x c h ops (mt_lookup m # segs)" using inv by (simp_all add: run_inv_def)
  have "k \<noteq> Key npos" using ok by (simp add: op_ok_def)
  note put = put_memory [OF se e(3) this room e(1) cv(1) e(2) defs]
  show "se_put x P k v e fs =
      (if getApproximateSize m1 \<ge> e_memTableLimit e then makeSnapshot x P e1 fs else (Inr (), e1, fs))" "room n b e1 m1"
    by (fact put(1,5))+
  show "durable x P e1 fs m1 segs (rows @ [?r])" if "durable x P e fs m segs rows" by (rule put(7) [OF that])
  have "holds x c h ?r v" using cv(2) by (simp add: holds_def make_put_row_def)
  then have "tracks x c h (ops @ [Op_put k v]) (mt_lookup m1 # segs)"
    using tracks_written [OF t, of k ?r "mt_lookup m1 # segs"] put(6) by (simp add: written_def)
  with put(2,3) e show "run_inv x P c h (ops @ [Op_put k v]) e1 fs m1 segs" by (simp add: run_inv_def defs(2))
qed

text \<open>A put that does not reach the limit of the memtable leaves the segments and the files alone.\<close>

lemma put_stays:
  assumes inv: "run_inv x P c h ops e fs m segs" and ok: "op_ok x c (Op_put k v)"
    and room: "room (Suc n) (35 + length cv + b) e m"
    and cv: "compress x c v = Inr cv" "uncompress x c cv = Inr v"
    and small: "mt_memorySize m + getRowSize (make_put_row k cv (hasher_hash x h cv)) < e_memTableLimit e"
  shows "\<exists>e' m'. se_put x P k v e fs = (Inr (), e', fs) \<and> room n b e' m' \<and>
    run_inv x P c h (ops @ [Op_put k v]) e' fs m' segs"
proof -
  let ?m1 = "mt_put k cv (hasher_hash x h cv) m"
  have "getApproximateSize ?m1 < e_memTableLimit e"
    using small by (simp add: getApproximateSize_def mt_put_def mt_put_entry_add make_put_row_def make_row_def)
  with put_in_memory(1-3) [OF inv ok room cv refl refl] show ?thesis by (auto simp flip: linorder_not_le)
qed

text \<open>A sequence that there is room for runs, and leaves the rest of the room.\<close>

lemma run_run_inv_room:
  assumes "run_inv x P c h ops e fs m segs" "\<forall>op \<in> set ops'. op_ok x c op"
    "room (length ops' + n) (sum_list (map (op_bytes x c) ops') + b) e m"
  shows "\<exists>e' fs' m' segs'. se_run x P ops' e fs = (Inr (), e', fs') \<and>
    run_inv x P c h (ops @ ops') e' fs' m' segs' \<and> room n b e' m' \<and>
    (\<forall>rows. durable x P e fs m segs rows \<longrightarrow>
       (\<exists>rs. length rs = length ops' \<and> durable x P e' fs' m' segs' (rows @ rs)))"
  using assms
proof (induction ops' arbitrary: ops e fs m segs)
  case Nil
  then show ?case by auto
next
  case (Cons op ops')
  have ok: "op_ok x c op" and room: "room (Suc (length ops' + n))
      (op_bytes x c op + (sum_list (map (op_bytes x c) ops') + b)) e m"
    using Cons.prems by (simp_all add: add.assoc)
  from step_run_inv [OF Cons.prems(1) ok room] obtain e1 fs1 m1 segs1 where
    step: "se_step x P op e fs = (Inr (), e1, fs1)" "run_inv x P c h (ops @ [op]) e1 fs1 m1 segs1"
      "room (length ops' + n) (sum_list (map (op_bytes x c) ops') + b) e1 m1"
      "\<forall>rows. durable x P e fs m segs rows \<longrightarrow> (\<exists>r. durable x P e1 fs1 m1 segs1 (rows @ [r]))" by blast
  from Cons.IH [OF step(2) _ step(3)] Cons.prems(2) obtain e' fs' m' segs' where
    run: "se_run x P ops' e1 fs1 = (Inr (), e', fs')" "run_inv x P c h (ops @ op # ops') e' fs' m' segs'"
      "room n b e' m'"
      "\<forall>rows. durable x P e1 fs1 m1 segs1 rows \<longrightarrow>
         (\<exists>rs. length rs = length ops' \<and> durable x P e' fs' m' segs' (rows @ rs))" by auto
  have "\<exists>rs. length rs = length (op # ops') \<and> durable x P e' fs' m' segs' (rows @ rs)"
    if d: "durable x P e fs m segs rows" for rows
  proof -
    obtain r where "durable x P e1 fs1 m1 segs1 (rows @ [r])" using step(4) d by blast
    with run(4) obtain rs where "length rs = length ops'" "durable x P e' fs' m' segs' ((rows @ [r]) @ rs)"
      by blast
    then show ?thesis by (intro exI [of _ "r # rs"]) simp
  qed
  with step(1) run show ?case by auto
qed

lemma run_run_inv:
  assumes "run_inv x P c h ops e fs m segs" "\<forall>op \<in> set ops'. op_ok x c op"
    "room (length ops') (sum_list (map (op_bytes x c) ops')) e m"
  shows "\<exists>e' fs' m' segs'. se_run x P ops' e fs = (Inr (), e', fs') \<and>
    run_inv x P c h (ops @ ops') e' fs' m' segs' \<and>
    (\<forall>rows. durable x P e fs m segs rows \<longrightarrow>
       (\<exists>rs. length rs = length ops' \<and> durable x P e' fs' m' segs' (rows @ rs)))"
  using run_run_inv_room [OF assms(1,2), of 0 0] assms(3) by auto

lemma se_run_append:
  "se_run x P (ops @ ops') e fs =
     (case se_run x P ops e fs of
        (Inl err, e', fs') \<Rightarrow> (Inl err, e', fs')
      | (Inr _, e', fs') \<Rightarrow> se_run x P ops' e' fs')"
  by (induction ops arbitrary: e fs) (auto split: prod.splits sum.splits)

lemma se_run_snoc:
  "se_run x P (ops @ [op]) e fs =
     (case se_run x P ops e fs of
        (Inl err, e', fs') \<Rightarrow> (Inl err, e', fs')
      | (Inr _, e', fs') \<Rightarrow> se_step x P op e' fs')"
  by (induction ops arbitrary: e fs) (auto split: prod.splits sum.splits)

section \<open>Lookups after a sequence of writes\<close>

lemma live_SomeD: "live ro = Some r \<Longrightarrow> ro = Some r \<and> row_entry r \<noteq> EntryType_Remove"
  by (cases ro) (auto split: if_splits)

lemma on_disk_SomeD: "on_disk segs k = Some r \<Longrightarrow> \<exists>s \<in> set segs. s k = Some r"
  by (induction segs) (auto split: option.splits)

lemma decode_holds:
  "e_compressor e = Some c \<Longrightarrow> e_hasher e = Some h \<Longrightarrow> holds x c h r v \<Longrightarrow> decode x e r = Inr (Some v)"
  by (simp add: decode_def deref_def holds_def)

text \<open>What a lookup finds needs the invariant of the reads and the two tables only.\<close>

lemma tracks_get_from:
  assumes get: "se_get x P k e fs =
      (case reads am segs k of None \<Rightarrow> Inr None | Some r \<Rightarrow> decode x e r)"
    and ch: "e_compressor e = Some c" "e_hasher e = Some h" and tracks: "tracks x c h ops (am # segs)"
  shows "case last_writes ops k of
      None \<Rightarrow> se_get x P k e fs = Inr None
    | Some None \<Rightarrow> se_get x P k e fs = Inr None \<or> (\<exists>v \<in> put_values ops k. se_get x P k e fs = Inr (Some v))
    | Some (Some v) \<Rightarrow> se_get x P k e fs = Inr (Some v)"
proof -
  have t: "explains x c h (latest am segs k) (last_writes ops k)"
    and old: "\<And>s r. s \<in> set segs \<Longrightarrow> s k = Some r \<Longrightarrow>
       row_entry r = EntryType_Remove \<or> (\<exists>v \<in> put_values ops k. holds x c h r v)"
    using tracks by (auto simp: tracks_def latest_def simp del: on_disk.simps)
  show ?thesis
  proof (cases "last_writes ops k")
    case None
    with t have "reads am segs k = None"
      by (auto simp: explains_def reads_def latest_simps split: option.splits)
    with None get show ?thesis by simp
  next
    case (Some w)
    show ?thesis
    proof (cases w)
      case None
      with Some t have view: "view am segs k = None"
        by (auto simp: explains_def view_def)
      show ?thesis
      proof (cases "reads am segs k")
        case (Some r)
        with view have "on_disk segs k = Some r" "row_entry r \<noteq> EntryType_Remove"
          by (auto simp: reads_view split: if_splits dest: live_SomeD)
        with old obtain v where "v \<in> put_values ops k" "holds x c h r v"
          by (meson on_disk_SomeD)
        with get Some ch \<open>last_writes ops k = Some w\<close> None show ?thesis
          by (auto simp: decode_holds)
      qed (use get Some None in simp)
    next
      case (Some v)
      with \<open>last_writes ops k = Some w\<close> t obtain r where r: "latest am segs k = Some r" "holds x c h r v"
        by (auto simp: explains_def)
      then have "reads am segs k = Some r"
        by (auto simp: reads_def latest_simps holds_def split: option.splits)
      with get r ch Some \<open>last_writes ops k = Some w\<close> show ?thesis by (simp add: decode_holds)
    qed
  qed
qed

lemma tracks_get:
  assumes "read_inv x P e fs m segs" "e_compressor e = Some c" "e_hasher e = Some h"
    "tracks x c h ops (mt_lookup m # segs)"
  shows "case last_writes ops k of
      None \<Rightarrow> se_get x P k e fs = Inr None
    | Some None \<Rightarrow> se_get x P k e fs = Inr None \<or> (\<exists>v \<in> put_values ops k. se_get x P k e fs = Inr (Some v))
    | Some (Some v) \<Rightarrow> se_get x P k e fs = Inr (Some v)"
  using tracks_get_from [OF se_get_reads [OF assms(1)] assms(2-4)] .

lemma run_inv_get:
  assumes "run_inv x P c h ops e fs m segs"
  shows "case last_writes ops k of
      None \<Rightarrow> se_get x P k e fs = Inr None
    | Some None \<Rightarrow> se_get x P k e fs = Inr None \<or> (\<exists>v \<in> put_values ops k. se_get x P k e fs = Inr (Some v))
    | Some (Some v) \<Rightarrow> se_get x P k e fs = Inr (Some v)"
  using assms by (intro tracks_get [of x P e fs m segs c h]) (simp_all add: run_inv_def se_inv_def)

text \<open>As long as there is no segment, a removed key has no value.\<close>

lemma tracks_removed:
  assumes "read_inv x P e fs m []" "tracks x c h ops [mt_lookup m]" "last_writes ops k = Some None"
  shows "se_get x P k e fs = Inr None"
proof -
  have "explains x c h (mt_lookup m k) (Some None)"
    using assms(2,3) by (simp add: tracks_def) (metis on_disk.simps option.case_eq_if option.collapse)
  then have "reads (mt_lookup m) [] k = None" by (auto simp: explains_def reads_def)
  then show ?thesis using se_get_reads [OF assms(1), of k] by simp
qed

lemma no_segments:
  assumes "se_inv x P e fs m segs" "e_segmentId e = 0"
  shows "segs = []"
  using se_invD(4,5) [OF assms(1)] assms(2) by (auto simp: disk_ok_def ids_ok_def ix_ids_def)

lemma run_inv_removed:
  assumes "run_inv x P c h ops e fs m segs" "e_segmentId e = 0" "last_writes ops k = Some None"
  shows "se_get x P k e fs = Inr None"
proof -
  have "segs = []" using assms(1,2) no_segments by (auto simp: run_inv_def)
  then show ?thesis
    using tracks_removed [of x P e fs m c h ops k] assms(1,3) by (simp add: run_inv_def se_inv_def)
qed

text \<open>The directory does not change.\<close>

lemma makeSnapshot_dir: "makeSnapshot x P e fs = (r, e', fs') \<Longrightarrow> e_dir e' = e_dir e"
  by (auto simp: makeSnapshot_def Let_def split: option.splits sum.splits prod.splits)

lemma se_step_dir: "se_step x P op e fs = (r, e', fs') \<Longrightarrow> e_dir e' = e_dir e"
  by (cases op) (auto simp: Database_put_def Database_remove_def se_put_def se_remove_def Let_def
      dest!: makeSnapshot_dir split: sum.splits if_splits)

lemma se_run_dir: "se_run x P ops e fs = (r, e', fs') \<Longrightarrow> e_dir e' = e_dir e"
  by (induction ops arbitrary: e fs) (auto dest: se_step_dir split: sum.splits prod.splits)

text \<open>Nor do the compressor and the hasher.\<close>

lemma makeSnapshot_codec:
  "makeSnapshot x P e fs = (r, e', fs') \<Longrightarrow> e_compressor e' = e_compressor e \<and> e_hasher e' = e_hasher e"
  by (auto simp: makeSnapshot_def Let_def split: option.splits sum.splits prod.splits)

lemma se_step_codec:
  "se_step x P op e fs = (r, e', fs') \<Longrightarrow> e_compressor e' = e_compressor e \<and> e_hasher e' = e_hasher e"
  by (cases op) (auto simp: Database_put_def Database_remove_def se_put_def se_remove_def Let_def
      dest!: makeSnapshot_codec split: sum.splits if_splits)

lemma se_run_codec:
  "se_run x P ops e fs = (r, e', fs') \<Longrightarrow> e_compressor e' = e_compressor e \<and> e_hasher e' = e_hasher e"
  by (induction ops arbitrary: e fs) (auto dest: se_step_codec split: sum.splits prod.splits)

section \<open>Sequences of requests\<close>

fun request_of :: "db_op \<Rightarrow> request" where
  "request_of (Op_put k v) = Request RequestType_Put k v"
| "request_of (Op_remove k) = Request RequestType_Delete k []"

fun handle_run ::
    "externals \<Rightarrow> filter_params \<Rightarrow> request list \<Rightarrow> engine \<Rightarrow> fsys \<Rightarrow> response result list \<times> engine \<times> fsys" where
  "handle_run x P [] e fs = ([], e, fs)"
| "handle_run x P (q # qs) e fs =
     (case Database_handle x P q e fs of
        (r, e', fs') \<Rightarrow> (case handle_run x P qs e' fs' of (rs, e'', fs'') \<Rightarrow> (r # rs, e'', fs'')))"

lemma handle_step_ok:
  "se_step x P op e fs = (Inr (), e', fs') \<Longrightarrow>
   Database_handle x P (request_of op) e fs = (Inr (Response ResponseStatus_Ok []), e', fs')"
  by (cases op) (simp_all add: Database_handle_def Database_put_def Database_remove_def
      se_handle_def Request_def caught_def)

lemma handle_run_ok:
  "se_run x P ops e fs = (Inr (), e', fs') \<Longrightarrow>
   handle_run x P (map request_of ops) e fs =
     (replicate (length ops) (Inr (Response ResponseStatus_Ok [])), e', fs')"
proof (induction ops arbitrary: e fs)
  case (Cons op ops)
  then obtain e1 fs1 where "se_step x P op e fs = (Inr (), e1, fs1)" "se_run x P ops e1 fs1 = (Inr (), e', fs')"
    by (auto split: prod.splits sum.splits)
  with Cons.IH handle_step_ok [of x P op e fs e1 fs1] show ?case by simp
qed simp

lemma handle_run_snoc:
  assumes "handle_run x P qs e fs = (rs, e1, fs1)" "Database_handle x P q e1 fs1 = (r, e2, fs2)"
  shows "handle_run x P (qs @ [q]) e fs = (rs @ [r], e2, fs2)"
  using assms by (induction qs arbitrary: e fs rs) (auto split: prod.splits)

end
