(* ===== verification/EngineOpen.thy ===== *)
theory EngineOpen
  imports EngineRun
begin

text \<open>
  Opening a database: an empty directory gives the empty store, from which the sequences of
  \<open>EngineRun\<close> start.
\<close>

section \<open>Directories\<close>

definition empty_directory :: "fsys \<Rightarrow> path \<Rightarrow> bool" where
  "empty_directory fs d \<longleftrightarrow> is_directory fs d \<and> (\<forall>(q, n) \<in> set fs. take (length d) q = d \<longrightarrow> q = d)"

lemma empty_directory_child:
  assumes "empty_directory fs d" "q \<noteq> []"
  shows "map_of fs (d @ q) = None"
proof (rule ccontr)
  assume "map_of fs (d @ q) \<noteq> None"
  then obtain n where "(d @ q, n) \<in> set fs" by (auto dest: map_of_SomeD)
  with assms show False by (fastforce simp: empty_directory_def)
qed

lemma dir_entries_Nil: "dir_entries fs d = [] \<longleftrightarrow> (\<forall>n. map_of fs (d @ [n]) = None)"
proof -
  have "(\<exists>p n. (p, n) \<in> set (AList.clearjunk fs) \<and> p \<noteq> [] \<and> butlast p = d) \<longleftrightarrow>
      (\<exists>n. map_of (AList.clearjunk fs) (d @ [n]) \<noteq> None)"
    by (metis (no_types, lifting) append_butlast_last_id butlast_snoc distinct_clearjunk
        map_of_eq_Some_iff not_None_eq snoc_eq_iff_butlast)
  then show ?thesis
    by (force simp: dir_entries_def map_of_clearjunk filter_empty_conv)
qed

lemma create_directory_fresh:
  "p \<noteq> [] \<Longrightarrow> is_directory fs (butlast p) \<Longrightarrow> map_of fs p = None \<Longrightarrow>
   create_directory fs p = Inr (AList.update p Dir fs)"
  by (simp add: create_directory_def fs_exists_def)

section \<open>A fresh database\<close>

text \<open>The files that opening makes in an empty directory, and the engine that it ends with.\<close>

definition fresh_fs :: "path \<Rightarrow> options \<Rightarrow> fsys \<Rightarrow> fsys" where
  "fresh_fs dir opts fs = AList.update (dir @ [''index'']) Dir (AList.update (dir @ [''segment'']) Dir
     (write_file (write_file fs (dir @ [''options.bin'']) (options_bytes opts)) (dir @ [''wal.bin'']) []))"

definition fresh_wal :: "path \<Rightarrow> options \<Rightarrow> wal" where
  "fresh_wal dir opts = \<lparr>w_path = dir @ [''wal.bin''], w_open = True,
     w_bufferSize = opt_maxWalBufferSize opts, w_written = [], w_flushed = 0\<rparr>"

definition fresh_engine :: "filter_params \<Rightarrow> path \<Rightarrow> options \<Rightarrow> engine" where
  "fresh_engine P dir opts = (open_objects (open_paths dir opts (new_engine P)))
     \<lparr>e_memTable := Some (new_memtable\<lparr>mt_wal := Some (fresh_wal dir opts)\<rparr>)\<rparr>"

lemmas fresh_engine_defs = fresh_engine_def open_objects_def open_paths_def new_engine_def

lemma empty_directory_top:
  "empty_directory fs dir \<Longrightarrow> can_write fs (dir @ [n])" "empty_directory fs dir \<Longrightarrow> map_of fs dir = Some Dir"
  using empty_directory_child [of fs dir "[n]"]
  by (simp_all add: empty_directory_def can_write_def is_directory_def)

lemma fresh_fs_lookup:
  assumes "empty_directory fs dir"
  shows "map_of (fresh_fs dir opts fs) p = (if p = dir @ [''index''] \<or> p = dir @ [''segment''] then Some Dir
      else if p = dir @ [''wal.bin''] then Some (File [])
      else if p = dir @ [''options.bin''] then Some (File (options_bytes opts)) else map_of fs p)"
  using empty_directory_top(1) [OF assms] by (simp add: fresh_fs_def update_conv' map_of_write_file)

text \<open>Nothing is in the directories, and there is no Bloom filter.\<close>

lemma fresh_fs_absent:
  assumes "empty_directory fs dir"
  shows "map_of (fresh_fs dir opts fs) (dir @ [d, n]) = None"
    "map_of (fresh_fs dir opts fs) (dir @ [''bloom_filter.bin'']) = None"
  using empty_directory_child [OF assms, of "[d, n]"] empty_directory_child [OF assms, of "[''bloom_filter.bin'']"]
  by (simp_all add: fresh_fs_lookup [OF assms])

lemma se_open_fresh:
  assumes empty: "empty_directory fs dir"
  shows "se_open x P dir opts (new_engine P) fs = (Inr (), fresh_engine P dir opts, fresh_fs dir opts fs)"
proof -
  let ?e1 = "open_paths dir opts (new_engine P)" and ?e = "fresh_engine P dir opts" and ?fs = "fresh_fs dir opts fs"
  note none = empty_directory_child [OF empty] and top = empty_directory_top [OF empty]
  define fs2 where "fs2 = write_file fs (dir @ [''options.bin'']) (options_bytes opts)"
  define fs4 where "fs4 = write_file fs2 (dir @ [''wal.bin'']) []"
  define fs5 where "fs5 = AList.update (dir @ [''segment'']) Dir fs4"
  note fss = fs2_def fs4_def fs5_def fresh_fs_def
  have opt: "open_options ?e1 fs = Inr (?e1, fs2)"
    using none [of "[''options.bin'']"]
    by (simp add: open_options_def open_paths_def fs_exists_def saveOptions_def fs2_def)
  have log: "open_log x (open_objects ?e1) fs2 = Inr new_memtable"
    using none [of "[''wal.bin'']"]
    by (simp add: open_log_def open_objects_def open_paths_def deref_def fs_exists_def fs2_def map_of_write_file)
  have wal: "setWriteAheadLog (dir @ [''wal.bin'']) (opt_maxWalBufferSize opts) new_memtable fs2 =
      (new_memtable\<lparr>mt_wal := Some (fresh_wal dir opts)\<rparr>, fs4)"
    using top by (simp add: setWriteAheadLog_def wal_open_def fresh_wal_def fs4_def fs2_def)
  have seg: "ensure_directory fs4 (dir @ [''segment'']) = Inr fs5"
    using none [of "[''segment'']"] top
    by (simp add: ensure_directory_def fs_exists_def fss map_of_write_file create_directory_def is_directory_def)
  have idx: "ensure_directory fs5 (dir @ [''index'']) = Inr ?fs"
    using none [of "[''index'']"] top
    by (simp add: ensure_directory_def fs_exists_def fss map_of_write_file create_directory_def
        is_directory_def update_conv')
  have "fs_is_empty ?fs (dir @ [''index'']) = Inr True"
    using fresh_fs_absent(1) [OF empty, of opts "''index''"]
    by (simp add: fs_is_empty_def fresh_fs_lookup [OF empty] dir_entries_Nil)
  then have "open_index x P ?e ?fs = (Inr (), ?e, ?fs)"
    using fresh_fs_absent(2) [OF empty]
    by (simp add: open_index_def open_bloom_def fresh_engine_defs fs_exists_def)
  then show ?thesis
    unfolding se_open_def using opt log wal seg idx
    by (simp add: Let_def close_memtable_def fresh_engine_defs)
qed

lemma fresh_se_inv:
  assumes empty: "empty_directory fs dir" and h: "createHasher (opt_hashType opts) = Some h"
    and P: "0 < p_filterSize P" "p_filterSize P < 2 ^ 64"
  shows "se_inv x P (fresh_engine P dir opts) (fresh_fs dir opts fs) (new_memtable\<lparr>mt_wal := Some (fresh_wal dir opts)\<rparr>) []"
proof -
  let ?e = "fresh_engine P dir opts" and ?fs = "fresh_fs dir opts fs"
  have "paths_ok ?e ?fs"
    using fresh_fs_absent [OF empty] empty_directory_top(2) [OF empty]
    by (simp add: paths_ok_def fresh_engine_defs is_directory_def fresh_fs_lookup [OF empty])
  moreover have "mem_ok ?e (new_memtable\<lparr>mt_wal := Some (fresh_wal dir opts)\<rparr>)"
    by (simp add: mem_ok_def fresh_engine_defs fresh_wal_def)
  moreover have "disk_ok x P ?e ?fs []"
    using P by (simp add: disk_ok_def fresh_engine_defs bf_inv_new)
  ultimately show ?thesis
    using h by (simp add: se_inv_def read_inv_def ids_ok_def ix_ids_def new_index_def fresh_engine_defs new_memtable_def)
qed

lemma fresh_durable:
  assumes empty: "empty_directory fs dir" and h: "createHasher (opt_hashType opts) = Some h" "wf_options opts"
  shows "durable x P (fresh_engine P dir opts) (fresh_fs dir opts fs) (new_memtable\<lparr>mt_wal := Some (fresh_wal dir opts)\<rparr>) [] []"
proof -
  let ?e = "fresh_engine P dir opts" and ?fs = "fresh_fs dir opts fs" and ?m = "new_memtable\<lparr>mt_wal := Some (fresh_wal dir opts)\<rparr>"
  note look = fresh_fs_lookup [OF empty] and absent = fresh_fs_absent [OF empty]
  have "options_ok ?e ?fs"
    using h by (simp add: options_ok_def fresh_engine_defs file_content_def look)
  moreover have "log_ok ?e ?m []" by (simp add: log_ok_def fresh_wal_def fresh_engine_defs)
  moreover have "bloom_file_ok P ?e ?fs"
    using absent(2) by (simp add: bloom_file_ok_def fresh_engine_defs)
  moreover have "\<exists>ix. e_index ?e = Some ix \<and> index_dir_ok x ?e ?fs (ix_tables ix)"
    using absent(1) by (simp add: index_dir_ok_def fresh_engine_defs new_index_def)
  moreover have "latest (mt_lookup ?m) [] = map_of (rev (keyed []))"
    by (simp add: keyed_def latest_simps fun_eq_iff)
  ultimately show ?thesis by (simp add: durable_def)
qed

lemma se_open_empty:
  assumes empty: "empty_directory fs dir" and h: "createHasher (opt_hashType opts) = Some h"
    and P: "0 < p_filterSize P" "p_filterSize P < 2 ^ 64"
  shows "\<exists>e fs' m. se_open x P dir opts (new_engine P) fs = (Inr (), e, fs') \<and>
    se_inv x P e fs' m [] \<and> mt_map m = [] \<and> mt_counter m = 0 \<and> e_segmentId e = 0 \<and>
    e_compressor e = Some (createCompressor (opt_compressionType opts)) \<and> e_hasher e = Some h \<and>
    e_dir e = dir \<and> mt_memorySize m = 0 \<and> e_memTableLimit e = opt_maxMemTableSize opts \<and>
    (\<exists>w. mt_wal m = Some w \<and> w_open w \<and> w_written w = [] \<and> w_flushed w = 0) \<and>
    (wf_options opts \<longrightarrow> durable x P e fs' m [] [])"
  using se_open_fresh [OF empty, of x P opts] fresh_se_inv [OF empty h P, of x] fresh_durable [OF empty h, of x P] h
  by (intro exI [of _ "fresh_engine P dir opts"] exI [of _ "fresh_fs dir opts fs"]
      exI [of _ "new_memtable\<lparr>mt_wal := Some (fresh_wal dir opts)\<rparr>"])
    (simp add: fresh_engine_defs fresh_wal_def new_memtable_def)

lemma open_run_inv:
  assumes "empty_directory fs dir" "createHasher (opt_hashType opts) = Some h"
    "0 < p_filterSize P" "p_filterSize P < 2 ^ 64" "c = createCompressor (opt_compressionType opts)"
  shows "\<exists>e fs' m. se_open x P dir opts (new_engine P) fs = (Inr (), e, fs') \<and>
    run_inv x P c h [] e fs' m [] \<and> mt_map m = [] \<and> mt_counter m = 0 \<and> e_segmentId e = 0 \<and>
    e_dir e = dir \<and> mt_memorySize m = 0 \<and> e_memTableLimit e = opt_maxMemTableSize opts \<and>
    (\<exists>w. mt_wal m = Some w \<and> w_open w \<and> w_written w = [] \<and> w_flushed w = 0) \<and>
    (wf_options opts \<longrightarrow> durable x P e fs' m [] [])"
proof -
  from se_open_empty [OF assms(1-4), of x] obtain e fs' m where
    e: "se_open x P dir opts (new_engine P) fs = (Inr (), e, fs')" "se_inv x P e fs' m []"
    "mt_map m = []" "mt_counter m = 0" "e_segmentId e = 0"
    "e_compressor e = Some (createCompressor (opt_compressionType opts))" "e_hasher e = Some h"
    "e_dir e = dir" "mt_memorySize m = 0" "e_memTableLimit e = opt_maxMemTableSize opts"
    "\<exists>w. mt_wal m = Some w \<and> w_open w \<and> w_written w = [] \<and> w_flushed w = 0" "wf_options opts \<longrightarrow> durable x P e fs' m [] []" by blast
  then have "run_inv x P c h [] e fs' m []"
    using assms(5) by (simp add: run_inv_def no_npos_empty tracks_def explains_def last_writes_def mt_lookup_empty)
  with e show ?thesis by blast
qed

end
