(* ===== verification/EngineReopen.thy ===== *)
theory EngineReopen
  imports EngineOpen
begin

text \<open>
  Closing an engine and opening its directory again: the log, the index files and the Bloom
  filter that \<open>EngineDurable\<close> describes are read back into an engine whose memtable holds the
  last row of every key written since the first opening, and whose segments are in the order of
  the names of their index files.
\<close>

section \<open>Loading the index directory\<close>

text \<open>Tables that differ in the order of their hash map only.\<close>

definition similar :: "sstable_index \<Rightarrow> sstable_index \<Rightarrow> bool" where
  "similar t u \<longleftrightarrow> si_fileId t = si_fileId u \<and> si_lookup t = si_lookup u"

lemma similar_refl [simp]: "similar t t"
  by (simp add: similar_def)

lemma similar_trans: "similar t u \<Longrightarrow> similar u v \<Longrightarrow> similar t v"
  by (simp add: similar_def)

lemma similar_list_trans:
  "list_all2 similar ts us \<Longrightarrow> list_all2 similar us vs \<Longrightarrow> list_all2 similar ts vs"
  by (rule list_all2_trans [of similar similar similar]) (auto intro: similar_trans)

lemma seg_ok_similar: "similar t u \<Longrightarrow> seg_ok fs dir u seg \<Longrightarrow> seg_ok fs dir t seg"
  by (simp add: similar_def seg_ok_def)

lemma si_load_index_file:
  assumes "map_order_contract x" "si_inv t" "si_map t \<noteq> []"
  shows "\<exists>t'. si_load (new_sstable_index 0) (fresh_stream (index_file x t)) = Some (Inr t') \<and> similar t' t"
proof -
  let ?es = "ext_map_order x (si_map t)"
  have order: "mset ?es = mset (si_map t)" using assms(1) by (simp add: map_order_contract_def)
  then have "?es \<noteq> []" using assms(3) by (metis mset_zero_iff)
  then obtain t' where "si_load (new_sstable_index 0) (fresh_stream (index_file x t)) = Some (Inr t')"
    "si_fileId t' = si_fileId t" "si_lookup t' = map_of ?es"
    using si_load_entries [of "fresh_stream (index_file x t)" ?es "si_fileId t" "new_sstable_index 0"]
    by (auto simp: index_file_def)
  moreover have "map_of ?es = si_lookup t"
    using assms(2) order unfolding si_lookup_def si_inv_def by (rule map_of_order)
  ultimately show ?thesis by (auto simp: similar_def)
qed

abbreviation table_file :: "path \<Rightarrow> sstable_index \<Rightarrow> path" where
  "table_file dir t \<equiv> dir @ [index_name (unat (si_fileId t))]"

lemma load_files_ok:
  assumes "map_order_contract x"
    "\<forall>t \<in> set us. map_of fs (table_file dir t) = Some (File (index_file x t)) \<and> si_inv t \<and> si_map t \<noteq> []"
    "distinct (map si_fileId us)" "\<forall>t \<in> set us. si_fileId t \<notin> set (ix_ids ix)" "ix_inv ix"
  shows "\<exists>ix'. load_files fs (map (table_file dir) us) ix = (Inr (), ix') \<and> ix_inv ix' \<and>
    list_all2 similar (ix_tables ix') (rev us @ ix_tables ix)"
  using assms(2-)
proof (induction us arbitrary: ix)
  case Nil
  then show ?case by (simp add: list_all2_refl)
next
  case (Cons t us)
  have stream: "open_ifstream fs (table_file dir t) = fresh_stream (index_file x t)"
    using Cons.prems(1) by (simp add: open_ifstream_def file_content_def)
  obtain t' where t': "si_load (new_sstable_index 0) (fresh_stream (index_file x t)) = Some (Inr t')" "similar t' t"
    using si_load_index_file [OF assms(1)] Cons.prems(1) by fastforce
  have "si_fileId t' \<notin> set (ix_ids ix)" using t'(2) Cons.prems(3) by (simp add: similar_def)
  from ix_update_fresh [OF Cons.prems(4) this, of False] obtain ix1 where ix1:
    "ix_update t' ix = Inr ix1" "ix_inv ix1" "ix_tables ix1 = t' # ix_tables ix" by (auto simp: ix_update_def)
  have fresh: "\<forall>u \<in> set us. si_fileId u \<notin> set (ix_ids ix1)"
  proof
    fix u assume "u \<in> set us"
    then have "si_fileId u \<noteq> si_fileId t" "si_fileId u \<notin> set (ix_ids ix)"
      using Cons.prems(2,3) by (auto simp: image_iff)
    then show "si_fileId u \<notin> set (ix_ids ix1)"
      using ix1(3) t'(2) by (simp add: ix_ids_def similar_def)
  qed
  from Cons.IH [OF _ _ fresh ix1(2)] Cons.prems(1,2) obtain ix' where
    "load_files fs (map (table_file dir) us) ix1 = (Inr (), ix')" "ix_inv ix'"
    "list_all2 similar (ix_tables ix') (rev us @ ix_tables ix1)" by auto
  note loaded = this
  have "list_all2 similar (rev us @ ix_tables ix1) (rev (t # us) @ ix_tables ix)"
    using ix1(3) t'(2) by (simp add: list_all2_refl list_all2_appendI)
  with loaded(3) have "list_all2 similar (ix_tables ix') (rev (t # us) @ ix_tables ix)"
    by (rule similar_list_trans)
  then show ?case
    using stream t'(1) ix1(1) \<open>load_files fs (map (table_file dir) us) ix1 = (Inr (), ix')\<close> \<open>ix_inv ix'\<close>
    by (simp add: Let_def returned_def)
qed

text \<open>The directory holds the files of the tables \<open>ts\<close>, so loading it loads them in some order.\<close>

lemma dir_entries_iff: "n \<in> set (dir_entries fs d) \<longleftrightarrow> map_of fs (d @ [n]) \<noteq> None"
proof -
  have "p \<noteq> [] \<and> butlast p = d \<and> last p = n \<longleftrightarrow> p = d @ [n]" for p :: path
    by (cases p rule: rev_cases) auto
  then have "n \<in> set (dir_entries fs d) \<longleftrightarrow> d @ [n] \<in> fst ` set (AList.clearjunk fs)"
    by (force simp: dir_entries_def)
  also have "\<dots> \<longleftrightarrow> map_of (AList.clearjunk fs) (d @ [n]) \<noteq> None"
    by (simp add: map_of_eq_None_iff)
  finally show ?thesis by (simp add: map_of_clearjunk)
qed

lemma regular_index_files:
  assumes "index_dir_ok x e fs ts"
  shows "set (regular_files fs (e_indexDir e)) = (\<lambda>t. index_name (unat (si_fileId t))) ` set ts"
  using assms unfolding index_dir_ok_def regular_files_def file_content_def
  by (fastforce simp: dir_entries_iff split: option.splits node.splits)

lemma map_over_image:
  "set ns \<subseteq> f ` A \<Longrightarrow> \<exists>us. ns = map f us \<and> set us \<subseteq> A"
proof (induction ns)
  case (Cons n ns)
  then obtain us u where "ns = map f us" "set us \<subseteq> A" "u \<in> A" "n = f u" by auto
  then show ?case by (intro exI [of _ "u # us"]) simp
qed simp

lemma ix_load_ok:
  assumes "map_order_contract x" "index_dir_ok x e fs ts" "is_directory fs (e_indexDir e)"
    "distinct (map si_fileId ts)"
  shows "\<exists>us ix'. set us = set ts \<and> distinct (map si_fileId us) \<and>
    sorted_wrt (<) (map (\<lambda>t. index_name (unat (si_fileId t))) us) \<and>
    ix_load fs (e_indexDir e) new_index = (Inr (), ix') \<and> ix_inv ix' \<and> list_all2 similar (ix_tables ix') (rev us)"
proof -
  let ?name = "\<lambda>t. index_name (unat (si_fileId t))"
  let ?ns = "sort (remdups (regular_files fs (e_indexDir e)))"
  have inj: "inj_on ?name (set ts)"
    using assms(4) unfolding inj_on_def distinct_map index_name_inject by (metis unsigned_word_eqI)
  have ns: "set ?ns = ?name ` set ts" using regular_index_files [OF assms(2)] by simp
  then obtain us where us: "?ns = map ?name us" "set us \<subseteq> set ts"
    using map_over_image [of ?ns ?name "set ts"] by auto
  have "?name ` set us = ?name ` set ts" using ns unfolding us(1) set_map .
  then have "set us = set ts" using inj_on_image_eq_iff [OF inj us(2) order_refl] by blast
  moreover have "sorted_wrt (<) (map ?name us)" unfolding us(1) [symmetric] by (simp add: strict_sorted_iff)
  moreover have "distinct (map ?name us)" unfolding us(1) [symmetric] by simp
  then have ids: "distinct (map si_fileId us)" by (auto simp: distinct_map inj_on_def)
  moreover have "\<forall>t \<in> set us. map_of fs (table_file (e_indexDir e) t) = Some (File (index_file x t)) \<and>
      si_inv t \<and> si_map t \<noteq> []"
    using assms(2) us(2) unfolding index_dir_ok_def by blast
  from load_files_ok [OF assms(1) this ids _ ix_inv_new] obtain ix' where
    "load_files fs (map (table_file (e_indexDir e)) us) new_index = (Inr (), ix')" "ix_inv ix'"
    "list_all2 similar (ix_tables ix') (rev us)" by auto
  moreover have "map (\<lambda>n. e_indexDir e @ [n]) ?ns = map (table_file (e_indexDir e)) us"
    unfolding us(1) by simp
  then have "ix_load fs (e_indexDir e) new_index =
      load_files fs (map (table_file (e_indexDir e)) us) new_index"
    using assms(3) by (simp add: ix_load_def fs_exists_def is_directory_def)
  ultimately show ?thesis by auto
qed


section \<open>Opening the directory of a closed engine\<close>

text \<open>Segments in the order of the loaded tables.\<close>

lemma reordered_segments:
  assumes "list_all2 Q ts segs" "set us = set ts" "list_all2 similar vs us"
    "\<And>t u s. similar t u \<Longrightarrow> Q u s \<Longrightarrow> Q t s"
  shows "\<exists>segs'. list_all2 Q vs segs' \<and> set segs' \<subseteq> set segs"
proof -
  have seg: "\<exists>s \<in> set segs. Q t s" if "t \<in> set ts" for t
    using assms(1) that by (auto simp: list_all2_conv_all_nth set_conv_nth)
  from assms(3) assms(2) have "\<forall>u \<in> set us. \<exists>s \<in> set segs. Q u s" using seg by blast
  with assms(3) show ?thesis
  proof (induction rule: list_all2_induct)
    case (Cons v vs u us)
    then obtain s segs' where "Q u s" "s \<in> set segs" "list_all2 Q vs segs'" "set segs' \<subseteq> set segs" by auto
    then show ?case using Cons.hyps(1) assms(4) by (intro exI [of _ "s # segs'"]) auto
  qed simp
qed

text \<open>The file system after the engine is closed, and after the log has been opened again.\<close>

definition closed_fs :: "engine \<Rightarrow> sstable_row list \<Rightarrow> fsys \<Rightarrow> fsys" where
  "closed_fs e rows fs = write_file fs (e_walFileName e) (rows_bytes rows)"

lemma se_close_durable:
  assumes "e_memTable e = Some m" "log_ok e m rows"
  shows "se_close e fs = closed_fs e rows fs"
  using assms by (auto simp: log_ok_def se_close_def close_memtable_def wal_release_def wal_close_def closed_fs_def)

lemma map_of_reopened:
  assumes "paths_ok e fs"
  shows "map_of (closed_fs e rows fs) p = (if p = e_walFileName e then Some (File (rows_bytes rows)) else map_of fs p)"
    and "map_of (write_file (closed_fs e rows fs) (e_walFileName e) []) p =
      (if p = e_walFileName e then Some (File []) else map_of fs p)"
  using paths_can_write [OF assms] by (simp_all add: closed_fs_def map_of_write_file)

text \<open>The engine that opening the directory of \<open>e\<close> gives, with the index \<open>ix\<close>.\<close>

definition reopened :: "filter_params \<Rightarrow> engine \<Rightarrow> memtable \<Rightarrow> index \<Rightarrow> bloom \<Rightarrow> engine" where
  "reopened P e m ix b = (open_objects (open_paths (e_dir e) (e_opts e) (new_engine P)))
     \<lparr>e_memTable := Some m, e_index := Some ix, e_bloom := b\<rparr>"

lemma reopened_sel [simp]:
  "e_memTable (reopened P e m ix b) = Some m" "e_index (reopened P e m ix b) = Some ix"
  "e_bloom (reopened P e m ix b) = b" "e_dir (reopened P e m ix b) = e_dir e"
  "e_opts (reopened P e m ix b) = e_opts e" "e_segmentId (reopened P e m ix b) = 0"
  "e_walFileName (reopened P e m ix b) = e_dir e @ [''wal.bin'']"
  "e_indexDir (reopened P e m ix b) = e_dir e @ [''index'']"
  "e_chunkDir (reopened P e m ix b) = e_dir e @ [''segment'']"
  "e_bloomFileName (reopened P e m ix b) = e_dir e @ [''bloom_filter.bin'']"
  "e_optionsFileName (reopened P e m ix b) = e_dir e @ [''options.bin'']"
  "e_compressor (reopened P e m ix b) = Some (createCompressor (opt_compressionType (e_opts e)))"
  "e_hasher (reopened P e m ix b) = createHasher (opt_hashType (e_opts e))"
  by (simp_all add: reopened_def open_objects_def open_paths_def new_engine_def)

lemma reopened_update [simp]:
  "(reopened P e m ix b)\<lparr>e_index := Some ix'\<rparr> = reopened P e m ix' b"
  "(reopened P e m ix b)\<lparr>e_bloom := b'\<rparr> = reopened P e m ix b'"
  "(reopened P e m ix b)\<lparr>e_memTable := Some m'\<rparr> = reopened P e m' ix b"
  by (simp_all add: reopened_def)

lemma open_objects_reopened:
  "open_objects (open_paths (e_dir e) (e_opts e) (new_engine P)) =
    reopened P e new_memtable new_index (new_bloom (p_filterSize P))"
  by (simp add: reopened_def open_objects_def open_paths_def new_engine_def)

lemma open_paths_memTable [simp]: "e_memTable (open_paths d opts (new_engine P)) = None"
  by (simp add: open_paths_def new_engine_def)

lemma open_options_reopened:
  assumes "options_ok e fs"
  shows "open_options (open_paths (e_dir e) opts' (new_engine P)) fs =
    Inr (open_paths (e_dir e) (e_opts e) (new_engine P), fs)"
proof -
  from assms have content: "file_content fs (e_dir e @ [''options.bin'']) = Some (options_bytes (e_opts e))"
    and wf: "wf_options (e_opts e)" unfolding options_ok_def by metis+
  then have "fs_exists fs (e_dir e @ [''options.bin''])"
    by (auto simp: file_content_iff fs_exists_def)
  moreover have "open_ifstream fs (e_dir e @ [''options.bin'']) = fresh_stream (options_bytes (e_opts e))"
    using content by (simp add: open_ifstream_def)
  ultimately show ?thesis
    using options_read_bytes [OF wf, of "fresh_stream (options_bytes (e_opts e))" "[]" opts']
    by (simp add: open_options_def loadOptions_def open_paths_def)
qed

lemma open_bloom_reopened:
  assumes "bloom_file_ok P e fs" "bf_inv (p_filterSize P) (e_bloom e)" "e_bloomFileName e = e_dir e @ [''bloom_filter.bin'']"
    "0 < p_filterSize P" "p_filterSize P < 2 ^ 64"
  shows "open_bloom P (reopened P e m ix (new_bloom (p_filterSize P))) fs = Inr (e_bloom e)"
proof (cases "map_of fs (e_bloomFileName e)")
  case None
  then show ?thesis using assms(1,3) by (simp add: open_bloom_def bloom_file_ok_def fs_exists_def)
next
  case (Some n)
  then have content: "map_of fs (e_dir e @ [''bloom_filter.bin'']) = Some (File (bf_bits (e_bloom e)))"
    using assms(1,3) by (auto simp: bloom_file_ok_def)
  then have s: "open_ifstream fs (e_dir e @ [''bloom_filter.bin'']) = fresh_stream (bf_bits (e_bloom e))"
    by (simp add: open_ifstream_def file_content_def)
  have "bf_dump (p_filterSize P) True (e_bloom e) = Inr (bf_bits (e_bloom e))"
    using assms(2) by (simp add: bf_dump_def bf_inv_def)
  from bf_load_dump [OF assms(2) bf_inv_new [OF assms(4,5)] this] obtain s' where
    "bf_load (p_filterSize P) (fresh_stream (bf_bits (e_bloom e))) (new_bloom (p_filterSize P)) = Inr (e_bloom e, s')"
    by blast
  with content s show ?thesis by (simp add: open_bloom_def fs_exists_def)
qed

lemma open_index_reopened:
  assumes x: "map_order_contract x" and dir: "index_dir_ok x e fs ts" "is_directory fs (e_indexDir e)"
    and ids: "distinct (map si_fileId ts)" and name: "e_indexDir e = e_dir e @ [''index'']"
    and bloom: "open_bloom P (reopened P e m new_index b) fs = Inr b'"
  shows "\<exists>us ix. set us = set ts \<and> ix_inv ix \<and> list_all2 similar (ix_tables ix) us \<and>
    open_index x P (reopened P e m new_index b) fs = (Inr (), reopened P e m ix b', fs)"
proof -
  have bloom': "open_bloom P (reopened P e m ix b) fs = Inr b'" for ix
    using bloom by (auto simp: open_bloom_def split: if_splits)
  have empty: "fs_is_empty fs (e_indexDir e) = Inr (dir_entries fs (e_indexDir e) = [])"
    using dir(2) by (simp add: fs_is_empty_def is_directory_def)
  show ?thesis
  proof (cases "dir_entries fs (e_indexDir e) = []")
    case True
    then have "ts = []"
      using dir(1) by (cases ts) (auto simp: dir_entries_Nil index_dir_ok_def)
    then show ?thesis
      using True empty bloom' name by (intro exI [of _ "[]"] exI [of _ new_index]) (simp add: open_index_def)
  next
    case False
    obtain us ix where "set us = set ts" "ix_load fs (e_indexDir e) new_index = (Inr (), ix)" "ix_inv ix"
      "list_all2 similar (ix_tables ix) (rev us)"
      using ix_load_ok [OF x dir ids] by auto
    then show ?thesis
      using False empty bloom' name by (intro exI [of _ "rev us"] exI [of _ ix]) (simp add: open_index_def Let_def)
  qed
qed

lemma restored_rows:
  assumes "\<forall>r \<in> set rows. wf_row r" "length rows < 2 ^ 64" "m = foldl restore_row new_memtable rows"
  shows "mt_inv m" "mt_lookup m = map_of (rev (keyed rows))" "mt_wal m = None"
    "\<forall>(ik, r) \<in> set (mt_map m). wf_row r"
proof -
  have "snd ` set (mt_map (foldl restore_row m rows)) \<subseteq> snd ` set (mt_map m) \<union> set rows" for m
  proof (induction rows arbitrary: m)
    case (Cons r rows)
    have "snd ` set (mt_map (restore_row m r)) \<subseteq> snd ` set (mt_map m) \<union> {r}"
      using set_map_insert_subset [of "InsertKey (mt_counter m) (row_key r)" r "mt_map m"]
      by (auto simp: restore_row_add mt_add_def)
    with Cons.IH [of "restore_row m r"] show ?case by (simp only: foldl.simps list.set) blast
  qed simp
  from this [of new_memtable] assms(1) show "\<forall>(ik, r) \<in> set (mt_map m). wf_row r"
    unfolding assms(3) by force
  show "mt_inv m" "mt_lookup m = map_of (rev (keyed rows))" "mt_wal m = None"
    using foldl_restore_row [of new_memtable rows] assms(2) unfolding assms(3) by (simp_all add: keyed_def)
qed

lemma restored_memtable:
  assumes "rows \<noteq> []" "\<forall>r \<in> set rows. wf_row r" "length rows < 2 ^ 64"
  shows "\<exists>m. restoreFromLog junk new_memtable (fresh_stream (rows_bytes rows)) =
      Some (Inr (m, (fresh_stream (rows_bytes rows))\<lparr>rest := [], eofbit := True\<rparr>)) \<and>
    mt_inv m \<and> mt_lookup m = map_of (rev (keyed rows)) \<and> mt_wal m = None \<and>
    (\<forall>(ik, r) \<in> set (mt_map m). wf_row r)"
  using restoreFromLog_rows [OF assms(1,2), of junk new_memtable] restored_rows [OF assms(2,3) refl] by simp

text \<open>
  What a directory has to hold for an engine to be opened on it again. The index files are those
  of the index up to the order of its hash maps.
\<close>

definition stored ::
    "externals \<Rightarrow> filter_params \<Rightarrow> engine \<Rightarrow> fsys \<Rightarrow> memtable \<Rightarrow> sstable_row list \<Rightarrow> bool" where
  "stored x P e fs m rows \<longleftrightarrow>
     options_ok e fs \<and> log_ok e m rows \<and> bloom_file_ok P e fs \<and>
     (\<exists>ix ts. e_index e = Some ix \<and> list_all2 similar (ix_tables ix) ts \<and> index_dir_ok x e fs ts)"

lemma durable_stored: "durable x P e fs m segs rows \<Longrightarrow> stored x P e fs m rows"
  unfolding durable_def stored_def by (blast intro: list_all2_refl similar_refl)

lemma similar_ids: "list_all2 similar ts us \<Longrightarrow> map si_fileId ts = map si_fileId us"
  by (induction rule: list_all2_induct) (simp_all add: similar_def)

lemma similar_sym: "list_all2 similar ts us \<Longrightarrow> list_all2 similar us ts"
  by (induction rule: list_all2_induct) (simp_all add: similar_def)

text \<open>
  The file system \<open>fsC\<close> that is found has the log with \<open>bs\<close> in it, and the files of \<open>fs\<close>
  otherwise. Opening comes to the index with the restored memtable and an empty log.
\<close>

definition found_fs :: "engine \<Rightarrow> bytes \<Rightarrow> fsys \<Rightarrow> fsys \<Rightarrow> bool" where
  "found_fs e bs fs fsC \<longleftrightarrow>
     (\<forall>p. map_of fsC p = (if p = e_walFileName e then Some (File bs) else map_of fs p))"

definition reopened_memtable :: "engine \<Rightarrow> memtable \<Rightarrow> memtable" where
  "reopened_memtable e m = m\<lparr>mt_wal := Some \<lparr>w_path = e_walFileName e, w_open = True,
      w_bufferSize = opt_maxWalBufferSize (e_opts e), w_written = [], w_flushed = 0\<rparr>\<rparr>"

lemma found_closed: "paths_ok e fs \<Longrightarrow> found_fs e (rows_bytes rows) fs (closed_fs e rows fs)"
  by (simp add: found_fs_def map_of_reopened)

lemma found_directory: "paths_ok e fs \<Longrightarrow> found_fs e bs fs fsC \<Longrightarrow> is_directory fsC d = is_directory fs d"
  unfolding found_fs_def paths_ok_def is_directory_def by auto

lemma found_truncated:
  assumes "paths_ok e fs" "found_fs e bs fs fsC"
  shows "map_of (write_file fsC (e_walFileName e) []) p =
    (if p = e_walFileName e then Some (File []) else map_of fs p)"
proof -
  have "can_write fsC (e_walFileName e)"
    using paths_can_write(1) [OF assms(1)] by (simp add: can_write_def found_directory [OF assms])
  then show ?thesis using assms(2) by (simp add: map_of_write_file found_fs_def)
qed

lemma options_elsewhere:
  assumes "options_ok e fs" "e_walFileName e = e_dir e @ [''wal.bin'']"
    "\<And>p. p \<noteq> e_walFileName e \<Longrightarrow> map_of fs' p = map_of fs p"
  shows "options_ok e fs'"
proof -
  have name: "e_optionsFileName e = e_dir e @ [''options.bin'']" using assms(1) by (simp only: options_ok_def)
  then have "file_content fs' (e_optionsFileName e) = file_content fs (e_optionsFileName e)"
    using assms(2,3) by (simp add: file_content_def)
  then show ?thesis using assms(1) unfolding options_ok_def by metis
qed

lemma open_until_index:
  assumes paths: "paths_ok e fs" and opts: "options_ok e fs" and found: "found_fs e bs fs fsC"
    and m1: "restoreFromLog (ext_junk x) new_memtable (fresh_stream bs) = Some (Inr (m1, s))"
      "mt_wal m1 = None"
  shows "se_open x P (e_dir e) opts' (new_engine P) fsC =
    open_index x P (reopened P e (reopened_memtable e m1) new_index (new_bloom (p_filterSize P)))
      (write_file fsC (e_walFileName e) [])"
proof -
  note names = paths_names [OF paths] and dir = found_directory [OF paths found]
  let ?fs2 = "write_file fsC (e_walFileName e) []"
  have opts1: "options_ok e fsC" using found by (intro options_elsewhere [OF opts names(3)]) (simp add: found_fs_def)
  have log: "open_log x (reopened P e new_memtable new_index (new_bloom (p_filterSize P))) fsC = Inr m1"
    using found m1(1) names
    by (simp add: open_log_def deref_def fs_exists_def open_ifstream_def file_content_def found_fs_def)
  have "can_write fsC (e_walFileName e)"
    using paths_can_write(1) [OF paths] by (simp add: can_write_def dir)
  then have wal: "setWriteAheadLog (e_walFileName e) (opt_maxWalBufferSize (e_opts e)) m1 fsC = (reopened_memtable e m1, ?fs2)"
    using m1(2) by (simp add: setWriteAheadLog_def wal_open_def reopened_memtable_def wal_release_def)
  have dirs: "is_directory fs (e_indexDir e)" "is_directory fs (e_chunkDir e)"
    using paths unfolding paths_ok_def by blast+
  have "ensure_directory fs' d = Inr fs'" if "is_directory fs' d" for fs' d
    using that by (simp add: ensure_directory_def fs_exists_def is_directory_def)
  then have made: "ensure_directory ?fs2 (e_chunkDir e) = Inr ?fs2" "ensure_directory ?fs2 (e_indexDir e) = Inr ?fs2"
    using dirs by (simp_all add: dir)
  show ?thesis
    unfolding se_open_def
    using open_options_reopened [OF opts1, of opts' P] log wal made names
    by (simp add: Let_def open_objects_reopened close_memtable_def)
qed

lemma index_dir_set: "set us = set ts \<Longrightarrow> index_dir_ok x e fs us = index_dir_ok x e fs ts"
  by (simp add: index_dir_ok_def)

text \<open>The engine that opening ends with meets the invariant of the lookups.\<close>

lemma reopened_ok:
  assumes paths: "paths_ok e fs" and files: "options_ok e fs" "bloom_file_ok P e fs" "index_dir_ok x e fs us"
    and m1: "mt_inv m1" "\<forall>(ik, r) \<in> set (mt_map m1). wf_row r" and codec: "e_compressor e \<noteq> None" "e_hasher e \<noteq> None"
    and ix: "ix_inv ix" "list_all2 similar (ix_tables ix) us" "list_all2 (seg_ok fs (e_chunkDir e)) (ix_tables ix) segs"
    and bloom: "bf_inv (p_filterSize P) (e_bloom e)"
      "\<forall>seg \<in> set segs. \<forall>k \<in> dom seg. probablyContains x (p_numHashes P) k (e_bloom e)"
    and defs: "m2 = reopened_memtable e m1" "e' = reopened P e m2 ix (e_bloom e)"
  shows "read_inv x P e' fs m2 segs" and "stored x P e' fs m2 []"
    and "e_compressor e' = e_compressor e" "e_hasher e' = e_hasher e" "e_segmentId e' = 0" "e_dir e' = e_dir e"
    and "e_index e' = Some ix" "e_walFileName e' = e_walFileName e"
proof -
  note names = paths_names [OF paths]
  have sel: "e_dir e' = e_dir e" "e_opts e' = e_opts e" "e_bloom e' = e_bloom e" "e_index e' = Some ix"
    "e_chunkDir e' = e_chunkDir e" "e_indexDir e' = e_indexDir e" "e_walFileName e' = e_walFileName e"
    "e_bloomFileName e' = e_bloomFileName e" "e_optionsFileName e' = e_optionsFileName e"
    "e_compressor e' = e_compressor e" "e_hasher e' = e_hasher e" "e_memTable e' = Some m2" "e_segmentId e' = 0"
    using files(1) names by (simp_all add: options_ok_def defs(2))
  then show "e_compressor e' = e_compressor e" "e_hasher e' = e_hasher e" "e_segmentId e' = 0" "e_dir e' = e_dir e"
    "e_index e' = Some ix" "e_walFileName e' = e_walFileName e" by blast+
  have "paths_ok e' fs" using paths unfolding paths_ok_def sel .
  moreover have "mem_ok e' m2"
    using m1 by (simp add: mem_ok_def sel defs(1) reopened_memtable_def)
  moreover have "disk_ok x P e' fs segs"
    unfolding disk_ok_def using ix(1,3) bloom by (intro conjI exI [of _ ix]) (simp_all only: sel)
  ultimately show "read_inv x P e' fs m2 segs" using codec by (simp add: read_inv_def sel)
  have "options_ok e' fs" using files(1) unfolding options_ok_def sel .
  moreover have "bloom_file_ok P e' fs" using files(2) by (simp only: bloom_file_ok_def sel)
  moreover have "index_dir_ok x e' fs us" using files(3) by (simp only: index_dir_ok_def sel)
  moreover have "log_ok e' m2 []" by (simp add: log_ok_def defs(1) reopened_memtable_def sel)
  ultimately show "stored x P e' fs m2 []" unfolding stored_def sel using ix(2) by blast
qed

lemma reopen_found:
  assumes inv: "read_inv x P e fs m segs" and st: "stored x P e fs m rows" and found: "found_fs e bs fs fsC"
    and m1: "restoreFromLog (ext_junk x) new_memtable (fresh_stream bs) = Some (Inr (m1, s))"
      "mt_inv m1" "mt_wal m1 = None" "\<forall>(ik, r) \<in> set (mt_map m1). wf_row r"
    and x: "map_order_contract x" and P: "0 < p_filterSize P" "p_filterSize P < 2 ^ 64"
  shows "\<exists>e' fs' m' segs'. se_open x P (e_dir e) opts' (new_engine P) fsC = (Inr (), e', fs') \<and>
    read_inv x P e' fs' m' segs' \<and> stored x P e' fs' m' [] \<and> mt_lookup m' = mt_lookup m1 \<and>
    set segs' \<subseteq> set segs \<and> e_compressor e' = e_compressor e \<and> e_hasher e' = e_hasher e \<and>
    e_segmentId e' = 0 \<and> e_dir e' = e_dir e \<and>
    (\<exists>ix ix'. e_index e = Some ix \<and> e_index e' = Some ix' \<and> ix_inv ix' \<and> set (ix_ids ix') = set (ix_ids ix)) \<and>
    file_content fs' (e_walFileName e') = Some []"
proof -
  have mem: "e_memTable e = Some m" "e_compressor e \<noteq> None" "e_hasher e \<noteq> None" and paths: "paths_ok e fs"
    and disk: "disk_ok x P e fs segs" using inv by (simp_all add: read_inv_def)
  note names = paths_names [OF paths]
  obtain ix ts where ok: "options_ok e fs" "log_ok e m rows" "bloom_file_ok P e fs"
    and ix: "e_index e = Some ix" "list_all2 similar (ix_tables ix) ts" "index_dir_ok x e fs ts"
    using st by (auto simp: stored_def)
  define fs2 where "fs2 = write_file fsC (e_walFileName e) []"
  note look = found_truncated [OF paths found, folded fs2_def]
  have dirs: "is_directory fs (e_indexDir e)" "is_directory fs (e_chunkDir e)"
    using paths unfolding paths_ok_def by blast+
  have segs: "ix_inv ix" "list_all2 (seg_ok fs (e_chunkDir e)) (ix_tables ix) segs" "bf_inv (p_filterSize P) (e_bloom e)"
      "\<forall>seg \<in> set segs. \<forall>k \<in> dom seg. probablyContains x (p_numHashes P) k (e_bloom e)"
    using disk ix(1) by (auto simp: disk_ok_def)
  define m2 where "m2 = reopened_memtable e m1"
  let ?b = "new_bloom (p_filterSize P)"
  have opts2: "options_ok e fs2" by (rule options_elsewhere [OF ok(1) names(3)]) (simp add: look)
  have "map_of fs2 (e_bloomFileName e) = map_of fs (e_bloomFileName e)" using names by (simp add: look)
  with ok(3) have bloom2: "bloom_file_ok P e fs2" by (simp only: bloom_file_ok_def)
  note bloom = open_bloom_reopened [OF bloom2 segs(3) names(4) P]
  have dir2: "index_dir_ok x e fs2 ts" "is_directory fs2 (e_indexDir e)"
    using ix(3) dirs names by (auto simp: index_dir_ok_def look is_directory_def)
  have ids: "distinct (map si_fileId ts)" using segs(1) similar_ids [OF ix(2)] by (simp add: ix_inv_def ix_ids_def)
  obtain us ix' where ix': "set us = set ts" "ix_inv ix'" "list_all2 similar (ix_tables ix') us"
    "open_index x P (reopened P e m2 new_index ?b) fs2 = (Inr (), reopened P e m2 ix' (e_bloom e), fs2)"
    using open_index_reopened [OF x dir2 ids names(2) bloom] by blast
  have "list_all2 (seg_ok fs2 (e_chunkDir e)) (ix_tables ix) segs"
    using segs(2) names by (auto simp: seg_ok_def file_content_def look elim!: list_all2_mono)
  with similar_sym [OF ix(2)] have "list_all2 (seg_ok fs2 (e_chunkDir e)) ts segs"
    by (rule list_all2_trans [rotated]) (rule seg_ok_similar)
  from reordered_segments [OF this ix'(1,3)] obtain segs' where
    segs': "list_all2 (seg_ok fs2 (e_chunkDir e)) (ix_tables ix') segs'" "set segs' \<subseteq> set segs"
    using seg_ok_similar by blast
  have bloom': "\<forall>seg \<in> set segs'. \<forall>k \<in> dom seg. probablyContains x (p_numHashes P) k (e_bloom e)"
    by (rule ballI) (rule bspec [OF segs(4) subsetD [OF segs'(2)]])
  define e' where "e' = reopened P e m2 ix' (e_bloom e)"
  have "paths_ok e fs2" by (rule paths_ok_dirs [OF paths]) (simp add: fs2_def found_directory [OF paths found])
  note ok' = reopened_ok [OF this opts2 bloom2 dir2(1) [folded index_dir_set [OF ix'(1)]] m1(2,4) mem(2,3) ix'(2,3) segs'(1) segs(3) bloom' m2_def e'_def]
  have "se_open x P (e_dir e) opts' (new_engine P) fsC = (Inr (), e', fs2)"
    unfolding open_until_index [OF paths ok(1) found m1(1,3)]
    using ix'(4) by (simp add: e'_def m2_def fs2_def)
  moreover have "set (ix_ids ix') = set (ix_ids ix)"
    unfolding ix_ids_def similar_ids [OF ix'(3)] similar_ids [OF ix(2)] using ix'(1) by simp
  moreover have "file_content fs2 (e_walFileName e') = Some []"
    using look by (simp add: ok'(8) file_content_def)
  ultimately show ?thesis
    using ok' ix(1) ix'(2) segs'(2)
    by (intro exI [of _ e'] exI [of _ fs2] exI [of _ m2] exI [of _ segs'])
      (simp, simp add: m2_def reopened_memtable_def)
qed

lemma reopen_stored:
  assumes inv: "read_inv x P e fs m segs" and st: "stored x P e fs m rows"
    and m1: "restoreFromLog (ext_junk x) new_memtable (fresh_stream (rows_bytes rows)) = Some (Inr (m1, s))"
      "mt_inv m1" "mt_wal m1 = None" "\<forall>(ik, r) \<in> set (mt_map m1). wf_row r"
    and x: "map_order_contract x" and P: "0 < p_filterSize P" "p_filterSize P < 2 ^ 64"
  shows "\<exists>e' fs' m' segs'. se_open x P (e_dir e) opts' (new_engine P) (se_close e fs) = (Inr (), e', fs') \<and>
    read_inv x P e' fs' m' segs' \<and> stored x P e' fs' m' [] \<and> mt_lookup m' = mt_lookup m1 \<and>
    set segs' \<subseteq> set segs \<and> e_compressor e' = e_compressor e \<and> e_hasher e' = e_hasher e \<and>
    e_segmentId e' = 0 \<and> e_dir e' = e_dir e \<and>
    (\<exists>ix ix'. e_index e = Some ix \<and> e_index e' = Some ix' \<and> ix_inv ix' \<and> set (ix_ids ix') = set (ix_ids ix)) \<and>
    file_content fs' (e_walFileName e') = Some []"
proof -
  have "e_memTable e = Some m" "paths_ok e fs" "log_ok e m rows"
    using inv st by (simp_all add: read_inv_def stored_def)
  then show ?thesis
    using reopen_found [OF inv st found_closed m1 x P] by (simp add: se_close_durable)
qed

lemma restored_latest:
  assumes "durable x P e fs m segs rows" "rows \<noteq> []" "length rows < 2 ^ 64"
  obtains m1 s where "restoreFromLog junk new_memtable (fresh_stream (rows_bytes rows)) = Some (Inr (m1, s))"
    "mt_inv m1" "mt_wal m1 = None" "\<forall>(ik, r) \<in> set (mt_map m1). wf_row r" "mt_lookup m1 = latest (mt_lookup m) segs"
proof -
  have "\<forall>r \<in> set rows. wf_row r" "latest (mt_lookup m) segs = map_of (rev (keyed rows))"
    using assms(1) by (simp_all add: durable_def log_ok_def)
  with restored_memtable [OF assms(2) _ assms(3), of junk] that show thesis by auto
qed

lemma latest_tracks:
  assumes t: "tracks x c h ops (am # segs)" and am': "am' = latest am segs" and sub: "set segs' \<subseteq> set segs"
  shows "tracks x c h ops (am' # segs')"
proof -
  note am' = am' [unfolded latest_def]
  have "on_disk (am' # segs') = on_disk (am # segs)"
  proof
    fix k
    have "on_disk segs' k = None" if "on_disk (am # segs) k = None"
      using that sub unfolding on_disk_None_iff by auto
    then show "on_disk (am' # segs') k = on_disk (am # segs) k"
      unfolding am' on_disk.simps(2) [of "on_disk (am # segs)"]
      by (simp split: option.splits del: on_disk.simps)
  qed
  moreover have "\<exists>s0 \<in> set (am # segs). s0 k = Some r"
    if "s \<in> set (am' # segs')" "s k = Some r" for s k r
  proof (cases "s = am'")
    case True
    with that(2) am' show ?thesis by (intro on_disk_SomeD) simp
  qed (use that sub in auto)
  ultimately show ?thesis using t unfolding tracks_def by metis
qed

text \<open>
  After any sequence of writes the directory is opened again: the lookups see what the writes left.
\<close>

lemma reopen_tracks_found:
  assumes inv: "read_inv x P e fs m segs" and ch: "e_compressor e = Some c" "e_hasher e = Some h"
    and t: "tracks x c h ops (mt_lookup m # segs)" and d: "durable x P e fs m segs rows"
    and found: "found_fs e (rows_bytes rows) fs fsC" and rows: "rows \<noteq> []" "length rows < 2 ^ 64"
    and x: "map_order_contract x" and P: "0 < p_filterSize P" "p_filterSize P < 2 ^ 64"
  shows "\<exists>e' fs' m' segs'. se_open x P (e_dir e) opts' (new_engine P) fsC = (Inr (), e', fs') \<and>
    read_inv x P e' fs' m' segs' \<and> stored x P e' fs' m' [] \<and> set segs' \<subseteq> set segs \<and> e_dir e' = e_dir e \<and>
    e_compressor e' = Some c \<and> e_hasher e' = Some h \<and> e_segmentId e' = 0 \<and>
    (\<exists>ix ix'. e_index e = Some ix \<and> e_index e' = Some ix' \<and> ix_inv ix' \<and> set (ix_ids ix') = set (ix_ids ix)) \<and>
    tracks x c h ops (mt_lookup m' # segs') \<and> (\<forall>k. explains x c h (mt_lookup m' k) (last_writes ops k))"
proof -
  obtain m1 s where m1: "restoreFromLog (ext_junk x) new_memtable (fresh_stream (rows_bytes rows)) = Some (Inr (m1, s))"
    "mt_inv m1" "mt_wal m1 = None" "\<forall>(ik, r) \<in> set (mt_map m1). wf_row r" "mt_lookup m1 = latest (mt_lookup m) segs"
    using restored_latest [OF d rows] by blast
  from reopen_found [OF inv durable_stored [OF d] found m1(1-4) x P, of opts'] obtain e' fs' m' segs' where
    *: "se_open x P (e_dir e) opts' (new_engine P) fsC = (Inr (), e', fs')" "read_inv x P e' fs' m' segs'"
      "stored x P e' fs' m' []" "mt_lookup m' = latest (mt_lookup m) segs" "set segs' \<subseteq> set segs"
      "e_compressor e' = e_compressor e" "e_hasher e' = e_hasher e" "e_segmentId e' = 0" "e_dir e' = e_dir e"
      "\<exists>ix ix'. e_index e = Some ix \<and> e_index e' = Some ix' \<and> ix_inv ix' \<and> set (ix_ids ix') = set (ix_ids ix)"
    unfolding m1(5) by blast
  have "tracks x c h ops (mt_lookup m' # segs')" by (rule latest_tracks [OF t *(4,5)])
  moreover have "mt_lookup m' = on_disk (mt_lookup m # segs)" unfolding *(4) latest_def ..
  then have "explains x c h (mt_lookup m' k) (last_writes ops k)" for k using t by (simp only: tracks_def)
  ultimately show ?thesis using * ch
    by (intro exI [of _ e'] exI [of _ fs'] exI [of _ m'] exI [of _ segs']) simp
qed

lemma se_close_found:
  assumes "read_inv x P e fs m segs" "durable x P e fs m segs rows"
  shows "found_fs e (rows_bytes rows) fs (se_close e fs)"
  using assms found_closed [of e fs rows] se_close_durable [of e m rows fs]
  by (simp add: read_inv_def durable_def)

text \<open>From the first opening on.\<close>

lemma open_run:
  assumes "empty_directory fs dir" "createHasher (opt_hashType opts) = Some h" "wf_options opts"
    "0 < p_filterSize P" "p_filterSize P < 2 ^ 64" "c = createCompressor (opt_compressionType opts)"
    "\<forall>op \<in> set ops. op_ok x c op" "length ops + n < 2 ^ 32" "sum_list (map (op_bytes x c) ops) + b < 2 ^ 32"
  obtains e0 fs0 m0 e fs1 m segs rows where
    "se_open x P dir opts (new_engine P) fs = (Inr (), e0, fs0)" "run_inv x P c h [] e0 fs0 m0 []"
    "mt_map m0 = []" "mt_memorySize m0 = 0" "e_memTableLimit e0 = opt_maxMemTableSize opts"
    "se_run x P ops e0 fs0 = (Inr (), e, fs1)" "run_inv x P c h ops e fs1 m segs" "room n b e m"
    "durable x P e fs1 m segs rows" "length rows = length ops" "e_dir e = dir"
proof -
  from open_run_inv [OF assms(1,2,4-6), of x] assms(3) obtain e0 fs0 m0 where start:
    "se_open x P dir opts (new_engine P) fs = (Inr (), e0, fs0)" "e_dir e0 = dir"
    "run_inv x P c h [] e0 fs0 m0 []" "mt_map m0 = []" "mt_counter m0 = 0" "e_segmentId e0 = 0"
    "mt_memorySize m0 = 0" "e_memTableLimit e0 = opt_maxMemTableSize opts" "durable x P e0 fs0 m0 [] []" by blast
  have "room (length ops + n) (sum_list (map (op_bytes x c) ops) + b) e0 m0"
    using start(4-6) assms(8,9) by (simp add: room_def mt_fits_def mt_bytes_empty)
  from run_run_inv_room [OF start(3) assms(7) this] start(9) obtain e fs1 m segs rows where
    run: "se_run x P ops e0 fs0 = (Inr (), e, fs1)" "run_inv x P c h ops e fs1 m segs" "room n b e m"
      "length rows = length ops" "durable x P e fs1 m segs rows" by fastforce
  show thesis
    using that [OF start(1,3,4,7,8) run(1-3) run(5,4)] se_run_dir [OF run(1)] start(2) by simp
qed


lemma open_run_reopen:
  assumes "empty_directory fs dir" "createHasher (opt_hashType opts) = Some h" "wf_options opts"
    "0 < p_filterSize P" "p_filterSize P < 2 ^ 64" "map_order_contract x"
    "c = createCompressor (opt_compressionType opts)" "\<forall>op \<in> set ops. op_ok x c op" "ops \<noteq> []"
    "length ops < 2 ^ 32" "sum_list (map (op_bytes x c) ops) < 2 ^ 32"
  shows "\<exists>e0 fs0 e fs1 e' fs2. se_open x P dir opts (new_engine P) fs = (Inr (), e0, fs0) \<and>
    se_run x P ops e0 fs0 = (Inr (), e, fs1) \<and>
    se_open x P dir opts' (new_engine P) (se_close e fs1) = (Inr (), e', fs2) \<and>
    (\<forall>k. case last_writes ops k of
        None \<Rightarrow> se_get x P k e' fs2 = Inr None
      | Some None \<Rightarrow> se_get x P k e' fs2 = Inr None \<or>
          (\<exists>v \<in> put_values ops k. se_get x P k e' fs2 = Inr (Some v))
      | Some (Some v) \<Rightarrow> se_get x P k e' fs2 = Inr (Some v)) \<and>
    (e_segmentId e = 0 \<longrightarrow> (\<forall>k. last_writes ops k = Some None \<longrightarrow> se_get x P k e' fs2 = Inr None)) \<and>
    (\<exists>m'. e_memTable e' = Some m' \<and> (\<forall>k. explains x c h (mt_lookup m' k) (last_writes ops k)))"
proof -
  from assms(10,11) have bounds: "length ops + 0 < 2 ^ 32" "sum_list (map (op_bytes x c) ops) + 0 < 2 ^ 32" by simp_all
  obtain e0 fs0 m0 e fs1 m segs rows where start: "se_open x P dir opts (new_engine P) fs = (Inr (), e0, fs0)"
      "run_inv x P c h [] e0 fs0 m0 []" "mt_map m0 = []" "mt_memorySize m0 = 0" "e_memTableLimit e0 = opt_maxMemTableSize opts"
    and run: "se_run x P ops e0 fs0 = (Inr (), e, fs1)" "run_inv x P c h ops e fs1 m segs" "room 0 0 e m"
      "durable x P e fs1 m segs rows" "length rows = length ops" "e_dir e = dir"
    by (rule open_run [OF assms(1-5,7,8) bounds])
  have rows: "rows \<noteq> []" "length rows < 2 ^ 64" using run(5) assms(9,10) by auto
  have inv: "read_inv x P e fs1 m segs" "e_compressor e = Some c" "e_hasher e = Some h"
    "tracks x c h ops (mt_lookup m # segs)" using run(2) by (auto simp: run_inv_def dest: se_invD)
  from reopen_tracks_found [OF inv run(4) se_close_found [OF inv(1) run(4)] rows assms(6,4,5), of opts'] run(6)
  obtain e' fs2 m' segs' where
    again: "se_open x P dir opts' (new_engine P) (se_close e fs1) = (Inr (), e', fs2)"
      "read_inv x P e' fs2 m' segs'" "e_compressor e' = Some c" "e_hasher e' = Some h"
      "tracks x c h ops (mt_lookup m' # segs')" "set segs' \<subseteq> set segs"
      "\<forall>k. explains x c h (mt_lookup m' k) (last_writes ops k)" by blast
  have "se_get x P k e' fs2 = Inr None" if "e_segmentId e = 0" "last_writes ops k = Some None" for k
  proof -
    have "segs = []" using run(2) that(1) no_segments by (auto simp: run_inv_def)
    then have "segs' = []" using again(6) by simp
    then show ?thesis using tracks_removed [of x P e' fs2 m' c h ops k] again(2,5) that(2) by simp
  qed
  moreover have "e_memTable e' = Some m'" using again(2) by (simp add: read_inv_def)
  ultimately show ?thesis
    using start(1) run(1) again(1,7) tracks_get [OF again(2-5)] by blast
qed

section \<open>The order of the segments after a restart\<close>

text \<open>
  C17: Loading the directory of the index files, one for each segment, loads all of them and puts
  the segments in the descending lexicographic order of their file names, which is not that of
  their ids: a lookup comes to segment 2 before segment 10, whose rows are newer.
\<close>

theorem segments_load_by_name:
  assumes "map_order_contract x" "index_dir_ok x e fs ts" "is_directory fs (e_indexDir e)"
    "distinct (map si_fileId ts)"
  shows "\<exists>ix. ix_load fs (e_indexDir e) new_index = (Inr (), ix) \<and> ix_inv ix \<and>
    set (ix_ids ix) = si_fileId ` set ts \<and> sorted_wrt (>) (map (\<lambda>f. index_name (unat f)) (ix_ids ix))"
proof -
  from ix_load_ok [OF assms] obtain us ix where us: "set us = set ts"
    "sorted_wrt (<) (map (\<lambda>t. index_name (unat (si_fileId t))) us)"
    and ix: "ix_load fs (e_indexDir e) new_index = (Inr (), ix)" "ix_inv ix" "list_all2 similar (ix_tables ix) (rev us)"
    by blast
  have ids: "ix_ids ix = rev (map si_fileId us)"
    using similar_ids [OF ix(3)] by (simp add: ix_ids_def rev_map)
  have "sorted_wrt (>) (map (\<lambda>f. index_name (unat f)) (ix_ids ix))"
    unfolding ids rev_map [symmetric] sorted_wrt_rev using us(2) by (simp add: comp_def)
  moreover have "set (ix_ids ix) = si_fileId ` set ts" using ids us(1) by simp
  ultimately show ?thesis using ix(1,2) by blast
qed

definition two_segments :: "sstable_index list" where
  "two_segments = map (\<lambda>f. si_insert (Key 5) (FileSearchHint 0 36) (new_sstable_index f)) [10, 2]"

theorem segments_load_by_name_witness:
  "\<exists>ix. ix_load (([''d'', ''index''], Dir) # map (\<lambda>t. ([''d'', ''index'', index_name (unat (si_fileId t))],
        File (index_file plain_externals t))) two_segments) [''d'', ''index''] new_index = (Inr (), ix) \<and>
    ix_ids ix = [2, 10]"
proof -
  let ?fs = "([''d'', ''index''], Dir) # map (\<lambda>t. ([''d'', ''index'', index_name (unat (si_fileId t))],
      File (index_file plain_externals t))) two_segments"
  define e where "e = open_paths [''d''] default_options (new_engine \<lparr>p_filterSize = 1, p_numHashes = 1\<rparr>)"
  have dir: "e_indexDir e = [''d'', ''index'']" by (simp add: e_def open_paths_def new_engine_def)
  have ids: "si_fileId ` set two_segments = {10, 2}" "distinct (map si_fileId two_segments)"
    by (simp_all add: two_segments_def si_insert_def new_sstable_index_def)
  have "index_dir_ok plain_externals e ?fs two_segments"
    by (auto simp: index_dir_ok_def dir two_segments_def si_insert_def new_sstable_index_def si_inv_def split: if_splits)
  moreover have "is_directory ?fs (e_indexDir e)" by (simp add: dir is_directory_def)
  ultimately obtain ix where ix: "ix_load ?fs [''d'', ''index''] new_index = (Inr (), ix)" "distinct (ix_ids ix)"
    "set (ix_ids ix) = {10, 2}" "sorted_wrt (>) (map (\<lambda>f. index_name (unat f)) (ix_ids ix))"
    using segments_load_by_name [OF plain_map_order_contract _ _ ids(2), of e ?fs] unfolding dir ids(1) ix_inv_def by blast
  have "card (set (ix_ids ix)) = length (ix_ids ix)" using ix(2) by (rule distinct_card)
  then have "length (ix_ids ix) = 2" using ix(3) by simp
  then obtain f g where fg: "ix_ids ix = [f, g]" by (auto simp: length_Suc_conv numeral_2_eq_2)
  have "index_name 10 < index_name 2" by code_simp
  then have "\<not> index_name 10 > index_name 2" by simp
  with fg ix(3,4) have "ix_ids ix = [2, 10]" by (auto simp: doubleton_eq_iff)
  with ix(1) show ?thesis by blast
qed

end
