(* ===== verification/EngineProperties.thy ===== *)
theory EngineProperties
  imports EngineReopen
begin

text \<open>
  The properties of the storage engine as a whole, each from the lemmas of
  \<open>EngineRefinement\<close>, \<open>EngineRun\<close>, \<open>EngineOpen\<close> and \<open>EngineReopen\<close>, with instances on a small concrete database.
\<close>

section \<open>A small database\<close>

text \<open>An empty directory, a filter of 16 bytes, no compression, and a one-row memtable limit.\<close>

definition small_params :: filter_params where
  "small_params = \<lparr>p_filterSize = 16, p_numHashes = 2\<rparr>"

definition small_options :: options where
  "small_options = \<lparr>opt_maxMemTableSize = 1, opt_maxWalBufferSize = 64,
     opt_compressionType = CompressionType_NoCompression, opt_hashType = HashType_CityHash128\<rparr>"

definition small_fs :: fsys where
  "small_fs = [([''db''], Dir)]"

lemma small_fs_empty: "empty_directory small_fs [''db'']"
  by (simp add: empty_directory_def small_fs_def is_directory_def)

lemma small_database:
  "\<exists>e fs m. se_open plain_externals small_params [''db''] small_options (new_engine small_params) small_fs = (Inr (), e, fs) \<and>
    se_inv plain_externals small_params e fs m [] \<and> mt_map m = [] \<and> mt_counter m = 0 \<and> e_segmentId e = 0 \<and>
    e_compressor e = Some NoCompression \<and> e_hasher e = Some CityHash128Adapter"
  using se_open_empty [OF small_fs_empty, of small_options CityHash128Adapter small_params plain_externals]
  by (simp add: small_options_def small_params_def) blast

text \<open>With one row in the memtable, and with one row in a segment.\<close>

lemma small_database_segment:
  "\<exists>e fs m. se_inv plain_externals small_params e fs m [[Key 1 \<mapsto> make_put_row (Key 1) [7] (7, 1)]] \<and>
    mt_map m = [] \<and> mt_counter m = 0 \<and> unat (e_segmentId e) = 1 \<and>
    e_compressor e = Some NoCompression \<and> e_hasher e = Some CityHash128Adapter"
proof -
  obtain e fs m where start: "se_inv plain_externals small_params e fs m []" "mt_map m = []"
    "mt_counter m = 0" "e_segmentId e = 0" "e_compressor e = Some NoCompression"
    "e_hasher e = Some CityHash128Adapter"
    using small_database by blast
  define m1 where "m1 = mt_put_entry (Key 1) [7] (7, 1) EntryType_Put m"
  let ?e1 = "e\<lparr>e_memTable := Some m1\<rparr>"
  have mem: "mem_ok e m" and fits: "mt_fits m 1"
    using start by (simp_all add: se_invD mt_fits_def)
  then have mem1: "mem_ok e m1" by (simp add: m1_def mem_ok_put_entry max_string_size)
  then have inv1: "se_inv plain_externals small_params ?e1 fs m1 []"
    using start(1) by (rule se_inv_memtable [rotated])
  have lookup: "mt_lookup m1 = [Key 1 \<mapsto> make_put_row (Key 1) [7] (7, 1)]"
    using mem start(2) by (simp add: m1_def mem_ok_def mt_put_entry_lookup mt_lookup_empty
        make_row_def make_put_row_def)
  have npos: "no_npos m1" using lookup by (simp add: no_npos_def npos_def)
  have "mt_bytes m1 \<le> 36"
    using mt_put_entry_bytes [of "Key 1" "[7]" "(7, 1)" EntryType_Put m] start(2)
    by (simp add: m1_def mt_bytes_empty)
  then have "length (mt_dump m1) < 2 ^ 32" using length_mt_dump [of m1] by simp
  from makeSnapshot_ok [OF inv1 npos this] start(4-6) lookup
  have "\<exists>e' fs' m'. se_inv plain_externals small_params e' fs' m' [[Key 1 \<mapsto> make_put_row (Key 1) [7] (7, 1)]] \<and>
      mt_map m' = [] \<and> mt_counter m' = 0 \<and> unat (e_segmentId e') = 1 \<and>
      e_compressor e' = Some NoCompression \<and> e_hasher e' = Some CityHash128Adapter"
    by fastforce
  then show ?thesis .
qed

section \<open>Properties\<close>

text \<open>
  C1: After any sequence of puts and removes on a freshly opened empty directory that meets
  \<open>op_ok\<close> (no key is \<open>2\<^sup>6\<^sup>4 - 1\<close>, and every value is in the domain of the codec: with LZ4, the default,
  not the empty value, which cannot be read back) and the 32-bit bounds (fewer than \<open>2\<^sup>3\<^sup>2\<close> writes, of
  fewer than \<open>2\<^sup>3\<^sup>2\<close> bytes in all), no call has failed, and a lookup returns: the last value put, for a
  key whose last write is a put; nothing, for a key never written; and for a key that was removed
  last nothing as long as no snapshot has been taken, and after one either nothing or one of the
  values put before.
\<close>

theorem database_keeps_last_write:
  assumes "empty_directory fs dir" "createHasher (opt_hashType opts) = Some h"
    "0 < p_filterSize P" "p_filterSize P < 2 ^ 64"
    "c = createCompressor (opt_compressionType opts)" "\<forall>op \<in> set ops. op_ok x c op"
    "length ops < 2 ^ 32" "sum_list (map (op_bytes x c) ops) < 2 ^ 32"
  shows "\<exists>e0 fs0 e fs'. Database_open x P dir opts (new_engine P) fs = (Inr (), e0, fs0) \<and>
    se_run x P ops e0 fs0 = (Inr (), e, fs') \<and>
    (\<forall>k. case last_writes ops k of
        None \<Rightarrow> Database_get x P k e fs' = Inr None
      | Some None \<Rightarrow> Database_get x P k e fs' = Inr None \<or>
          (\<exists>v \<in> put_values ops k. Database_get x P k e fs' = Inr (Some v))
      | Some (Some v) \<Rightarrow> Database_get x P k e fs' = Inr (Some v)) \<and>
    (e_segmentId e = 0 \<longrightarrow> (\<forall>k. last_writes ops k = Some None \<longrightarrow> Database_get x P k e fs' = Inr None))"
proof -
  from open_run_inv [OF assms(1-5)] obtain e0 fs0 m0 where start:
    "se_open x P dir opts (new_engine P) fs = (Inr (), e0, fs0)"
    "run_inv x P c h [] e0 fs0 m0 []" "mt_map m0 = []" "mt_counter m0 = 0" "e_segmentId e0 = 0" by blast
  have "room (length ops) (sum_list (map (op_bytes x c) ops)) e0 m0"
    using start(3-5) assms(7,8) by (simp add: room_def mt_fits_def mt_bytes_empty)
  from run_run_inv [OF start(2) assms(6) this] obtain e fs' m segs where
    run: "se_run x P ops e0 fs0 = (Inr (), e, fs')" "run_inv x P c h ops e fs' m segs" by auto
  show ?thesis
    unfolding Database_open_def Database_get_def
    using start(1) run(1) run_inv_get [OF run(2)] run_inv_removed [OF run(2)] by blast
qed

theorem database_keeps_last_write_witness:
  "\<exists>e0 fs0 e fs'. Database_open plain_externals small_params [''db''] small_options (new_engine small_params) small_fs =
      (Inr (), e0, fs0) \<and>
    se_run plain_externals small_params [Op_put (Key 1) [7], Op_put (Key 2) [8], Op_put (Key 1) [9]] e0 fs0 = (Inr (), e, fs') \<and>
    Database_get plain_externals small_params (Key 1) e fs' = Inr (Some [9]) \<and>
    Database_get plain_externals small_params (Key 3) e fs' = Inr None"
proof -
  let ?ops = "[Op_put (Key 1) [7], Op_put (Key 2) [8], Op_put (Key 1) [9]]"
  have last: "last_writes ?ops (Key 1) = Some (Some [9])" "last_writes ?ops (Key 3) = None"
    by (simp_all add: last_writes_def apply_op_def)
  have "\<forall>op \<in> set ?ops. op_ok plain_externals NoCompression op"
    "sum_list (map (op_bytes plain_externals NoCompression) ?ops) < 2 ^ 32"
    by (simp_all add: op_ok_def op_bytes_def npos_def no_compress_def)
  from database_keeps_last_write [OF small_fs_empty _ _ _ _ this(1) _ this(2), of small_options CityHash128Adapter small_params]
  obtain e0 fs0 e fs' where
    "Database_open plain_externals small_params [''db''] small_options (new_engine small_params) small_fs = (Inr (), e0, fs0)"
    "se_run plain_externals small_params ?ops e0 fs0 = (Inr (), e, fs')"
    and get: "\<forall>k. case last_writes ?ops k of
        None \<Rightarrow> Database_get plain_externals small_params k e fs' = Inr None
      | Some None \<Rightarrow> Database_get plain_externals small_params k e fs' = Inr None \<or>
          (\<exists>v \<in> put_values ?ops k. Database_get plain_externals small_params k e fs' = Inr (Some v))
      | Some (Some v) \<Rightarrow> Database_get plain_externals small_params k e fs' = Inr (Some v)"
    by (auto simp: small_options_def small_params_def)
  moreover from get [rule_format, of "Key 1"] last(1)
  have "Database_get plain_externals small_params (Key 1) e fs' = Inr (Some [9])" by simp
  moreover from get [rule_format, of "Key 3"] last(2)
  have "Database_get plain_externals small_params (Key 3) e fs' = Inr None" by simp
  ultimately show ?thesis by blast
qed

text \<open>
  C11: Under the engine's invariant a lookup is the lookup in the abstract store of the memtable
  and the segments, newest first, with tombstones hiding older rows, and the row it finds is
  checked against its checksum and uncompressed; except that a key whose tombstone is in the
  memtable is looked up in the segments.
\<close>

theorem get_follows_store:
  assumes "read_inv x P e fs m segs"
  shows "Database_get x P k e fs =
    (case (if shadowed (mt_lookup m) segs k then live (on_disk segs k) else view (mt_lookup m) segs k) of
       None \<Rightarrow> Inr None
     | Some r \<Rightarrow> decode x e r)"
  using se_get_reads [OF assms] by (simp add: reads_view Database_get_def)

theorem get_follows_store_witness:
  "\<exists>e fs. Database_get plain_externals small_params (Key 1) e fs = Inr (Some [7])"
proof -
  obtain e fs m where inv: "se_inv plain_externals small_params e fs m [[Key 1 \<mapsto> make_put_row (Key 1) [7] (7, 1)]]"
    and e: "mt_map m = []" "e_compressor e = Some NoCompression" "e_hasher e = Some CityHash128Adapter"
    using small_database_segment by blast
  have "city_hash plain_externals [7] = (7, 1)" by code_simp
  with get_follows_store [OF se_invD(6) [OF inv], of "Key 1"] e show ?thesis
    by (auto simp: shadowed_def view_def latest_simps mt_lookup_empty make_put_row_def decode_def
        deref_def no_uncompress_def)
qed

text \<open>
  C12: A put succeeds on an engine that satisfies the invariant, keeps the invariant, and, with
  or without the snapshot it triggers, changes the abstract store at that key only, to a row
  that decodes to the value.
\<close>

theorem put_updates_store:
  assumes "se_inv x P e fs m segs" "no_npos m" "k \<noteq> Key npos"
    "e_compressor e = Some c" "e_hasher e = Some h" "codec_domain x c v"
    "room 1 (op_bytes x c (Op_put k v)) e m"
  shows "\<exists>e' fs' m' segs' r. se_put x P k v e fs = (Inr (), e', fs') \<and> se_inv x P e' fs' m' segs' \<and>
    view (mt_lookup m') segs' = (view (mt_lookup m) segs)(k \<mapsto> r) \<and> decode x e' r = Inr (Some v)"
proof -
  obtain cv where cv: "compress x c v = Inr cv" "uncompress x c cv = Inr v"
    using comp.round_trip [OF assms(6)] by blast
  let ?r = "make_put_row k cv (hasher_hash x h cv)"
  have "room (Suc 0) (35 + length cv + 0) e m" using assms(7) cv(1) by (simp add: op_bytes_def)
  from put_step [OF assms(1-3) this assms(4) cv(1) assms(5)] obtain e' fs' m' segs' where step:
    "se_put x P k v e fs = (Inr (), e', fs')" "se_inv x P e' fs' m' segs'"
    "e_compressor e' = Some c" "e_hasher e' = Some h"
    "written k ?r (mt_lookup m # segs) (mt_lookup m' # segs')" by blast
  have "view (mt_lookup m') segs' = (view (mt_lookup m) segs)(k \<mapsto> ?r)"
    using view_written [OF step(5)] by (simp add: make_put_row_def)
  moreover have "decode x e' ?r = Inr (Some v)"
    using step(3,4) cv(2) by (intro decode_holds) (simp_all add: holds_def make_put_row_def)
  ultimately show ?thesis using step(1,2) by blast
qed

theorem put_updates_store_witness:
  "\<exists>e fs e' fs'. se_put plain_externals small_params (Key 2) [8] e fs = (Inr (), e', fs')"
proof -
  obtain e fs m where inv: "se_inv plain_externals small_params e fs m [[Key 1 \<mapsto> make_put_row (Key 1) [7] (7, 1)]]"
    and e: "mt_map m = []" "mt_counter m = 0" "unat (e_segmentId e) = 1"
      "e_compressor e = Some NoCompression" "e_hasher e = Some CityHash128Adapter"
    using small_database_segment by blast
  have "room 1 (op_bytes plain_externals NoCompression (Op_put (Key 2) [8])) e m"
    using e by (simp add: room_def mt_fits_def mt_bytes_empty op_bytes_def no_compress_def)
  from put_updates_store [OF inv _ _ e(4,5) _ this] e(1) show ?thesis
    by (fastforce simp: npos_def no_npos_empty)
qed

text \<open>
  C13: A remove keeps the invariant and removes the key from the abstract store, but what a
  lookup of the key then finds is its most recent row in the segments, if that is not a
  tombstone: a removed value comes back until the next snapshot.
\<close>

theorem removed_value_resurfaces:
  assumes "se_inv x P e fs m segs" "no_npos m" "k \<noteq> Key npos" "room 1 35 e m"
  shows "\<exists>e' m'. se_remove k e fs = (Inr (), e', fs) \<and> se_inv x P e' fs m' segs \<and>
    view (mt_lookup m') segs = (view (mt_lookup m) segs)(k := None) \<and>
    se_get x P k e' fs = (case live (on_disk segs k) of None \<Rightarrow> Inr None | Some r \<Rightarrow> decode x e' r)"
proof -
  from remove_step [OF assms(1-3), of 0 0] assms(4) obtain e' m' where step:
    "se_remove k e fs = (Inr (), e', fs)" "se_inv x P e' fs m' segs"
    "mt_lookup m' = (mt_lookup m)(k \<mapsto> make_remove_row k)" by auto
  moreover have "view (mt_lookup m') segs = (view (mt_lookup m) segs)(k := None)"
    by (simp add: step(3) view_update make_remove_row_def)
  moreover have "se_get x P k e' fs = (case live (on_disk segs k) of None \<Rightarrow> Inr None | Some r \<Rightarrow> decode x e' r)"
    unfolding se_get_reads [OF se_invD(6) [OF step(2)]] step(3) by (simp add: reads_def make_remove_row_def)
  ultimately show ?thesis by blast
qed

theorem removed_value_resurfaces_witness:
  "\<exists>e fs e'. se_remove (Key 1) e fs = (Inr (), e', fs) \<and>
     se_get plain_externals small_params (Key 1) e' fs = Inr (Some [7])"
proof -
  obtain e fs m where inv: "se_inv plain_externals small_params e fs m [[Key 1 \<mapsto> make_put_row (Key 1) [7] (7, 1)]]"
    and e: "mt_map m = []" "mt_counter m = 0" "unat (e_segmentId e) = 1"
      "e_compressor e = Some NoCompression" "e_hasher e = Some CityHash128Adapter"
    using small_database_segment by blast
  have "room 1 35 e m" using e by (simp add: room_def mt_fits_def mt_bytes_empty)
  from removed_value_resurfaces [OF inv no_npos_empty [OF e(1)] _ this, of "Key 1"] obtain e' where e':
    "se_remove (Key 1) e fs = (Inr (), e', fs)"
    "se_get plain_externals small_params (Key 1) e' fs = decode plain_externals e' (make_put_row (Key 1) [7] (7, 1))"
    by (auto simp: npos_def make_put_row_def)
  then have "e_compressor e' = Some NoCompression" "e_hasher e' = Some CityHash128Adapter"
    using e by (auto simp: se_remove_def deref_def split: option.splits)
  moreover have "city_hash plain_externals [7] = (7, 1)" by code_simp
  ultimately have "decode plain_externals e' (make_put_row (Key 1) [7] (7, 1)) = Inr (Some [7])"
    by (simp add: decode_def deref_def make_put_row_def no_uncompress_def)
  with e' show ?thesis by auto
qed

text \<open>
  A snapshot moves the memtable to a new segment, in front of the others, without changing
  the abstract store: the memtable is empty afterwards, the segment id has gone up by one, and
  every lookup sees the tombstones that the memtable held.
\<close>

theorem snapshot_preserves_store:
  assumes "se_inv x P e fs m segs" "no_npos m" "length (mt_dump m) < 2 ^ 32" "unat (e_segmentId e) < 2 ^ 32"
  shows "\<exists>e' fs' m'. makeSnapshot x P e fs = (Inr (), e', fs') \<and>
    se_inv x P e' fs' m' (mt_lookup m # segs) \<and> mt_lookup m' = Map.empty \<and>
    unat (e_segmentId e') = Suc (unat (e_segmentId e)) \<and>
    view (mt_lookup m') (mt_lookup m # segs) = view (mt_lookup m) segs \<and>
    (\<forall>k. se_get x P k e' fs' = (case view (mt_lookup m) segs k of None \<Rightarrow> Inr None | Some r \<Rightarrow> decode x e' r))"
proof -
  from makeSnapshot_ok [OF assms] obtain e' fs' m' where s: "makeSnapshot x P e fs = (Inr (), e', fs')"
    "se_inv x P e' fs' m' (mt_lookup m # segs)" "mt_map m' = []"
    "unat (e_segmentId e') = Suc (unat (e_segmentId e))" by blast
  have empty: "mt_lookup m' = Map.empty" using s(3) by (rule mt_lookup_empty)
  have "reads Map.empty (mt_lookup m # segs) = view (mt_lookup m) segs"
    by (simp add: reads_def view_def latest_simps fun_eq_iff)
  with se_get_reads [OF se_invD(6) [OF s(2)]] s empty show ?thesis by auto
qed

theorem snapshot_preserves_store_witness:
  "\<exists>e fs e' fs'. makeSnapshot plain_externals small_params e fs = (Inr (), e', fs') \<and>
     unat (e_segmentId e') = Suc 1"
proof -
  obtain e fs m where inv: "se_inv plain_externals small_params e fs m [[Key 1 \<mapsto> make_put_row (Key 1) [7] (7, 1)]]"
    and e: "mt_map m = []" "unat (e_segmentId e) = 1"
    using small_database_segment by blast
  have "length (mt_dump m) < 2 ^ 32" using e(1) by (simp add: mt_dump_def)
  moreover have "unat (e_segmentId e) < 2 ^ 32" using e(2) by simp
  ultimately obtain e' fs' where "makeSnapshot plain_externals small_params e fs = (Inr (), e', fs')"
    "unat (e_segmentId e') = Suc (unat (e_segmentId e))"
    using snapshot_preserves_store [OF inv no_npos_empty [OF e(1)]] by blast
  then show ?thesis using e(2) by metis
qed

text \<open>
  C14: A snapshot whose segment id is already indexed, which is what the first snapshot after
  reopening a database with segments meets, throws only after it has emptied the memtable and
  overwritten the segment file: the rows are in no table that a lookup searches by them.
\<close>

theorem snapshot_of_known_segment_fails:
  assumes "e_memTable e = Some m" "mem_ok e m" "paths_ok e fs" "e_index e = Some ix" "ix_inv ix"
    "ucast (e_segmentId e) \<in> set (ix_ids ix)"
  shows "\<exists>e' fs' m'. makeSnapshot x P e fs = (Inl (Runtime_error ''file id is already indexed''), e', fs') \<and>
    e_memTable e' = Some m' \<and> mt_lookup m' = Map.empty \<and> e_index e' = Some ix \<and>
    file_content fs' (e_chunkDir e @ [segment_name (unat (e_segmentId e))]) = Some (mt_dump m)"
proof -
  obtain w where w: "mt_wal m = Some w" "w_path w = e_walFileName e"
    using assms(2) by (auto simp: mem_ok_def)
  have "ix_update (snapshot_index e m) ix = Inl (Runtime_error ''file id is already indexed'')"
    using assms(5,6) by (intro ix_update_duplicate) (simp_all add: snapshot_index_def)
  moreover have "can_write (wal_release (mt_wal m) fs') p = can_write fs' p" for fs' p
    by (simp add: wal_release_def wal_close_def split: option.splits)
  ultimately have "makeSnapshot x P e fs = (Inl (Runtime_error ''file id is already indexed''),
      (snapshot_engine x P e m ix), snapshot_fs x P e m fs)"
    using assms(1,4) w(1) paths_can_write [OF assms(3)]
    by (simp add: makeSnapshot_def Let_def mt_clear_cleared bf_dump_def si_dump_def deref_def
        snapshot_fs_def snapshot_engine_def snapshot_bloom_def snapshot_index_def index_file_def)
  then show ?thesis
    using segments_snapshot [OF assms(3,2), of x P "unat (e_segmentId e)"] mt_lookup_empty [of "cleared m"]
    by (simp add: snapshot_engine_def)
qed

theorem snapshot_of_known_segment_fails_witness:
  "\<exists>e fs e' fs'. makeSnapshot plain_externals small_params e fs =
     (Inl (Runtime_error ''file id is already indexed''), e', fs')"
proof -
  obtain e fs m where inv: "se_inv plain_externals small_params e fs m [[Key 1 \<mapsto> make_put_row (Key 1) [7] (7, 1)]]"
    and e: "unat (e_segmentId e) = 1"
    using small_database_segment by blast
  let ?e = "e\<lparr>e_segmentId := 0\<rparr>"
  from se_invD(4,5) [OF inv] e obtain ix where ix: "e_index e = Some ix" "ix_inv ix"
    "length (ix_tables ix) = 1" "\<forall>f \<in> set (ix_ids ix). unat f < 1"
    by (auto simp: disk_ok_def ids_ok_def dest: list_all2_lengthD)
  then have "0 \<in> set (ix_ids ix)"
    by (cases "ix_tables ix") (auto simp: ix_ids_def unat_eq_0)
  then show ?thesis
    using snapshot_of_known_segment_fails [of ?e m fs ix plain_externals small_params] se_invD [OF inv] ix
    by auto
qed

text \<open>
  C10: Requests against a freshly opened empty directory: after any sequence of Put and Delete
  requests that meets \<open>op_ok\<close> (no key \<open>2\<^sup>6\<^sup>4 - 1\<close>, values in the domain of the codec) and the 32-bit
  bounds, every one of which is answered Ok, a Get request is answered Ok with the last value put,
  for a key whose last request was a Put, NotFound for a key that was never mentioned, and for a key
  that was deleted last NotFound as long as no snapshot has been taken, and after one NotFound or Ok
  with a value put before.
\<close>

theorem requests_are_answered:
  assumes "empty_directory fs dir" "createHasher (opt_hashType opts) = Some h"
    "0 < p_filterSize P" "p_filterSize P < 2 ^ 64"
    "c = createCompressor (opt_compressionType opts)" "\<forall>op \<in> set ops. op_ok x c op"
    "length ops < 2 ^ 32" "sum_list (map (op_bytes x c) ops) < 2 ^ 32"
  shows "\<exists>e0 fs0 e fs'. Database_open x P dir opts (new_engine P) fs = (Inr (), e0, fs0) \<and>
    handle_run x P (map request_of ops) e0 fs0 =
      (replicate (length ops) (Inr (Response ResponseStatus_Ok [])), e, fs') \<and>
    (\<forall>k v. last_writes ops k = Some (Some v) \<longrightarrow>
       Database_handle x P (Request RequestType_Get k []) e fs' = (Inr (Response ResponseStatus_Ok v), e, fs')) \<and>
    (\<forall>k. last_writes ops k = None \<longrightarrow>
       Database_handle x P (Request RequestType_Get k []) e fs' = (Inr (Response ResponseStatus_NotFound []), e, fs')) \<and>
    (\<forall>k. last_writes ops k = Some None \<longrightarrow>
       Database_handle x P (Request RequestType_Get k []) e fs' = (Inr (Response ResponseStatus_NotFound []), e, fs') \<or>
       (e_segmentId e \<noteq> 0 \<and> (\<exists>v \<in> put_values ops k.
          Database_handle x P (Request RequestType_Get k []) e fs' = (Inr (Response ResponseStatus_Ok v), e, fs'))))"
proof -
  from open_run_inv [OF assms(1-5)] obtain e0 fs0 m0 where start:
    "se_open x P dir opts (new_engine P) fs = (Inr (), e0, fs0)"
    "run_inv x P c h [] e0 fs0 m0 []" "mt_map m0 = []" "mt_counter m0 = 0" "e_segmentId e0 = 0" by blast
  have "room (length ops) (sum_list (map (op_bytes x c) ops)) e0 m0"
    using start(3-5) assms(7,8) by (simp add: room_def mt_fits_def mt_bytes_empty)
  from run_run_inv [OF start(2) assms(6) this] obtain e fs' m segs where
    run: "se_run x P ops e0 fs0 = (Inr (), e, fs')" "run_inv x P c h ops e fs' m segs" by auto
  have found: "Database_handle x P (Request RequestType_Get k []) e fs' = (Inr (Response ResponseStatus_Ok v), e, fs')"
    if "se_get x P k e fs' = Inr (Some v)" for k v
    using that by (simp add: Database_handle_def se_handle_def Request_def caught_def)
  have missing: "Database_handle x P (Request RequestType_Get k []) e fs' = (Inr (Response ResponseStatus_NotFound []), e, fs')"
    if "se_get x P k e fs' = Inr None" for k
    using that by (simp add: Database_handle_def se_handle_def Request_def caught_def)
  have "Database_handle x P (Request RequestType_Get k []) e fs' = (Inr (Response ResponseStatus_Ok v), e, fs')"
    if "last_writes ops k = Some (Some v)" for k v
    using run_inv_get [OF run(2), of k] that by (intro found) simp
  moreover have "Database_handle x P (Request RequestType_Get k []) e fs' = (Inr (Response ResponseStatus_NotFound []), e, fs')"
    if "last_writes ops k = None" for k
    using run_inv_get [OF run(2), of k] that by (intro missing) simp
  moreover have "Database_handle x P (Request RequestType_Get k []) e fs' = (Inr (Response ResponseStatus_NotFound []), e, fs') \<or>
      (e_segmentId e \<noteq> 0 \<and> (\<exists>v \<in> put_values ops k.
         Database_handle x P (Request RequestType_Get k []) e fs' = (Inr (Response ResponseStatus_Ok v), e, fs')))"
    if last: "last_writes ops k = Some None" for k
  proof (cases "se_get x P k e fs' = Inr None")
    case False
    then have "e_segmentId e \<noteq> 0" using run_inv_removed [OF run(2) _ last] by blast
    with False show ?thesis using run_inv_get [OF run(2), of k] last found by auto
  qed (simp add: missing)
  ultimately show ?thesis
    using start(1) handle_run_ok [OF run(1)] unfolding Database_open_def by blast
qed

theorem requests_are_answered_witness:
  "\<exists>e0 fs0 e fs'. Database_open plain_externals small_params [''db''] small_options (new_engine small_params) small_fs =
      (Inr (), e0, fs0) \<and>
    handle_run plain_externals small_params [Request RequestType_Put (Key 1) [7], Request RequestType_Delete (Key 2) []] e0 fs0 =
      ([Inr (Response ResponseStatus_Ok []), Inr (Response ResponseStatus_Ok [])], e, fs') \<and>
    Database_handle plain_externals small_params (Request RequestType_Get (Key 1) []) e fs' =
      (Inr (Response ResponseStatus_Ok [7]), e, fs')"
proof -
  let ?ops = "[Op_put (Key 1) [7], Op_remove (Key 2)]"
  have last: "last_writes ?ops (Key 1) = Some (Some [7])"
    by (simp add: last_writes_def apply_op_def)
  have ops: "\<forall>op \<in> set ?ops. op_ok plain_externals NoCompression op"
    "sum_list (map (op_bytes plain_externals NoCompression) ?ops) < 2 ^ 32"
    by (simp_all add: op_ok_def op_bytes_def npos_def no_compress_def)
  from requests_are_answered [OF small_fs_empty _ _ _ _ ops(1) _ ops(2), of small_options CityHash128Adapter small_params] last
  show ?thesis by (simp add: small_options_def small_params_def) blast
qed

text \<open>
  No \<open>std::exception\<close> leaves \<open>handle\<close>: a put that throws one is answered UnknownError, in the
  state the failed put left behind, as is a get; an unknown request type is answered
  InvalidRequestType and changes nothing.
\<close>

theorem handle_reports_errors:
  shows "(\<forall>err e' fs'. Database_handle x P q e fs = (Inl err, e', fs') \<longrightarrow> \<not> is_std_exception err) \<and>
    (\<forall>err e' fs'. se_put x P k v e fs = (Inl err, e', fs') \<longrightarrow> is_std_exception err \<longrightarrow>
       Database_handle x P (Request RequestType_Put k v) e fs = (Inr (Response ResponseStatus_UnknownError []), e', fs')) \<and>
    (\<forall>err. se_get x P k e fs = Inl err \<longrightarrow> is_std_exception err \<longrightarrow>
       Database_handle x P (Request RequestType_Get k v) e fs = (Inr (Response ResponseStatus_UnknownError []), e, fs)) \<and>
    Database_handle x P (Request (RequestType_other b) k v) e fs =
      (Inr (Response ResponseStatus_InvalidRequestType []), e, fs)"
  by (auto simp: Database_handle_def se_handle_def caught_def Request_def
      split: sum.splits request_type.splits if_splits prod.splits)

theorem handle_reports_errors_witness:
  "Database_handle (plain_externals\<lparr>ext_lz4_bound := \<lambda>_. 0\<rparr>) small_params (Request RequestType_Put (Key 1) [5])
     ((new_engine small_params)\<lparr>e_compressor := Some LZ4CompressionAdapter\<rparr>) small_fs =
   (Inr (Response ResponseStatus_UnknownError []),
    (new_engine small_params)\<lparr>e_compressor := Some LZ4CompressionAdapter\<rparr>, small_fs)"
proof -
  let ?x = "plain_externals\<lparr>ext_lz4_bound := \<lambda>_. 0\<rparr>"
  let ?e = "(new_engine small_params)\<lparr>e_compressor := Some LZ4CompressionAdapter\<rparr>"
  have "\<exists>msg. se_put ?x small_params (Key 1) [5] ?e small_fs = (Inl (Runtime_error msg), ?e, small_fs)"
    by (simp add: se_put_def deref_def lz4_compress_def)
  then show ?thesis
    using handle_reports_errors [of ?x small_params _ ?e small_fs "Key 1" "[5]"] by auto
qed

text \<open>
  C2: Writes survive a clean shutdown: after any non-empty sequence of puts and removes on a
  freshly opened empty directory that meets \<open>op_ok\<close> (no key \<open>2\<^sup>6\<^sup>4 - 1\<close>, values in the domain of the
  codec) and the 32-bit bounds, the engine can be closed and its directory opened again, with
  whatever options. Then the memtable holds, for every key, the row of its last write, whether a put
  or a remove (\<open>explains\<close>: a tombstone for a remove, a row that decodes to the value for a put, no row
  for a key never written), and lookups return what they have to return after that sequence: the
  last value put; nothing for a key never written; for a removed key nothing if the closed engine had
  taken no snapshot, and otherwise nothing or a value put before. After the empty sequence opening
  would restore one row that was never written, under key 0.
\<close>

theorem reopening_keeps_writes:
  assumes "empty_directory fs dir" "createHasher (opt_hashType opts) = Some h" "wf_options opts"
    "0 < p_filterSize P" "p_filterSize P < 2 ^ 64" "map_order_contract x"
    "c = createCompressor (opt_compressionType opts)" "\<forall>op \<in> set ops. op_ok x c op" "ops \<noteq> []"
    "length ops < 2 ^ 32" "sum_list (map (op_bytes x c) ops) < 2 ^ 32"
  shows "\<exists>e0 fs0 e fs1 e' fs2. Database_open x P dir opts (new_engine P) fs = (Inr (), e0, fs0) \<and>
    se_run x P ops e0 fs0 = (Inr (), e, fs1) \<and>
    Database_open x P dir opts' (new_engine P) (se_close e fs1) = (Inr (), e', fs2) \<and>
    (\<forall>k. case last_writes ops k of
        None \<Rightarrow> Database_get x P k e' fs2 = Inr None
      | Some None \<Rightarrow> Database_get x P k e' fs2 = Inr None \<or>
          (\<exists>v \<in> put_values ops k. Database_get x P k e' fs2 = Inr (Some v))
      | Some (Some v) \<Rightarrow> Database_get x P k e' fs2 = Inr (Some v)) \<and>
    (e_segmentId e = 0 \<longrightarrow> (\<forall>k. last_writes ops k = Some None \<longrightarrow> Database_get x P k e' fs2 = Inr None)) \<and>
    (\<exists>m'. e_memTable e' = Some m' \<and> (\<forall>k. explains x c h (mt_lookup m' k) (last_writes ops k)))"
  unfolding Database_open_def Database_get_def using assms by (rule open_run_reopen)

theorem reopening_keeps_writes_witness:
  "\<exists>e0 fs0 e fs1 e' fs2. Database_open plain_externals small_params [''db''] small_options (new_engine small_params) small_fs =
      (Inr (), e0, fs0) \<and>
    se_run plain_externals small_params [Op_put (Key 1) [7], Op_put (Key 2) [8], Op_put (Key 1) [9]] e0 fs0 = (Inr (), e, fs1) \<and>
    Database_open plain_externals small_params [''db''] default_options (new_engine small_params) (se_close e fs1) = (Inr (), e', fs2) \<and>
    Database_get plain_externals small_params (Key 1) e' fs2 = Inr (Some [9])"
proof -
  let ?ops = "[Op_put (Key 1) [7], Op_put (Key 2) [8], Op_put (Key 1) [9]]"
  have last: "last_writes ?ops (Key 1) = Some (Some [9])"
    by (simp add: last_writes_def apply_op_def)
  have ops: "\<forall>op \<in> set ?ops. op_ok plain_externals NoCompression op"
    "sum_list (map (op_bytes plain_externals NoCompression) ?ops) < 2 ^ 32"
    by (simp_all add: op_ok_def op_bytes_def npos_def no_compress_def)
  have opts: "createHasher (opt_hashType small_options) = Some CityHash128Adapter" "wf_options small_options"
    "NoCompression = createCompressor (opt_compressionType small_options)"
    by (simp_all add: small_options_def wf_options_def compression_byte_def compression_of_byte_def
        hash_type_byte_def hash_type_of_byte_def)
  have P: "0 < p_filterSize small_params" "p_filterSize small_params < 2 ^ 64"
    by (simp_all add: small_params_def)
  from reopening_keeps_writes [OF small_fs_empty opts(1,2) P plain_map_order_contract opts(3) ops(1) _ _ ops(2), of default_options]
  obtain e0 fs0 e fs1 e' fs2 where
    "Database_open plain_externals small_params [''db''] small_options (new_engine small_params) small_fs = (Inr (), e0, fs0)"
    "se_run plain_externals small_params ?ops e0 fs0 = (Inr (), e, fs1)"
    "Database_open plain_externals small_params [''db''] default_options (new_engine small_params) (se_close e fs1) = (Inr (), e', fs2)"
    and get: "\<forall>k. case last_writes ?ops k of
        None \<Rightarrow> Database_get plain_externals small_params k e' fs2 = Inr None
      | Some None \<Rightarrow> Database_get plain_externals small_params k e' fs2 = Inr None \<or>
          (\<exists>v \<in> put_values ?ops k. Database_get plain_externals small_params k e' fs2 = Inr (Some v))
      | Some (Some v) \<Rightarrow> Database_get plain_externals small_params k e' fs2 = Inr (Some v)"
    by auto
  moreover from get [rule_format, of "Key 1"] last
  have "Database_get plain_externals small_params (Key 1) e' fs2 = Inr (Some [9])" by simp
  ultimately show ?thesis by blast
qed

end
