(* ===== verification/StepSystems.thy ===== *)
theory StepSystems
  imports Main
begin

text \<open>
  Step relations, for the parts of the program that are driven by callbacks: the states that
  can be reached, and two contracts with what follows from them. A system that keeps an
  invariant satisfies it in every reachable state; a system whose steps decrease a measure and
  that is only stuck in final states always ends in one.
\<close>

section \<open>Reachable states\<close>

inductive reach :: "('s \<Rightarrow> 's \<Rightarrow> bool) \<Rightarrow> 's \<Rightarrow> 's \<Rightarrow> bool" for step :: "'s \<Rightarrow> 's \<Rightarrow> bool" where
  reach_refl: "reach step s s"
| reach_step: "reach step s t \<Longrightarrow> step t u \<Longrightarrow> reach step s u"

lemmas reach_intros = reach_refl reach_step

lemma reach_one: "step s t \<Longrightarrow> reach step s t"
  by (rule reach_step [OF reach_refl])

lemma reach_trans: "reach step s t \<Longrightarrow> reach step t u \<Longrightarrow> reach step s u"
  by (rotate_tac, induction rule: reach.induct) (auto intro: reach_step)

lemma reach_first: "step s t \<Longrightarrow> reach step t u \<Longrightarrow> reach step s u"
  by (rule reach_trans [OF reach_one])

text \<open>With the number of steps.\<close>

inductive steps :: "('s \<Rightarrow> 's \<Rightarrow> bool) \<Rightarrow> nat \<Rightarrow> 's \<Rightarrow> 's \<Rightarrow> bool" for step :: "'s \<Rightarrow> 's \<Rightarrow> bool" where
  steps_zero: "steps step 0 s s"
| steps_Suc: "steps step n s t \<Longrightarrow> step t u \<Longrightarrow> steps step (Suc n) s u"

lemma steps_reach: "steps step n s t \<Longrightarrow> reach step s t"
  by (induction rule: steps.induct) (auto intro: reach_intros)

section \<open>Simulation\<close>

text \<open>A system whose steps are steps of a coarser one, or invisible there.\<close>

locale simulation =
  fixes step :: "'s \<Rightarrow> 's \<Rightarrow> bool" and step' :: "'t \<Rightarrow> 't \<Rightarrow> bool" and abs :: "'s \<Rightarrow> 't"
  assumes step_simulated: "step s t \<Longrightarrow> reach step' (abs s) (abs t)"
begin

lemma reach_simulated: "reach step s t \<Longrightarrow> reach step' (abs s) (abs t)"
  by (induction rule: reach.induct) (auto intro: reach_refl reach_trans step_simulated)

end

section \<open>Invariants\<close>

locale invariant_system =
  fixes step :: "'s \<Rightarrow> 's \<Rightarrow> bool"
    and inv :: "'s \<Rightarrow> bool"
  assumes inv_step: "inv s \<Longrightarrow> step s t \<Longrightarrow> inv t"
begin

lemma inv_reach: "reach step s t \<Longrightarrow> inv s \<Longrightarrow> inv t"
  by (induction rule: reach.induct) (auto intro: inv_step)

lemma inv_steps: "steps step n s t \<Longrightarrow> inv s \<Longrightarrow> inv t"
  by (rule inv_reach [OF steps_reach])

end

section \<open>Termination and progress\<close>

locale bounded_system = invariant_system step inv
  for step :: "'s \<Rightarrow> 's \<Rightarrow> bool" and inv :: "'s \<Rightarrow> bool" +
  fixes bound :: "'s \<Rightarrow> nat"
  assumes bound_step: "inv s \<Longrightarrow> step s t \<Longrightarrow> bound t < bound s"
begin

lemma steps_bound: "steps step n s t \<Longrightarrow> inv s \<Longrightarrow> n + bound t \<le> bound s"
proof (induction rule: steps.induct)
  case (steps_Suc n s t u)
  then show ?case using bound_step [OF inv_steps [OF steps_Suc.hyps(1)] steps_Suc.hyps(2)] by simp
qed simp

end

locale live_system = bounded_system step inv bound
  for step :: "'s \<Rightarrow> 's \<Rightarrow> bool" and inv :: "'s \<Rightarrow> bool" and bound :: "'s \<Rightarrow> nat" +
  fixes final :: "'s \<Rightarrow> bool"
  assumes progress: "inv s \<Longrightarrow> \<not> final s \<Longrightarrow> \<exists>t. step s t"
begin

text \<open>A state from which there is no step is final, and from every state one can be reached.\<close>

lemma stuck_final: "reach step s t \<Longrightarrow> inv s \<Longrightarrow> \<nexists>u. step t u \<Longrightarrow> final t"
  using inv_reach progress by blast

lemma reaches_final: "inv s \<Longrightarrow> \<exists>t. reach step s t \<and> final t"
proof (induction "bound s" arbitrary: s rule: less_induct)
  case less
  show ?case
  proof (cases "final s")
    case False
    then obtain t where t: "step s t" using progress less.prems by blast
    then obtain u where "reach step t u" "final u"
      using less.hyps [OF bound_step [OF less.prems t]] inv_step [OF less.prems t] by blast
    then show ?thesis using reach_first [of step, OF t] by blast
  qed (auto intro: reach_refl)
qed

end

end
