(* ===== verification/ServerSession.thy ===== *)
theory ServerSession
  imports StorageEngine StepSystems
begin

text \<open>
  src/Networking/ServerSession.h and ServerSession.cpp: one client connection of the server. A
  session is a chain of callbacks: read four bytes, read as many bytes as they announce, pass
  the request to the database, write the response.

  The socket and the asynchronous operations are code of boost::asio. What the session relies
  on is the environment of \<open>session_step\<close>: the operation that is pending completes, with an
  error or without, and calls its handler. \<open>faults\<close> says which errors can occur and
  \<open>accepts bs n\<close> that a write of \<open>bs\<close> may hand over \<open>n\<close> bytes at once.
\<close>

section \<open>The session\<close>

text \<open>
  The operation a session has started, with what it was started on. A session without one is
  destroyed: no handler holds a pointer to it any more.
\<close>

datatype server_op = Read_length nat | Read_request nat | Write_response bytes

record server_session =
  ss_contentLength :: u32
  ss_requestBuffer :: bytes
  ss_pending :: "server_op option"
  ss_errors :: "string list"

definition new_server_session :: server_session where
  "new_server_session = \<lparr>ss_contentLength = 0, ss_requestBuffer = [], ss_pending = None, ss_errors = []\<rparr>"

definition ServerSession_run :: "server_session \<Rightarrow> server_session" where
  "ServerSession_run ss = ss\<lparr>ss_pending := Some (Read_length 4)\<rparr>"

definition ServerSession_onError :: "string \<Rightarrow> server_session \<Rightarrow> server_session" where
  "ServerSession_onError message ss = ss\<lparr>ss_errors := ss_errors ss @ [message]\<rparr>"

definition ServerSession_onContentLengthReceived ::
    "boost_error \<Rightarrow> nat \<Rightarrow> server_session \<Rightarrow> server_session result" where
  "ServerSession_onContentLengthReceived error numBytes ss =
     (case error of
        Some message \<Rightarrow> Inr (ServerSession_onError message ss)
      | None \<Rightarrow>
          if numBytes \<noteq> 4 then Inl Assertion_failed
          else if length (ss_requestBuffer ss) < 4 then Inl (Undefined_behaviour ''read past the buffer'')
          else
            let contentLength = word_of_bytes (take 4 (ss_requestBuffer ss)) :: u32
            in Inr (ss\<lparr>ss_contentLength := contentLength,
                 ss_pending := Some (Read_request (unat contentLength))\<rparr>))"

definition default_request :: request where
  "default_request = Request RequestType_Get (Key 0) []"

text \<open>\<open>processRequest\<close> takes everything there is in the buffer.\<close>

definition ServerSession_processRequest ::
    "externals \<Rightarrow> filter_params \<Rightarrow> server_session \<Rightarrow> engine \<Rightarrow> fsys \<Rightarrow>
     response result \<times> server_session \<times> engine \<times> fsys" where
  "ServerSession_processRequest x P ss e fs =
     (let serializedRequest = ss_requestBuffer ss;
          ss' = ss\<lparr>ss_requestBuffer := []\<rparr>
      in case request_deserialize serializedRequest default_request of
           Inl err \<Rightarrow> (Inl err, ss', e, fs)
         | Inr request \<Rightarrow>
             (case Database_handle x P request e fs of (r, e', fs') \<Rightarrow> (r, ss', e', fs')))"

definition ServerSession_onRequestReceived ::
    "externals \<Rightarrow> filter_params \<Rightarrow> boost_error \<Rightarrow> nat \<Rightarrow> server_session \<Rightarrow> engine \<Rightarrow> fsys \<Rightarrow>
     server_session result \<times> engine \<times> fsys" where
  "ServerSession_onRequestReceived x P error numBytes ss e fs =
     (case error of
        Some message \<Rightarrow> (Inr (ServerSession_onError message ss), e, fs)
      | None \<Rightarrow>
          (case ServerSession_processRequest x P ss e fs of
             (Inl err, ss', e', fs') \<Rightarrow> (Inl err, e', fs')
           | (Inr response, ss', e', fs') \<Rightarrow>
               (Inr (ss'\<lparr>ss_pending := Some (Write_response (response_serialize response))\<rparr>), e', fs')))"

definition ServerSession_onResponseSent ::
    "boost_error \<Rightarrow> nat \<Rightarrow> server_session \<Rightarrow> server_session result" where
  "ServerSession_onResponseSent error numBytes ss =
     (case error of
        Some message \<Rightarrow> Inr (ServerSession_onError message ss)
      | None \<Rightarrow> Inr ss)"

section \<open>A session with its socket\<close>

text \<open>
  The socket: the bytes that have arrived and are not yet read, and those written and not yet
  taken by the peer.
\<close>

record connection =
  cn_session :: server_session
  cn_in :: bytes
  cn_out :: bytes

text \<open>A read that completes has put bytes into the buffer; its operation is over.\<close>

definition received :: "bytes \<Rightarrow> server_session \<Rightarrow> server_session" where
  "received bs ss = ss\<lparr>ss_requestBuffer := ss_requestBuffer ss @ bs, ss_pending := None\<rparr>"

definition put_session :: "nat \<Rightarrow> bytes \<Rightarrow> connection \<Rightarrow> server_session \<Rightarrow> connection" where
  "put_session n bs c ss = c\<lparr>cn_session := ss, cn_in := drop n (cn_in c), cn_out := cn_out c @ bs\<rparr>"

text \<open>
  \<open>async_write\<close> is given the bytes of a string that lives only until the handler returns. The
  first \<open>k\<close> of them are handed over while it does; the others are whatever the memory holds when
  the operation goes on.
\<close>

definition on_the_wire :: "(bytes \<Rightarrow> nat \<Rightarrow> bool) \<Rightarrow> bytes \<Rightarrow> bytes \<Rightarrow> bool" where
  "on_the_wire accepts bs sent \<longleftrightarrow>
     (\<exists>k junk. accepts bs k \<and> sent = take k bs @ junk \<and> length sent = length bs)"

text \<open>
  Nothing is assumed of \<open>accepts\<close> in general. \<open>taken_whole\<close> says of one buffer that it is taken as a
  whole at once, \<open>complete_writes\<close> is a socket that takes every buffer so.
\<close>

definition taken_whole :: "(bytes \<Rightarrow> nat \<Rightarrow> bool) \<Rightarrow> bytes \<Rightarrow> bool" where
  "taken_whole accepts bs \<longleftrightarrow> (\<forall>k. accepts bs k \<longleftrightarrow> k = length bs)"

definition complete_writes :: "bytes \<Rightarrow> nat \<Rightarrow> bool" where
  "complete_writes bs k \<longleftrightarrow> k = length bs"

lemma taken_whole_complete [simp]: "taken_whole complete_writes bs"
  by (simp add: taken_whole_def complete_writes_def)

lemma on_the_wire_whole: "taken_whole accepts bs \<Longrightarrow> on_the_wire accepts bs sent \<longleftrightarrow> sent = bs"
  by (auto simp: on_the_wire_def taken_whole_def)

lemma on_the_wire_length: "on_the_wire accepts bs sent \<Longrightarrow> length sent = length bs"
  by (auto simp: on_the_wire_def)

text \<open>
  The steps of a session, labelled with the request that is passed to the database. A read of
  exactly \<open>n\<close> bytes completes without an error only when it has them all.
\<close>

inductive session_step ::
    "externals \<Rightarrow> filter_params \<Rightarrow> (bytes \<Rightarrow> nat \<Rightarrow> bool) \<Rightarrow> (string \<Rightarrow> bool) \<Rightarrow>
     connection \<times> engine \<times> fsys \<Rightarrow> request option \<Rightarrow> connection result \<times> engine \<times> fsys \<Rightarrow> bool"
  for x P accepts faults where
  length_read:
    "ss_pending (cn_session c) = Some (Read_length n) \<Longrightarrow> n \<le> length (cn_in c) \<Longrightarrow>
     r = ServerSession_onContentLengthReceived None n (received (take n (cn_in c)) (cn_session c)) \<Longrightarrow>
     session_step x P accepts faults (c, e, fs) None (rmap (put_session n [] c) r, e, fs)"
| length_failed:
    "ss_pending (cn_session c) = Some (Read_length n) \<Longrightarrow> faults message \<Longrightarrow> j \<le> n \<Longrightarrow> j \<le> length (cn_in c) \<Longrightarrow>
     r = ServerSession_onContentLengthReceived (Some message) j (received (take j (cn_in c)) (cn_session c)) \<Longrightarrow>
     session_step x P accepts faults (c, e, fs) None (rmap (put_session j [] c) r, e, fs)"
| request_read:
    "ss_pending (cn_session c) = Some (Read_request n) \<Longrightarrow> n \<le> length (cn_in c) \<Longrightarrow>
     request_deserialize (ss_requestBuffer (cn_session c) @ take n (cn_in c)) default_request = Inr request \<Longrightarrow>
     (r, e', fs') = ServerSession_onRequestReceived x P None n (received (take n (cn_in c)) (cn_session c)) e fs \<Longrightarrow>
     session_step x P accepts faults (c, e, fs) (Some request) (rmap (put_session n [] c) r, e', fs')"
| request_failed:
    "ss_pending (cn_session c) = Some (Read_request n) \<Longrightarrow> faults message \<Longrightarrow> j \<le> n \<Longrightarrow> j \<le> length (cn_in c) \<Longrightarrow>
     (r, e', fs') = ServerSession_onRequestReceived x P (Some message) j
        (received (take j (cn_in c)) (cn_session c)) e fs \<Longrightarrow>
     session_step x P accepts faults (c, e, fs) None (rmap (put_session j [] c) r, e', fs')"
| response_sent:
    "ss_pending (cn_session c) = Some (Write_response bs) \<Longrightarrow> on_the_wire accepts bs sent \<Longrightarrow>
     r = ServerSession_onResponseSent None (length bs) (received [] (cn_session c)) \<Longrightarrow>
     session_step x P accepts faults (c, e, fs) None (rmap (put_session 0 sent c) r, e, fs)"
| response_failed:
    "ss_pending (cn_session c) = Some (Write_response bs) \<Longrightarrow> faults message \<Longrightarrow>
     on_the_wire accepts bs sent \<Longrightarrow> j \<le> length bs \<Longrightarrow>
     r = ServerSession_onResponseSent (Some message) j (received [] (cn_session c)) \<Longrightarrow>
     session_step x P accepts faults (c, e, fs) None (rmap (put_session 0 (take j sent) c) r, e, fs)"

inductive_cases session_silentE: "session_step x P accepts faults (c, e, fs) None (r, e', fs')"
inductive_cases session_requestE: "session_step x P accepts faults (c, e, fs) (Some request) (r, e', fs')"

section \<open>Invariant\<close>

text \<open>
  What holds of a session between two callbacks: the buffer has what the operations so far have
  read, and the operation that is pending is the one this calls for.
\<close>

definition server_session_ok :: "server_session \<Rightarrow> bool" where
  "server_session_ok ss \<longleftrightarrow> (case ss_pending ss of
       Some (Read_length n) \<Rightarrow> n = 4 \<and> ss_requestBuffer ss = []
     | Some (Read_request n) \<Rightarrow> length (ss_requestBuffer ss) = 4 \<and>
         ss_contentLength ss = word_of_bytes (ss_requestBuffer ss) \<and> n = unat (ss_contentLength ss)
     | _ \<Rightarrow> length (ss_requestBuffer ss) \<le> 4 + unat (ss_contentLength ss))"

abbreviation session_ok :: "connection \<Rightarrow> bool" where
  "session_ok c \<equiv> server_session_ok (cn_session c)"

fun reading :: "server_op option \<Rightarrow> bool" where
  "reading (Some (Read_length _)) = True"
| "reading (Some (Read_request _)) = True"
| "reading (Some (Write_response _)) = False"
| "reading None = False"

definition session_rank :: "connection \<Rightarrow> nat" where
  "session_rank c = (case ss_pending (cn_session c) of
       Some (Read_length _) \<Rightarrow> 3 | Some (Read_request _) \<Rightarrow> 2 | Some (Write_response _) \<Rightarrow> 1 | None \<Rightarrow> 0)"

definition new_connection :: connection where
  "new_connection = \<lparr>cn_session = ServerSession_run new_server_session, cn_in = [], cn_out = []\<rparr>"

lemma session_ok_new [simp]: "session_ok new_connection"
  by (simp add: server_session_ok_def new_connection_def ServerSession_run_def new_server_session_def)

lemmas session_handlers = ServerSession_onContentLengthReceived_def ServerSession_onRequestReceived_def
  ServerSession_onResponseSent_def ServerSession_onError_def ServerSession_processRequest_def
  received_def put_session_def Let_def

text \<open>Every step, by its label.\<close>

lemma session_step_silent:
  assumes "session_ok c" "session_step x P accepts faults (c, e, fs) None (r, e', fs')"
  shows "e' = e \<and> fs' = fs \<and> (\<exists>c'. r = Inr c' \<and> session_ok c' \<and> session_rank c' < session_rank c)"
  using assms(2)
  by (rule session_silentE)
    (use assms(1) in \<open>auto simp: server_session_ok_def session_rank_def session_handlers\<close>)

text \<open>What a callback that has nothing to do with the database changes, in four cases.\<close>

lemma server_silent_effect:
  assumes ok: "session_ok c" and step: "session_step x P accepts faults (c, e, fs) None (Inr c', e', fs')"
  obtains (read) "reading (ss_pending (cn_session c))" "reading (ss_pending (cn_session c'))" "cn_out c' = cn_out c"
      "ss_requestBuffer (cn_session c') @ cn_in c' = ss_requestBuffer (cn_session c) @ cn_in c"
    | (read_failed) message where "reading (ss_pending (cn_session c))" "faults message"
      "ss_pending (cn_session c') = None" "cn_out c' = cn_out c"
    | (written) bs wire where "ss_pending (cn_session c) = Some (Write_response bs)" "on_the_wire accepts bs wire"
      "ss_pending (cn_session c') = None" "cn_out c' = cn_out c @ wire"
    | (write_failed) bs wire message j where "ss_pending (cn_session c) = Some (Write_response bs)"
      "on_the_wire accepts bs wire" "faults message"
      "ss_pending (cn_session c') = None" "cn_out c' = cn_out c @ take j wire"
  using step
  by (rule session_silentE)
    (use ok in \<open>auto simp: session_handlers server_session_ok_def split: if_splits
      intro: read read_failed written write_failed\<close>)

lemma session_step_request:
  assumes "session_ok c" "session_step x P accepts faults (c, e, fs) (Some request) (r, e', fs')"
  obtains h n where "Database_handle x P request e fs = (h, e', fs')"
    "ss_pending (cn_session c) = Some (Read_request n)" "n \<le> length (cn_in c)"
    "request_deserialize (ss_requestBuffer (cn_session c) @ take n (cn_in c)) default_request = Inr request"
    "r = rmap (\<lambda>response. put_session n [] c ((cn_session c)\<lparr>ss_requestBuffer := [],
        ss_pending := Some (Write_response (response_serialize response))\<rparr>)) h"
proof (rule session_requestE [OF assms(2)])
  fix n r'
  assume a: "r = rmap (put_session n [] c) r'" "ss_pending (cn_session c) = Some (Read_request n)"
    "n \<le> length (cn_in c)"
    "request_deserialize (ss_requestBuffer (cn_session c) @ take n (cn_in c)) default_request = Inr request"
    "(r', e', fs') = ServerSession_onRequestReceived x P None n (received (take n (cn_in c)) (cn_session c)) e fs"
  obtain h e1 fs1 where "Database_handle x P request e fs = (h, e1, fs1)"
    by (cases "Database_handle x P request e fs") auto
  then show thesis
    using a by (intro that [of h n]) (cases h; simp add: session_handlers)+
qed

end
