(* ===== verification/ClientSession.thy ===== *)
theory ClientSession
  imports ServerSession
begin

text \<open>
  src/Networking/ClientSession.h and ClientSession.cpp: one request of a client. A session is a
  chain of callbacks as on the server: resolve, connect, send the request, read four bytes, read
  as many bytes as they announce. Its end is the promise, which a caller waits for.
\<close>

section \<open>The session\<close>

type_synonym endpoint = string

datatype client_op = Resolve | Connect endpoint | Send bytes | Receive_length nat | Receive_response nat

record client_session =
  cs_request :: request
  cs_contentLength :: u32
  cs_buffer :: bytes
  cs_promise :: "response result option"
  cs_pending :: "client_op option"
  cs_errors :: "string list"

definition new_client_session :: "request \<Rightarrow> client_session" where
  "new_client_session request =
     \<lparr>cs_request = request, cs_contentLength = 0, cs_buffer = [], cs_promise = None,
      cs_pending = None, cs_errors = []\<rparr>"

text \<open>A promise takes one value or exception; a second one throws.\<close>

definition promise_set :: "response result \<Rightarrow> client_session \<Rightarrow> client_session result" where
  "promise_set outcome cs =
     (case cs_promise cs of
        None \<Rightarrow> Inr (cs\<lparr>cs_promise := Some outcome\<rparr>)
      | Some _ \<Rightarrow> Inl Future_error)"

text \<open>\<open>started\<close>: starting the resolver may throw.\<close>

definition ClientSession_run :: "unit result \<Rightarrow> client_session \<Rightarrow> client_session result" where
  "ClientSession_run started cs =
     (case started of
        Inr _ \<Rightarrow> Inr (cs\<lparr>cs_pending := Some Resolve\<rparr>)
      | Inl err \<Rightarrow> if is_std_exception err then promise_set (Inl err) cs else Inl err)"

definition ClientSession_onError :: "string \<Rightarrow> client_session \<Rightarrow> client_session result" where
  "ClientSession_onError message cs =
     promise_set (Inl (Runtime_error message)) (cs\<lparr>cs_errors := cs_errors cs @ [message]\<rparr>)"

definition ClientSession_onResolve ::
    "boost_error \<Rightarrow> endpoint list \<Rightarrow> client_session \<Rightarrow> client_session result" where
  "ClientSession_onResolve error it cs =
     (case error of
        Some message \<Rightarrow> ClientSession_onError message cs
      | None \<Rightarrow>
          (case it of
             [] \<Rightarrow> Inl (Undefined_behaviour ''end iterator'')
           | endpoint # _ \<Rightarrow> Inr (cs\<lparr>cs_pending := Some (Connect endpoint)\<rparr>)))"

definition ClientSession_onConnect :: "boost_error \<Rightarrow> client_session \<Rightarrow> client_session result" where
  "ClientSession_onConnect error cs =
     (case error of
        Some message \<Rightarrow> ClientSession_onError message cs
      | None \<Rightarrow> Inr (cs\<lparr>cs_pending := Some (Send (request_serialize (cs_request cs)))\<rparr>))"

text \<open>\<open>onSend\<close> does not look at the number of bytes that were sent.\<close>

definition ClientSession_onSend :: "boost_error \<Rightarrow> nat \<Rightarrow> client_session \<Rightarrow> client_session result" where
  "ClientSession_onSend error numBytes cs =
     (case error of
        Some message \<Rightarrow> ClientSession_onError message cs
      | None \<Rightarrow> Inr (cs\<lparr>cs_pending := Some (Receive_length 4)\<rparr>))"

definition ClientSession_onContentLengthReceive ::
    "boost_error \<Rightarrow> nat \<Rightarrow> client_session \<Rightarrow> client_session result" where
  "ClientSession_onContentLengthReceive error numBytes cs =
     (case error of
        Some message \<Rightarrow> ClientSession_onError message cs
      | None \<Rightarrow>
          if numBytes \<noteq> 4 then Inl Assertion_failed
          else if length (cs_buffer cs) < 4 then Inl (Undefined_behaviour ''read past the buffer'')
          else
            let contentLength = word_of_bytes (take 4 (cs_buffer cs)) :: u32
            in Inr (cs\<lparr>cs_contentLength := contentLength,
                 cs_pending := Some (Receive_response (unat contentLength))\<rparr>))"

definition default_response :: response where
  "default_response = Response ResponseStatus_UnknownError []"

definition ClientSession_onReceive ::
    "boost_error \<Rightarrow> nat \<Rightarrow> client_session \<Rightarrow> client_session result" where
  "ClientSession_onReceive error numBytes cs =
     (case error of
        Some message \<Rightarrow> ClientSession_onError message cs
      | None \<Rightarrow>
          if numBytes \<noteq> unat (cs_contentLength cs) then Inl Assertion_failed
          else
            rbind (response_deserialize (cs_buffer cs) default_response) (\<lambda>response.
              promise_set (Inr response) (cs\<lparr>cs_buffer := []\<rparr>)))"

text \<open>An error ends a session in the same way wherever it occurs.\<close>

lemma client_failures:
  "ClientSession_onResolve (Some message) it cs = ClientSession_onError message cs"
  "ClientSession_onConnect (Some message) cs = ClientSession_onError message cs"
  "ClientSession_onSend (Some message) n cs = ClientSession_onError message cs"
  "ClientSession_onContentLengthReceive (Some message) n cs = ClientSession_onError message cs"
  "ClientSession_onReceive (Some message) n cs = ClientSession_onError message cs"
  by (simp_all add: ClientSession_onResolve_def ClientSession_onConnect_def ClientSession_onSend_def
      ClientSession_onContentLengthReceive_def ClientSession_onReceive_def)

section \<open>A session with its socket\<close>

record client =
  cl_session :: client_session
  cl_in :: bytes
  cl_out :: bytes

definition completed :: "bytes \<Rightarrow> client_session \<Rightarrow> client_session" where
  "completed bs cs = cs\<lparr>cs_buffer := cs_buffer cs @ bs, cs_pending := None\<rparr>"

definition put_client :: "nat \<Rightarrow> bytes \<Rightarrow> client \<Rightarrow> client_session \<Rightarrow> client" where
  "put_client n bs c cs = c\<lparr>cl_session := cs, cl_in := drop n (cl_in c), cl_out := cl_out c @ bs\<rparr>"

text \<open>
  \<open>async_send\<close> sends once: as many bytes as the socket takes at once, from a string that is gone
  when the call returns; if it takes none, some number of whatever the memory holds later.
\<close>

definition sent_at_once :: "(bytes \<Rightarrow> nat \<Rightarrow> bool) \<Rightarrow> bytes \<Rightarrow> bytes \<Rightarrow> bool" where
  "sent_at_once accepts bs sent \<longleftrightarrow>
     (\<exists>k. accepts bs k \<and> length sent \<le> length bs \<and> (0 < k \<longrightarrow> sent = take k bs) \<and> (0 < length bs \<longrightarrow> sent \<noteq> []))"

lemma sent_at_once_whole: "taken_whole accepts bs \<Longrightarrow> sent_at_once accepts bs sent \<longleftrightarrow> sent = bs"
  by (auto simp: sent_at_once_def taken_whole_def)

inductive client_step ::
    "(bytes \<Rightarrow> nat \<Rightarrow> bool) \<Rightarrow> (string \<Rightarrow> bool) \<Rightarrow> client \<Rightarrow> client result \<Rightarrow> bool"
  for accepts faults where
  resolved:
    "cs_pending (cl_session c) = Some Resolve \<Longrightarrow> it \<noteq> [] \<Longrightarrow>
     r = ClientSession_onResolve None it (completed [] (cl_session c)) \<Longrightarrow>
     client_step accepts faults c (rmap (put_client 0 [] c) r)"
| connected:
    "cs_pending (cl_session c) = Some (Connect ep) \<Longrightarrow>
     r = ClientSession_onConnect None (completed [] (cl_session c)) \<Longrightarrow>
     client_step accepts faults c (rmap (put_client 0 [] c) r)"
| sent:
    "cs_pending (cl_session c) = Some (Send bs) \<Longrightarrow> sent_at_once accepts bs out \<Longrightarrow>
     r = ClientSession_onSend None (length out) (completed [] (cl_session c)) \<Longrightarrow>
     client_step accepts faults c (rmap (put_client 0 out c) r)"
| length_received:
    "cs_pending (cl_session c) = Some (Receive_length n) \<Longrightarrow> n \<le> length (cl_in c) \<Longrightarrow>
     r = ClientSession_onContentLengthReceive None n (completed (take n (cl_in c)) (cl_session c)) \<Longrightarrow>
     client_step accepts faults c (rmap (put_client n [] c) r)"
| response_received:
    "cs_pending (cl_session c) = Some (Receive_response n) \<Longrightarrow> n \<le> length (cl_in c) \<Longrightarrow>
     r = ClientSession_onReceive None n (completed (take n (cl_in c)) (cl_session c)) \<Longrightarrow>
     client_step accepts faults c (rmap (put_client n [] c) r)"
| resolve_failed:
    "cs_pending (cl_session c) = Some Resolve \<Longrightarrow> faults message \<Longrightarrow>
     r = ClientSession_onResolve (Some message) it (completed [] (cl_session c)) \<Longrightarrow>
     client_step accepts faults c (rmap (put_client 0 [] c) r)"
| connect_failed:
    "cs_pending (cl_session c) = Some (Connect ep) \<Longrightarrow> faults message \<Longrightarrow>
     r = ClientSession_onConnect (Some message) (completed [] (cl_session c)) \<Longrightarrow>
     client_step accepts faults c (rmap (put_client 0 [] c) r)"
| send_failed:
    "cs_pending (cl_session c) = Some (Send bs) \<Longrightarrow> faults message \<Longrightarrow>
     r = ClientSession_onSend (Some message) 0 (completed [] (cl_session c)) \<Longrightarrow>
     client_step accepts faults c (rmap (put_client 0 [] c) r)"
| length_receive_failed:
    "cs_pending (cl_session c) = Some (Receive_length n) \<Longrightarrow> faults message \<Longrightarrow> j \<le> n \<Longrightarrow> j \<le> length (cl_in c) \<Longrightarrow>
     r = ClientSession_onContentLengthReceive (Some message) j (completed (take j (cl_in c)) (cl_session c)) \<Longrightarrow>
     client_step accepts faults c (rmap (put_client j [] c) r)"
| receive_failed:
    "cs_pending (cl_session c) = Some (Receive_response n) \<Longrightarrow> faults message \<Longrightarrow> j \<le> n \<Longrightarrow> j \<le> length (cl_in c) \<Longrightarrow>
     r = ClientSession_onReceive (Some message) j (completed (take j (cl_in c)) (cl_session c)) \<Longrightarrow>
     client_step accepts faults c (rmap (put_client j [] c) r)"

inductive_cases client_stepE: "client_step accepts faults c r"

section \<open>Invariant\<close>

definition client_session_ok :: "client_session \<Rightarrow> bool" where
  "client_session_ok cs \<longleftrightarrow>
     (cs_promise cs = None \<longleftrightarrow> cs_pending cs \<noteq> None) \<and>
     (case cs_pending cs of
        Some (Receive_length n) \<Rightarrow> n = 4 \<and> cs_buffer cs = []
      | Some (Receive_response n) \<Rightarrow> length (cs_buffer cs) = 4 \<and>
          cs_contentLength cs = word_of_bytes (cs_buffer cs) \<and> n = unat (cs_contentLength cs)
      | Some _ \<Rightarrow> cs_buffer cs = []
      | None \<Rightarrow> True)"

abbreviation client_ok :: "client \<Rightarrow> bool" where
  "client_ok c \<equiv> client_session_ok (cl_session c)"

definition client_rank :: "client \<Rightarrow> nat" where
  "client_rank c = (case cs_pending (cl_session c) of
       Some Resolve \<Rightarrow> 5 | Some (Connect _) \<Rightarrow> 4 | Some (Send _) \<Rightarrow> 3
     | Some (Receive_length _) \<Rightarrow> 2 | Some (Receive_response _) \<Rightarrow> 1 | None \<Rightarrow> 0)"

lemmas client_handlers = ClientSession_onResolve_def ClientSession_onConnect_def ClientSession_onSend_def
  ClientSession_onContentLengthReceive_def ClientSession_onReceive_def ClientSession_onError_def
  promise_set_def completed_def put_client_def Let_def

lemma client_step_ok:
  assumes "client_ok c" "client_step accepts faults c r"
  shows "\<exists>c'. r = Inr c' \<and> client_ok c' \<and> client_rank c' < client_rank c \<and>
    cs_request (cl_session c') = cs_request (cl_session c)"
  using assms(2)
proof (rule client_stepE)
  fix n
  assume a: "r = rmap (put_client n [] c) (ClientSession_onReceive None n (completed (take n (cl_in c)) (cl_session c)))"
    "cs_pending (cl_session c) = Some (Receive_response n)" "n \<le> length (cl_in c)"
  obtain resp where "response_deserialize (cs_buffer (cl_session c) @ take n (cl_in c)) default_response = Inr resp"
    using response_deserialize_total by blast
  with a assms(1) show ?thesis by (auto simp: client_session_ok_def client_rank_def client_handlers)
qed (use assms(1) in \<open>auto simp: client_session_ok_def client_rank_def client_handlers split: list.splits\<close>)

end
