(* ===== verification/Exchange.thy ===== *)
theory Exchange
  imports ClientSession
begin

text \<open>
  A client session, a server session and the connection between them: two streams of bytes that
  are delivered in order, in pieces of any size and at any time. How many bytes a socket takes at
  once is left open: the bytes that the client sends are those of its request as far as they were
  taken, and the bytes that the server writes those of its response. What the caller of the client
  gets out of its future is what these say.
\<close>

section \<open>The two ends of a connection\<close>

record exchange =
  ex_client :: client
  ex_server :: connection
  ex_engine :: engine
  ex_fs :: fsys

inductive exchange_step ::
    "externals \<Rightarrow> filter_params \<Rightarrow> (bytes \<Rightarrow> nat \<Rightarrow> bool) \<Rightarrow> (string \<Rightarrow> bool) \<Rightarrow> exchange \<Rightarrow> exchange \<Rightarrow> bool"
  for x P accepts faults where
  client_moves:
    "client_step accepts faults (ex_client s) (Inr c) \<Longrightarrow>
     exchange_step x P accepts faults s (s\<lparr>ex_client := c\<rparr>)"
| server_moves:
    "session_step x P accepts faults (ex_server s, ex_engine s, ex_fs s) lab (Inr c, e, fs) \<Longrightarrow>
     exchange_step x P accepts faults s (s\<lparr>ex_server := c, ex_engine := e, ex_fs := fs\<rparr>)"
| delivered_up:
    "cl_out (ex_client s) = a @ b \<Longrightarrow> a \<noteq> [] \<Longrightarrow>
     exchange_step x P accepts faults s
       (s\<lparr>ex_client := (ex_client s)\<lparr>cl_out := b\<rparr>,
          ex_server := (ex_server s)\<lparr>cn_in := cn_in (ex_server s) @ a\<rparr>\<rparr>)"
| delivered_down:
    "cn_out (ex_server s) = a @ b \<Longrightarrow> a \<noteq> [] \<Longrightarrow>
     exchange_step x P accepts faults s
       (s\<lparr>ex_server := (ex_server s)\<lparr>cn_out := b\<rparr>,
          ex_client := (ex_client s)\<lparr>cl_in := cl_in (ex_client s) @ a\<rparr>\<rparr>)"

inductive_cases exchange_stepE: "exchange_step x P accepts faults s t"

text \<open>Both sessions have just been started.\<close>

definition new_client :: "request \<Rightarrow> client" where
  "new_client q = \<lparr>cl_session = (new_client_session q)\<lparr>cs_pending := Some Resolve\<rparr>, cl_in = [], cl_out = []\<rparr>"

definition new_exchange :: "request \<Rightarrow> engine \<Rightarrow> fsys \<Rightarrow> exchange" where
  "new_exchange q e fs =
     \<lparr>ex_client = new_client q, ex_server = new_connection, ex_engine = e, ex_fs = fs\<rparr>"

abbreviation promise_of :: "exchange \<Rightarrow> response result option" where
  "promise_of s \<equiv> cs_promise (cl_session (ex_client s))"

lemma client_ok_new [simp]: "client_ok (new_client q)"
  by (simp add: client_session_ok_def new_client_def new_client_session_def)

lemma ClientSession_run_new: "ClientSession_run (Inr ()) (new_client_session q) = Inr (cl_session (new_client q))"
  by (simp add: ClientSession_run_def new_client_def)

section \<open>Invariant\<close>

text \<open>The bytes on their way up and down, with what the reader has in its buffer.\<close>

definition upstream :: "exchange \<Rightarrow> bytes" where
  "upstream s = ss_requestBuffer (cn_session (ex_server s)) @ cn_in (ex_server s) @ cl_out (ex_client s)"

definition downstream :: "exchange \<Rightarrow> bytes" where
  "downstream s = cs_buffer (cl_session (ex_client s)) @ cl_in (ex_client s) @ cn_out (ex_server s)"

fun before_send :: "client_op option \<Rightarrow> bool" where
  "before_send (Some Resolve) = True"
| "before_send (Some (Connect _)) = True"
| "before_send (Some (Send _)) = True"
| "before_send _ = False"

fun receiving :: "client_op option \<Rightarrow> bool" where
  "receiving (Some (Receive_length _)) = True"
| "receiving (Some (Receive_response _)) = True"
| "receiving _ = False"

text \<open>
  The request that a server reads from the bytes \<open>sent\<close>, and the response that a client reads
  from the bytes \<open>wire\<close>.
\<close>

definition asked :: "bytes \<Rightarrow> request \<Rightarrow> bool" where
  "asked sent q \<longleftrightarrow> (case two_reads sent of
       None \<Rightarrow> False | Some buf \<Rightarrow> request_deserialize buf default_request = Inr q)"

definition answered :: "bytes \<Rightarrow> response \<Rightarrow> bool" where
  "answered wire r \<longleftrightarrow> (case two_reads wire of
       None \<Rightarrow> False | Some buf \<Rightarrow> response_deserialize buf default_response = Inr r)"

text \<open>Of bytes that were taken whole, or of a request that was not sent from freed memory.\<close>

lemma response_serialize_length: "4 \<le> length (response_serialize r)"
proof -
  have "length (take 4 (response_serialize r)) = 4" by (simp add: resp.prefix)
  then show ?thesis by simp
qed

lemma response_serialize_not_Nil [simp]: "response_serialize r \<noteq> []"
  using response_serialize_length [of r] by auto

lemma request_serialize_not_Nil [simp]: "request_serialize q \<noteq> []"
proof
  assume "request_serialize q = []"
  moreover have "length (take 4 (request_serialize q)) = 4" by (simp add: req.prefix)
  ultimately show False by simp
qed

lemma answered_whole:
  assumes "wf_response r" "taken_whole accepts (response_serialize r)" "on_the_wire accepts (response_serialize r) wire"
    "answered wire r'"
  shows "r' = r"
  using assms response_des_ser [OF assms(1)] by (simp add: on_the_wire_whole answered_def resp.two_reads_ser)

lemma asked_own:
  assumes "wf_request q" "sent_at_once accepts (request_serialize q) sent" "\<not> accepts (request_serialize q) 0" "asked sent q'"
  shows "q' = q" "sent = request_serialize q"
proof -
  obtain k where k: "accepts (request_serialize q) k" "sent = take k (request_serialize q)"
    using assms(2,3) by (auto simp: sent_at_once_def)
  from assms(4) obtain buf where buf: "two_reads sent = Some buf" "request_deserialize buf default_request = Inr q'"
    by (auto simp: asked_def split: option.splits)
  note part = req.two_reads_part [OF assms(1) buf(1) [unfolded k(2)]]
  show "q' = q" using part(1) buf(2) request_des_ser [OF assms(1)] by simp
  show "sent = request_serialize q" using part(2) k(2) by simp
qed

text \<open>The response that serving the bytes \<open>sent\<close> gives, and the database after it.\<close>

definition served_for ::
    "externals \<Rightarrow> filter_params \<Rightarrow> engine \<times> fsys \<Rightarrow> bytes \<Rightarrow> engine \<times> fsys \<Rightarrow> bytes \<Rightarrow> bool" where
  "served_for x P before sent db bs \<longleftrightarrow> (\<exists>q r. asked sent q \<and>
     Database_handle x P q (fst before) (snd before) = (Inr r, db) \<and> bs = response_serialize r)"

lemma served_for_Nil [simp]: "\<not> served_for x P before [] db bs"
  by (simp add: served_for_def asked_def)

lemma served_for_own:
  assumes "served_for x P before sent db bs" "wf_request q" "sent_at_once accepts (request_serialize q) sent"
    "\<not> accepts (request_serialize q) 0" "Database_handle x P q (fst before) (snd before) = (Inr r, after)"
  shows "bs = response_serialize r" "db = after" "sent = request_serialize q"
  using assms(1,5) asked_own [OF assms(2-4)] by (fastforce simp: served_for_def)+

text \<open>
  \<open>q\<close> is the request, \<open>before\<close> the database when the exchange starts, \<open>sent\<close> what the client has
  sent so far. The relation between the operations that are pending at the client (\<open>cp\<close>) and at
  the server (\<open>sp\<close>), the promise, the database and the two streams.
\<close>

definition exchange_rel ::
    "externals \<Rightarrow> filter_params \<Rightarrow> (bytes \<Rightarrow> nat \<Rightarrow> bool) \<Rightarrow> (string \<Rightarrow> bool) \<Rightarrow> request \<Rightarrow> engine \<times> fsys \<Rightarrow> bytes \<Rightarrow>
     client_op option \<Rightarrow> response result option \<Rightarrow> server_op option \<Rightarrow> engine \<times> fsys \<Rightarrow> bytes \<Rightarrow> bytes \<Rightarrow> bool" where
  "exchange_rel x P accepts faults q before sent cp promise sp db up down \<longleftrightarrow>
     (\<forall>bs. cp = Some (Send bs) \<longrightarrow> bs = request_serialize q) \<and>
     (before_send cp \<longrightarrow> sent = []) \<and> (receiving cp \<longrightarrow> sent \<noteq> []) \<and>
     (sent \<noteq> [] \<longrightarrow> sent_at_once accepts (request_serialize q) sent) \<and>
     (reading sp \<longrightarrow> db = before \<and> down = [] \<and> up = sent) \<and>
     (\<forall>bs. sp = Some (Write_response bs) \<longrightarrow> served_for x P before sent db bs \<and> down = []) \<and>
     (sp = None \<longrightarrow> (db = before \<and> down = [] \<and> (\<exists>message. faults message)) \<or>
        (\<exists>bs wire. served_for x P before sent db bs \<and> on_the_wire accepts bs wire \<and>
           (cp \<noteq> None \<longrightarrow> prefix down wire) \<and>
           ((\<forall>message. \<not> faults message) \<longrightarrow> receiving cp \<longrightarrow> down = wire))) \<and>
     (\<forall>r'. promise = Some (Inr r') \<longrightarrow> sp = None \<and>
        (\<exists>bs wire. served_for x P before sent db bs \<and> on_the_wire accepts bs wire \<and> answered wire r')) \<and>
     ((\<forall>message. \<not> faults message) \<longrightarrow> (\<forall>err. promise \<noteq> Some (Inl err)))"

definition exchange_inv ::
    "externals \<Rightarrow> filter_params \<Rightarrow> (bytes \<Rightarrow> nat \<Rightarrow> bool) \<Rightarrow> (string \<Rightarrow> bool) \<Rightarrow> request \<Rightarrow> engine \<times> fsys \<Rightarrow>
     bytes \<Rightarrow> exchange \<Rightarrow> bool" where
  "exchange_inv x P accepts faults q before sent s \<longleftrightarrow>
     client_ok (ex_client s) \<and> session_ok (ex_server s) \<and> cs_request (cl_session (ex_client s)) = q \<and>
     exchange_rel x P accepts faults q before sent (cs_pending (cl_session (ex_client s))) (promise_of s)
       (ss_pending (cn_session (ex_server s))) (ex_engine s, ex_fs s) (upstream s) (downstream s)"

lemma exchange_inv_new: "exchange_inv x P accepts faults q (e, fs) [] (new_exchange q e fs)"
  by (simp add: exchange_inv_def exchange_rel_def new_exchange_def upstream_def downstream_def
      new_client_def new_client_session_def new_connection_def ServerSession_run_def new_server_session_def
      client_session_ok_def server_session_ok_def)

lemma inv_delivered_up:
  assumes "exchange_inv x P accepts faults q before sent s" "cl_out (ex_client s) = a @ b"
  shows "exchange_inv x P accepts faults q before sent (s\<lparr>ex_client := (ex_client s)\<lparr>cl_out := b\<rparr>,
     ex_server := (ex_server s)\<lparr>cn_in := cn_in (ex_server s) @ a\<rparr>\<rparr>)"
  using assms by (simp add: exchange_inv_def upstream_def downstream_def)

lemma inv_delivered_down:
  assumes "exchange_inv x P accepts faults q before sent s" "cn_out (ex_server s) = a @ b"
  shows "exchange_inv x P accepts faults q before sent (s\<lparr>ex_server := (ex_server s)\<lparr>cn_out := b\<rparr>,
     ex_client := (ex_client s)\<lparr>cl_in := cl_in (ex_client s) @ a\<rparr>\<rparr>)"
  using assms by (simp add: exchange_inv_def upstream_def downstream_def)

section \<open>The server's steps\<close>

lemma inv_server_request:
  assumes inv: "exchange_inv x P accepts faults q before sent s"
    and step: "session_step x P accepts faults (ex_server s, ex_engine s, ex_fs s) (Some request) (Inr c, e, fs)"
  shows "exchange_inv x P accepts faults q before sent (s\<lparr>ex_server := c, ex_engine := e, ex_fs := fs\<rparr>)"
proof -
  let ?ss = "cn_session (ex_server s)" and ?cs = "cl_session (ex_client s)"
  have ok: "session_ok (ex_server s)" and rel: "exchange_rel x P accepts faults q before sent (cs_pending ?cs)
      (promise_of s) (ss_pending ?ss) (ex_engine s, ex_fs s) (upstream s) (downstream s)"
    using inv by (simp_all add: exchange_inv_def)
  from step obtain h n where h: "Database_handle x P request (ex_engine s) (ex_fs s) = (h, e, fs)"
    and p: "ss_pending ?ss = Some (Read_request n)" "n \<le> length (cn_in (ex_server s))"
    and des: "request_deserialize (ss_requestBuffer ?ss @ take n (cn_in (ex_server s))) default_request = Inr request"
    and c: "Inr c = rmap (\<lambda>response. put_session n [] (ex_server s) (?ss\<lparr>ss_requestBuffer := [],
        ss_pending := Some (Write_response (response_serialize response))\<rparr>)) h"
    by (rule session_step_request [OF ok])
  from c obtain r where r: "h = Inr r" "c = put_session n [] (ex_server s) (?ss\<lparr>ss_requestBuffer := [],
      ss_pending := Some (Write_response (response_serialize r))\<rparr>)" by (cases h) simp_all
  have buf: "length (ss_requestBuffer ?ss) = 4" "n = unat (word_of_bytes (ss_requestBuffer ?ss) :: u32)"
    using ok p(1) by (simp_all add: server_session_ok_def)
  have up: "(ex_engine s, ex_fs s) = before" "downstream s = []" "upstream s = sent"
    using rel p(1) by (simp_all add: exchange_rel_def)
  then have "two_reads sent = Some (ss_requestBuffer ?ss @ take n (cn_in (ex_server s)))"
    using two_reads_done [OF buf p(2), of "cl_out (ex_client s)"] by (simp add: upstream_def)
  then have "served_for x P before sent (e, fs) (response_serialize r)"
    using des h r(1) up(1) by (auto simp: served_for_def asked_def)
  then have "exchange_rel x P accepts faults q before sent (cs_pending ?cs) (promise_of s)
      (Some (Write_response (response_serialize r))) (e, fs) up' []" for up'
    using rel p(1) by (auto simp: exchange_rel_def)
  moreover have "downstream (s\<lparr>ex_server := c, ex_engine := e, ex_fs := fs\<rparr>) = []"
    using up(2) by (simp add: downstream_def r(2) put_session_def)
  ultimately show ?thesis
    using inv by (simp add: exchange_inv_def r(2) put_session_def server_session_ok_def)
qed

lemma rel_reading:
  "exchange_rel x P accepts faults q before sent cp promise sp db up down \<Longrightarrow> reading sp \<Longrightarrow> reading sp' \<Longrightarrow>
   exchange_rel x P accepts faults q before sent cp promise sp' db up down"
  by (cases sp rule: reading.cases; cases sp' rule: reading.cases) (auto simp: exchange_rel_def)

lemma rel_reading_failed:
  "exchange_rel x P accepts faults q before sent cp promise sp db up down \<Longrightarrow> reading sp \<Longrightarrow> faults message \<Longrightarrow>
   exchange_rel x P accepts faults q before sent cp promise None db up' down"
  by (cases sp rule: reading.cases) (auto simp: exchange_rel_def)

lemma rel_wrote:
  "exchange_rel x P accepts faults q before sent cp promise (Some (Write_response bs)) db up down \<Longrightarrow>
   on_the_wire accepts bs wire \<Longrightarrow> prefix out wire \<Longrightarrow> (\<forall>message. \<not> faults message) \<longrightarrow> out = wire \<Longrightarrow>
   exchange_rel x P accepts faults q before sent cp promise None db up' (down @ out)"
  by (auto simp: exchange_rel_def)

lemma inv_server_silent:
  assumes inv: "exchange_inv x P accepts faults q before sent s"
    and step: "session_step x P accepts faults (ex_server s, ex_engine s, ex_fs s) None (Inr c, e, fs)"
  shows "exchange_inv x P accepts faults q before sent (s\<lparr>ex_server := c, ex_engine := e, ex_fs := fs\<rparr>)"
proof -
  let ?t = "s\<lparr>ex_server := c, ex_engine := e, ex_fs := fs\<rparr>"
  have ok: "session_ok (ex_server s)" and rel: "exchange_rel x P accepts faults q before sent
      (cs_pending (cl_session (ex_client s))) (promise_of s) (ss_pending (cn_session (ex_server s)))
      (ex_engine s, ex_fs s) (upstream s) (downstream s)"
    using inv by (simp_all add: exchange_inv_def)
  from session_step_silent [OF ok step] have db: "e = ex_engine s" "fs = ex_fs s" "session_ok c" by simp_all
  have "exchange_rel x P accepts faults q before sent (cs_pending (cl_session (ex_client s))) (promise_of s)
      (ss_pending (cn_session c)) (ex_engine s, ex_fs s) (upstream ?t) (downstream ?t)"
    using ok step
  proof (cases rule: server_silent_effect)
    case read
    then have "upstream ?t = upstream s" "downstream ?t = downstream s" by (simp_all add: upstream_def downstream_def)
    with rel_reading [OF rel read(1,2)] show ?thesis by simp
  next
    case (read_failed message)
    then show ?thesis using rel_reading_failed [OF rel read_failed(1,2)] by (simp add: downstream_def)
  next
    case (written bs wire)
    then show ?thesis using rel_wrote [OF rel [unfolded written(1)] written(2) prefix_order.refl] by (simp add: downstream_def)
  next
    case (write_failed bs wire message j)
    then show ?thesis using rel_wrote [OF rel [unfolded write_failed(1)] write_failed(2) take_is_prefix] by (auto simp: downstream_def)
  qed
  with inv db show ?thesis by (simp add: exchange_inv_def)
qed

section \<open>The client's steps\<close>

lemma before_send_simps: "before_send cp \<Longrightarrow> \<not> receiving cp \<and> cp \<noteq> None"
  by (cases cp rule: before_send.cases) auto

lemma receiving_simps: "receiving cp \<Longrightarrow> \<not> before_send cp \<and> cp \<noteq> None \<and> cp \<noteq> Some (Send bs)"
  by (cases cp rule: receiving.cases) auto

text \<open>The relation depends on the client's operation only by the phase the client is in.\<close>

lemma rel_phase:
  assumes "exchange_rel x P accepts faults q before sent cp promise sp db up down"
    "before_send cp' = before_send cp" "receiving cp' = receiving cp" "(cp' = None) = (cp = None)"
    "\<forall>bs. cp' = Some (Send bs) \<longrightarrow> bs = request_serialize q"
  shows "exchange_rel x P accepts faults q before sent cp' promise sp db up down"
  using assms(1) unfolding exchange_rel_def assms(2,3,4) by (elim conjE, intro conjI assms(5))

lemma rel_before_send:
  "exchange_rel x P accepts faults q before sent cp promise sp db up down \<Longrightarrow> before_send cp \<Longrightarrow> before_send cp' \<Longrightarrow>
   (\<forall>bs. cp' = Some (Send bs) \<longrightarrow> bs = request_serialize q) \<Longrightarrow>
   exchange_rel x P accepts faults q before sent cp' promise sp db up down"
  by (erule rel_phase) (auto dest: before_send_simps)

lemma rel_sent:
  "exchange_rel x P accepts faults q before sent (Some (Send bs)) promise sp db up down \<Longrightarrow>
   sent_at_once accepts bs out \<Longrightarrow> out \<noteq> [] \<Longrightarrow>
   exchange_rel x P accepts faults q before out (Some (Receive_length n)) promise sp db (up @ out) down"
  by (auto simp: exchange_rel_def)

lemma rel_receiving:
  "exchange_rel x P accepts faults q before sent cp promise sp db up down \<Longrightarrow> receiving cp \<Longrightarrow> receiving cp' \<Longrightarrow>
   exchange_rel x P accepts faults q before sent cp' promise sp db up down"
  by (erule rel_phase) (auto dest: receiving_simps)

lemma rel_client_failed:
  "exchange_rel x P accepts faults q before sent cp promise sp db up down \<Longrightarrow> faults message \<Longrightarrow>
   exchange_rel x P accepts faults q before sent None (Some (Inl err)) sp db up down"
  unfolding exchange_rel_def by (elim conjE, intro conjI) (simp, simp, simp, blast, blast, blast, blast, simp, blast)

lemma rel_received:
  assumes rel: "exchange_rel x P accepts faults q before sent cp promise sp db up down" and "cp \<noteq> None"
    and read: "two_reads down = Some buf" "response_deserialize buf default_response = Inr r"
  shows "exchange_rel x P accepts faults q before sent None (Some (Inr r)) sp db up' down'"
proof -
  have down: "down \<noteq> []" using read(1) by auto
  then have "\<not> reading sp" "\<And>bs. sp \<noteq> Some (Write_response bs)" using rel by (auto simp: exchange_rel_def)
  then have sp: "sp = None" by (cases sp rule: reading.cases) auto
  with rel down \<open>cp \<noteq> None\<close> obtain bs wire where wire: "served_for x P before sent db bs" "on_the_wire accepts bs wire"
    "prefix down wire" by (auto simp: exchange_rel_def)
  then obtain zs where "wire = down @ zs" by (auto simp: prefix_def)
  then have "two_reads wire = Some buf" using read(1)
    by (auto simp: two_reads_def Let_def split: if_splits)
  then have "answered wire r" using read(2) by (simp add: answered_def)
  with wire(1,2) have wire: "\<exists>bs wire. served_for x P before sent db bs \<and> on_the_wire accepts bs wire \<and> answered wire r"
    by blast
  have "sent \<noteq> [] \<longrightarrow> sent_at_once accepts (request_serialize q) sent" using rel by (simp add: exchange_rel_def)
  with wire show ?thesis unfolding exchange_rel_def sp by auto
qed

text \<open>What a callback of the client changes, in five cases.\<close>

lemma client_effect:
  assumes ok: "client_ok c" and step: "client_step accepts faults c (Inr c')"
  obtains (begun) "before_send (cs_pending (cl_session c))" "before_send (cs_pending (cl_session c'))"
      "\<forall>bs. cs_pending (cl_session c') = Some (Send bs) \<longrightarrow> bs = request_serialize (cs_request (cl_session c))"
      "cs_promise (cl_session c') = cs_promise (cl_session c)"
      "cl_out c' = cl_out c" "cs_buffer (cl_session c') @ cl_in c' = cs_buffer (cl_session c) @ cl_in c"
    | (sent) bs out where "cs_pending (cl_session c) = Some (Send bs)" "cs_pending (cl_session c') = Some (Receive_length 4)"
      "cs_promise (cl_session c') = cs_promise (cl_session c)" "sent_at_once accepts bs out"
      "cl_out c' = cl_out c @ out" "cs_buffer (cl_session c') @ cl_in c' = cs_buffer (cl_session c) @ cl_in c"
    | (read) "receiving (cs_pending (cl_session c))" "receiving (cs_pending (cl_session c'))"
      "cs_promise (cl_session c') = cs_promise (cl_session c)"
      "cl_out c' = cl_out c" "cs_buffer (cl_session c') @ cl_in c' = cs_buffer (cl_session c) @ cl_in c"
    | (received) n resp where "cs_pending (cl_session c) = Some (Receive_response n)" "n \<le> length (cl_in c)"
      "response_deserialize (cs_buffer (cl_session c) @ take n (cl_in c)) default_response = Inr resp"
      "cs_pending (cl_session c') = None" "cs_promise (cl_session c') = Some (Inr resp)"
    | (failed) message where "faults message" "cs_pending (cl_session c') = None"
      "cs_promise (cl_session c') = Some (Inl (Runtime_error message))"
      "cl_out c' = cl_out c" "cs_buffer (cl_session c') @ cl_in c' = cs_buffer (cl_session c) @ cl_in c"
proof -
  have failing: thesis if "faults message" "Inr c' = rmap (put_client j [] c)
      (ClientSession_onError message (completed bs (cl_session c)))" "bs = take j (cl_in c)" for message j bs
    using that by (intro failed [of message]) (auto simp: client_handlers split: option.splits)
  show thesis
    using step
  proof (rule client_stepE)
    fix n
    assume "Inr c' = rmap (put_client n [] c) (ClientSession_onReceive None n (completed (take n (cl_in c)) (cl_session c)))"
      "cs_pending (cl_session c) = Some (Receive_response n)" "n \<le> length (cl_in c)"
    then show thesis
      using ok by (cases "response_deserialize (cs_buffer (cl_session c) @ take n (cl_in c)) default_response")
        (auto simp: client_handlers client_session_ok_def intro: received split: if_splits)
  next
    fix n
    assume "Inr c' = rmap (put_client n [] c)
        (ClientSession_onContentLengthReceive None n (completed (take n (cl_in c)) (cl_session c)))"
      "cs_pending (cl_session c) = Some (Receive_length n)" "n \<le> length (cl_in c)"
    then show thesis
      using ok by (intro read) (auto simp: client_handlers client_session_ok_def split: if_splits)
  next
    fix bs out
    assume "Inr c' = rmap (put_client 0 out c) (ClientSession_onSend None (length out) (completed [] (cl_session c)))"
      "cs_pending (cl_session c) = Some (Send bs)" "sent_at_once accepts bs out"
    then show thesis by (intro sent [of bs out]) (auto simp: client_handlers)
  next
    fix it
    assume "Inr c' = rmap (put_client 0 [] c) (ClientSession_onResolve None it (completed [] (cl_session c)))"
      "cs_pending (cl_session c) = Some Resolve" "it \<noteq> []"
    then show thesis by (intro begun) (auto simp: client_handlers split: list.splits)
  next
    fix ep
    assume "Inr c' = rmap (put_client 0 [] c) (ClientSession_onConnect None (completed [] (cl_session c)))"
      "cs_pending (cl_session c) = Some (Connect ep)"
    then show thesis by (intro begun) (auto simp: client_handlers)
  qed (unfold client_failures, (rule failing, assumption, assumption, simp)+)
qed

lemma inv_client:
  assumes inv: "exchange_inv x P accepts faults q before sent s"
    and step: "client_step accepts faults (ex_client s) (Inr c)"
  shows "\<exists>sent. exchange_inv x P accepts faults q before sent (s\<lparr>ex_client := c\<rparr>)"
proof -
  let ?t = "s\<lparr>ex_client := c\<rparr>" and ?c = "ex_client s"
  have ok: "client_ok ?c" and q: "cs_request (cl_session ?c) = q"
    and rel: "exchange_rel x P accepts faults q before sent (cs_pending (cl_session ?c))
      (promise_of s) (ss_pending (cn_session (ex_server s))) (ex_engine s, ex_fs s) (upstream s) (downstream s)"
    using inv by (simp_all add: exchange_inv_def)
  from client_step_ok [OF ok step] have c: "client_ok c" "cs_request (cl_session c) = q" using q by simp_all
  have "\<exists>sent. exchange_rel x P accepts faults q before sent (cs_pending (cl_session c)) (promise_of ?t)
      (ss_pending (cn_session (ex_server s))) (ex_engine s, ex_fs s) (upstream ?t) (downstream ?t)"
    using ok step
  proof (cases rule: client_effect)
    case begun
    then have "upstream ?t = upstream s" "downstream ?t = downstream s" by (simp_all add: upstream_def downstream_def)
    with rel_before_send [OF rel begun(1,2)] begun(3,4) q show ?thesis by auto
  next
    case (sent bs out)
    then have "upstream ?t = upstream s @ out" "downstream ?t = downstream s" by (simp_all add: upstream_def downstream_def)
    moreover have "bs = request_serialize q" using rel sent(1) by (simp add: exchange_rel_def)
    with sent(4) have "out \<noteq> []" by (auto simp: sent_at_once_def)
    ultimately show ?thesis using rel_sent [OF rel [unfolded sent(1)] sent(4)] sent(2,3) by auto
  next
    case read
    then have "upstream ?t = upstream s" "downstream ?t = downstream s" by (simp_all add: upstream_def downstream_def)
    with rel_receiving [OF rel read(1,2)] read(3) show ?thesis by auto
  next
    case (received n resp)
    have "length (cs_buffer (cl_session ?c)) = 4" "n = unat (word_of_bytes (cs_buffer (cl_session ?c)) :: u32)"
      using ok received(1) by (simp_all add: client_session_ok_def)
    from two_reads_done [OF this received(2), of "cn_out (ex_server s)"]
    have "two_reads (downstream s) = Some (cs_buffer (cl_session ?c) @ take n (cl_in ?c))" by (simp add: downstream_def)
    from rel_received [OF rel _ this received(3)] received(1,4,5) show ?thesis by auto
  next
    case (failed message)
    then have "upstream ?t = upstream s" "downstream ?t = downstream s" by (simp_all add: upstream_def downstream_def)
    with rel_client_failed [OF rel failed(1)] failed(2,3) show ?thesis by auto
  qed
  with c inv show ?thesis by (auto simp: exchange_inv_def)
qed

section \<open>Every step\<close>

definition exchange_good ::
    "externals \<Rightarrow> filter_params \<Rightarrow> (bytes \<Rightarrow> nat \<Rightarrow> bool) \<Rightarrow> (string \<Rightarrow> bool) \<Rightarrow> request \<Rightarrow> engine \<times> fsys \<Rightarrow>
     exchange \<Rightarrow> bool" where
  "exchange_good x P accepts faults q before s \<longleftrightarrow> (\<exists>sent. exchange_inv x P accepts faults q before sent s)"

lemma exchange_good_new: "exchange_good x P accepts faults q (e, fs) (new_exchange q e fs)"
  unfolding exchange_good_def using exchange_inv_new by blast

lemma exchange_good_step:
  assumes "exchange_good x P accepts faults q before s" "exchange_step x P accepts faults s t"
  shows "exchange_good x P accepts faults q before t"
proof -
  from assms(1) obtain sent where inv: "exchange_inv x P accepts faults q before sent s" by (auto simp: exchange_good_def)
  from assms(2) show ?thesis
  proof (rule exchange_stepE)
    fix lab c e fs
    assume "t = s\<lparr>ex_server := c, ex_engine := e, ex_fs := fs\<rparr>"
      "session_step x P accepts faults (ex_server s, ex_engine s, ex_fs s) lab (Inr c, e, fs)"
    then show ?thesis
      using inv_server_silent [OF inv] inv_server_request [OF inv] unfolding exchange_good_def by (cases lab) (simp, blast)+
  qed (use inv in \<open>auto simp: exchange_good_def intro: inv_client inv_delivered_up inv_delivered_down\<close>)
qed

interpretation exchange: invariant_system "exchange_step x P accepts faults" "exchange_good x P accepts faults q before"
    for x P accepts faults q before
  by unfold_locales (rule exchange_good_step)

text \<open>What the invariant says of the database and of the promise.\<close>

lemma exchange_good_database:
  assumes "exchange_good x P accepts faults q before s"
  shows "((ex_engine s, ex_fs s) \<noteq> before \<or> (\<exists>r'. promise_of s = Some (Inr r')) \<longrightarrow>
      (\<exists>sent q' r. sent_at_once accepts (request_serialize q) sent \<and> asked sent q' \<and>
         Database_handle x P q' (fst before) (snd before) = (Inr r, ex_engine s, ex_fs s) \<and>
         (\<forall>r'. promise_of s = Some (Inr r') \<longrightarrow>
            (\<exists>wire. on_the_wire accepts (response_serialize r) wire \<and> answered wire r'))))"
    and "\<forall>message. \<not> faults message \<Longrightarrow> promise_of s \<noteq> Some (Inl err)"
proof -
  from assms obtain sent where rel: "exchange_rel x P accepts faults q before sent (cs_pending (cl_session (ex_client s)))
      (promise_of s) (ss_pending (cn_session (ex_server s))) (ex_engine s, ex_fs s) (upstream s) (downstream s)"
    by (auto simp: exchange_good_def exchange_inv_def)
  show "promise_of s \<noteq> Some (Inl err)" if "\<forall>message. \<not> faults message"
    using rel that by (auto simp: exchange_rel_def)
  show "(ex_engine s, ex_fs s) \<noteq> before \<or> (\<exists>r'. promise_of s = Some (Inr r')) \<longrightarrow>
      (\<exists>sent q' r. sent_at_once accepts (request_serialize q) sent \<and> asked sent q' \<and>
         Database_handle x P q' (fst before) (snd before) = (Inr r, ex_engine s, ex_fs s) \<and>
         (\<forall>r'. promise_of s = Some (Inr r') \<longrightarrow>
            (\<exists>wire. on_the_wire accepts (response_serialize r) wire \<and> answered wire r')))"
  proof
    assume *: "(ex_engine s, ex_fs s) \<noteq> before \<or> (\<exists>r'. promise_of s = Some (Inr r'))"
    have "\<exists>bs. served_for x P before sent (ex_engine s, ex_fs s) bs \<and> (\<forall>r'. promise_of s = Some (Inr r') \<longrightarrow>
        (\<exists>wire. on_the_wire accepts bs wire \<and> answered wire r'))"
    proof (cases "\<exists>r'. promise_of s = Some (Inr r')")
      case True
      then obtain r' where "promise_of s = Some (Inr r')" by blast
      with rel show ?thesis by (simp add: exchange_rel_def)
    next
      case False
      with * have "(ex_engine s, ex_fs s) \<noteq> before" by simp
      with rel False show ?thesis unfolding exchange_rel_def
        by (cases "ss_pending (cn_session (ex_server s))" rule: reading.cases) (simp, simp, blast, blast)
    qed
    then obtain q' r where "asked sent q'" "Database_handle x P q' (fst before) (snd before) = (Inr r, ex_engine s, ex_fs s)"
      "\<forall>r'. promise_of s = Some (Inr r') \<longrightarrow> (\<exists>wire. on_the_wire accepts (response_serialize r) wire \<and> answered wire r')"
      by (auto simp: served_for_def)
    moreover from this(1) have "sent_at_once accepts (request_serialize q) sent"
      using rel by (auto simp: exchange_rel_def asked_def)
    ultimately show "\<exists>sent q' r. sent_at_once accepts (request_serialize q) sent \<and> asked sent q' \<and>
         Database_handle x P q' (fst before) (snd before) = (Inr r, ex_engine s, ex_fs s) \<and>
         (\<forall>r'. promise_of s = Some (Inr r') \<longrightarrow>
            (\<exists>wire. on_the_wire accepts (response_serialize r) wire \<and> answered wire r'))" by blast
  qed
qed

section \<open>A bound\<close>

text \<open>
  The socket takes at least one byte of the request at once: then what the client sends is of its
  own request, and so is what the server makes of it.
\<close>

definition exchange_own ::
    "externals \<Rightarrow> filter_params \<Rightarrow> (bytes \<Rightarrow> nat \<Rightarrow> bool) \<Rightarrow> (string \<Rightarrow> bool) \<Rightarrow> request \<Rightarrow> engine \<times> fsys \<Rightarrow>
     response \<Rightarrow> engine \<times> fsys \<Rightarrow> exchange \<Rightarrow> bool" where
  "exchange_own x P accepts faults q before r after s \<longleftrightarrow>
     wf_request q \<and> \<not> accepts (request_serialize q) 0 \<and>
     Database_handle x P q (fst before) (snd before) = (Inr r, after) \<and> exchange_good x P accepts faults q before s"

lemma exchange_own_step:
  "exchange_own x P accepts faults q before r after s \<Longrightarrow> exchange_step x P accepts faults s t \<Longrightarrow>
   exchange_own x P accepts faults q before r after t"
  unfolding exchange_own_def by (blast intro: exchange_good_step)

lemma exchange_own_new:
  assumes "wf_request q" "\<not> accepts (request_serialize q) 0" "Database_handle x P q e fs = (Inr r, e1, fs1)"
  shows "exchange_own x P accepts faults q (e, fs) r (e1, fs1) (new_exchange q e fs)"
  using assms exchange_good_new by (simp add: exchange_own_def)

text \<open>The relation, for a request and a response that are the exchange's own.\<close>

lemma exchange_ownE:
  assumes "exchange_own x P accepts faults q before r after s"
  obtains sent where
    "exchange_rel x P accepts faults q before sent (cs_pending (cl_session (ex_client s))) (promise_of s)
       (ss_pending (cn_session (ex_server s))) (ex_engine s, ex_fs s) (upstream s) (downstream s)"
    "client_ok (ex_client s)" "session_ok (ex_server s)"
    "\<forall>db bs. served_for x P before sent db bs \<longrightarrow> bs = response_serialize r \<and> db = after \<and> sent = request_serialize q"
proof -
  from assms obtain sent where own: "wf_request q" "\<not> accepts (request_serialize q) 0"
    "Database_handle x P q (fst before) (snd before) = (Inr r, after)" and inv: "exchange_inv x P accepts faults q before sent s"
    by (auto simp: exchange_own_def exchange_good_def)
  have "bs = response_serialize r \<and> db = after \<and> sent = request_serialize q" if served: "served_for x P before sent db bs" for db bs
  proof -
    have "sent_at_once accepts (request_serialize q) sent"
      using inv served by (auto simp: exchange_inv_def exchange_rel_def)
    from served_for_own [OF served own(1) this own(2,3)] show ?thesis by simp
  qed
  with inv show thesis by (intro that [of sent]) (simp_all add: exchange_inv_def)
qed

definition exchange_bound :: "request \<Rightarrow> response \<Rightarrow> exchange \<Rightarrow> nat" where
  "exchange_bound q r s =
     (client_rank (ex_client s) + session_rank (ex_server s)) *
       Suc (length (request_serialize q) + length (response_serialize r)) +
     length (cl_out (ex_client s)) + length (cn_out (ex_server s))"

lemma client_step_out:
  assumes "client_ok c" "client_step accepts faults c (Inr c')"
    "\<forall>bs. cs_pending (cl_session c) = Some (Send bs) \<longrightarrow> bs = request_serialize q"
  shows "length (cl_out c') \<le> length (cl_out c) + length (request_serialize q)"
  using assms(1,2)
proof (cases rule: client_effect)
  case (received n resp)
  then show ?thesis
    using assms(1,2) by (auto elim!: client_stepE simp: client_handlers client_session_ok_def split: sum.splits)
qed (use assms(3) in \<open>auto simp: sent_at_once_def\<close>)

lemma session_step_out:
  assumes "session_ok c" "session_step x P accepts faults (c, e, fs) lab (Inr c', e', fs')"
    "\<forall>bs. ss_pending (cn_session c) = Some (Write_response bs) \<longrightarrow> bs = response_serialize r"
  shows "length (cn_out c') \<le> length (cn_out c) + length (response_serialize r)"
proof (cases lab)
  case None
  from assms(1) assms(2) [unfolded None] show ?thesis
    by (cases rule: server_silent_effect) (use assms(3) in \<open>auto dest: on_the_wire_length\<close>)
next
  case (Some q)
  from assms(2) [unfolded Some] obtain h n where "Inr c' = rmap (\<lambda>response. put_session n [] c ((cn_session c)\<lparr>ss_requestBuffer := [],
        ss_pending := Some (Write_response (response_serialize response))\<rparr>)) h"
    by (rule session_step_request [OF assms(1)])
  then show ?thesis by (cases h) (auto simp: put_session_def)
qed

lemma session_step_rank:
  assumes "session_ok c" "session_step x P accepts faults (c, e, fs) lab (Inr c', e', fs')"
  shows "session_rank c' < session_rank c"
proof (cases lab)
  case None
  then show ?thesis using session_step_silent [OF assms(1)] assms(2) by blast
next
  case (Some q)
  from assms(2) [unfolded Some] obtain h n where "ss_pending (cn_session c) = Some (Read_request n)"
    "Inr c' = rmap (\<lambda>response. put_session n [] c ((cn_session c)\<lparr>ss_requestBuffer := [],
        ss_pending := Some (Write_response (response_serialize response))\<rparr>)) h"
    by (rule session_step_request [OF assms(1)])
  then show ?thesis by (cases h) (auto simp: session_rank_def put_session_def)
qed

lemma less_weight: "(a' :: nat) < a \<Longrightarrow> o' \<le> ou + k \<Longrightarrow> (a' + b) * Suc k + o' < (a + b) * Suc k + ou"
proof -
  assume "a' < a" and o': "o' \<le> ou + k"
  then have "(a' + b + 1) * Suc k \<le> (a + b) * Suc k" by (intro mult_le_mono1) simp
  with o' show ?thesis by simp
qed

lemma exchange_bound_step:
  assumes "exchange_own x P accepts faults q before r after s" "exchange_step x P accepts faults s t"
  shows "exchange_bound q r t < exchange_bound q r s"
proof -
  let ?Q = "length (request_serialize q)" and ?R = "length (response_serialize r)"
  from assms(1) obtain sent where
    rel: "exchange_rel x P accepts faults q before sent (cs_pending (cl_session (ex_client s))) (promise_of s)
       (ss_pending (cn_session (ex_server s))) (ex_engine s, ex_fs s) (upstream s) (downstream s)"
    and inv: "client_ok (ex_client s)" "session_ok (ex_server s)"
    and own: "\<forall>db bs. served_for x P before sent db bs \<longrightarrow> bs = response_serialize r \<and> db = after \<and> sent = request_serialize q"
    by (rule exchange_ownE)
  have send: "\<forall>bs. cs_pending (cl_session (ex_client s)) = Some (Send bs) \<longrightarrow> bs = request_serialize q"
    and wr: "\<forall>bs. ss_pending (cn_session (ex_server s)) = Some (Write_response bs) \<longrightarrow> bs = response_serialize r"
    using rel own unfolding exchange_rel_def by blast+
  from assms(2) show ?thesis
  proof (rule exchange_stepE)
    fix c
    assume t: "t = s\<lparr>ex_client := c\<rparr>" and step: "client_step accepts faults (ex_client s) (Inr c)"
    have "client_rank c < client_rank (ex_client s)" using client_step_ok [OF inv(1) step] by simp
    moreover have "length (cl_out c) \<le> length (cl_out (ex_client s)) + (?Q + ?R)"
      using client_step_out [OF inv(1) step send] by simp
    ultimately show ?thesis
      using less_weight [of "client_rank c" "client_rank (ex_client s)" "length (cl_out c)" "length (cl_out (ex_client s))"
          "?Q + ?R" "session_rank (ex_server s)"]
      by (simp add: exchange_bound_def t)
  next
    fix lab c e fs
    assume t: "t = s\<lparr>ex_server := c, ex_engine := e, ex_fs := fs\<rparr>"
      and step: "session_step x P accepts faults (ex_server s, ex_engine s, ex_fs s) lab (Inr c, e, fs)"
    have "length (cn_out c) \<le> length (cn_out (ex_server s)) + (?Q + ?R)"
      using session_step_out [OF inv(2) step wr] by simp
    then show ?thesis
      using session_step_rank [OF inv(2) step]
        less_weight [of "session_rank c" "session_rank (ex_server s)" "length (cn_out c)" "length (cn_out (ex_server s))"
          "?Q + ?R" "client_rank (ex_client s)"]
      by (simp add: exchange_bound_def t add.commute)
  next
    fix a b
    assume "t = s\<lparr>ex_client := (ex_client s)\<lparr>cl_out := b\<rparr>, ex_server := (ex_server s)\<lparr>cn_in := cn_in (ex_server s) @ a\<rparr>\<rparr>"
      "cl_out (ex_client s) = a @ b" "a \<noteq> []"
    then show ?thesis by (simp add: exchange_bound_def client_rank_def session_rank_def)
  next
    fix a b
    assume "t = s\<lparr>ex_server := (ex_server s)\<lparr>cn_out := b\<rparr>, ex_client := (ex_client s)\<lparr>cl_in := cl_in (ex_client s) @ a\<rparr>\<rparr>"
      "cn_out (ex_server s) = a @ b" "a \<noteq> []"
    then show ?thesis by (simp add: exchange_bound_def client_rank_def session_rank_def)
  qed
qed

interpretation exchange_own: bounded_system "exchange_step x P accepts faults"
    "exchange_own x P accepts faults q before r after" "exchange_bound q r" for x P accepts faults q before r after
  by unfold_locales (auto intro: exchange_own_step exchange_bound_step)

section \<open>Progress\<close>

definition no_faults :: "string \<Rightarrow> bool" where
  "no_faults message \<longleftrightarrow> False"

lemma wire_exists: "accepts bs k \<Longrightarrow> \<exists>wire. on_the_wire accepts bs wire"
  unfolding on_the_wire_def
  by (intro exI [of _ "take k bs @ replicate (length bs - k) 0"] exI [of _ k] exI [of _ "replicate (length bs - k) 0"]) auto

lemma sent_exists:
  assumes "accepts bs k"
  shows "\<exists>out. sent_at_once accepts bs out"
proof -
  have "sent_at_once accepts bs (if k = 0 then bs else take k bs)"
    unfolding sent_at_once_def using assms by (intro exI [of _ k]) auto
  then show ?thesis ..
qed

lemma client_can_move:
  assumes "client_ok (ex_client s)" "client_step accepts faults (ex_client s) r"
  shows "\<exists>t. exchange_step x P accepts faults s t"
proof -
  from client_step_ok [OF assms] obtain c where "r = Inr c" by blast
  with assms(2) show ?thesis using client_moves by blast
qed

lemma server_can_move:
  assumes ok: "session_ok (ex_server s)" and pending: "ss_pending (cn_session (ex_server s)) \<noteq> None"
    and request: "reading (ss_pending (cn_session (ex_server s))) \<longrightarrow>
      upstream s = request_serialize q \<and> cl_out (ex_client s) = [] \<and> (ex_engine s, ex_fs s) = before"
    and q: "wf_request q" and handle: "Database_handle x P q (fst before) (snd before) = (Inr r, after)"
    and response: "\<forall>bs. ss_pending (cn_session (ex_server s)) = Some (Write_response bs) \<longrightarrow> (\<exists>k. accepts bs k)"
  shows "\<exists>t. exchange_step x P accepts faults s t"
proof -
  let ?c = "ex_server s" and ?e = "ex_engine s" and ?fs = "ex_fs s"
  let ?buf = "ss_requestBuffer (cn_session ?c)"
  have moves: ?thesis if "session_step x P accepts faults (?c, ?e, ?fs) None (rc, e, fs)" for rc e fs
    using session_step_silent [OF ok that] that server_moves by blast
  show ?thesis
  proof (cases "ss_pending (cn_session ?c)" rule: reading.cases)
    case (1 n)
    then have "?buf = []" "n = 4" using ok by (simp_all add: server_session_ok_def)
    moreover have "upstream s = request_serialize q" "cl_out (ex_client s) = []" using request 1 by simp_all
    ultimately have "n \<le> length (cn_in ?c)" using req.frame [OF q] by (simp add: upstream_def)
    from session_step.length_read [OF 1 this refl] show ?thesis by (rule moves)
  next
    case (2 n)
    then have buf: "length ?buf = 4" "n = unat (word_of_bytes ?buf :: u32)" and db: "(?e, ?fs) = before"
      and up: "?buf @ cn_in ?c = request_serialize q"
      using ok request by (auto simp: server_session_ok_def upstream_def)
    then have "?buf = take 4 (request_serialize q)" by (metis append_eq_conv_conj)
    then have "n = unat (rq_contentLength q)" using buf(2) req.split_off(1) [OF q, of "[]"] by simp
    then have n: "n = length (cn_in ?c)" using req.frame [OF q] up buf(1) by (metis add_left_cancel length_append)
    then have des: "request_deserialize (?buf @ take n (cn_in ?c)) default_request = Inr q"
      using up request_des_ser [OF q] by simp
    obtain ss where "ServerSession_onRequestReceived x P None n (received (take n (cn_in ?c)) (cn_session ?c)) ?e ?fs =
        (Inr ss, fst after, snd after)"
      using des handle db by (auto simp: session_handlers)
    from session_step.request_read [OF 2 _ des this [symmetric]] n
    have "session_step x P accepts faults (?c, ?e, ?fs) (Some q) (Inr (put_session n [] ?c ss), fst after, snd after)" by simp
    then show ?thesis using server_moves by blast
  next
    case (3 bs)
    then obtain wire where "on_the_wire accepts bs wire" using response wire_exists by blast
    from session_step.response_sent [OF 3 this refl] show ?thesis by (rule moves)
  qed (use pending in simp)
qed

text \<open>A client with a frame before it, of which the first four bytes may be in its buffer.\<close>

lemma receiver_can_move:
  assumes ok: "client_ok (ex_client s)" and receiving: "receiving (cs_pending (cl_session (ex_client s)))"
    and down: "two_reads (downstream s) \<noteq> None" "cn_out (ex_server s) = []"
  shows "\<exists>t. exchange_step x P accepts faults s t"
proof -
  let ?c = "ex_client s"
  have down: "two_reads (cs_buffer (cl_session ?c) @ cl_in ?c) \<noteq> None" using down by (simp add: downstream_def)
  show ?thesis
  proof (cases "cs_pending (cl_session ?c)" rule: receiving.cases)
    case (1 n)
    then have "cs_buffer (cl_session ?c) = []" "n = 4" using ok by (simp_all add: client_session_ok_def)
    with down have "n \<le> length (cl_in ?c)" by (auto simp: two_reads_def Let_def split: if_splits)
    from client_step.length_received [OF 1 this refl] show ?thesis by (rule client_can_move [OF ok])
  next
    case (2 n)
    then have buf: "length (cs_buffer (cl_session ?c)) = 4" "n = unat (word_of_bytes (cs_buffer (cl_session ?c)) :: u32)"
      using ok by (simp_all add: client_session_ok_def)
    then have "n \<le> length (cl_in ?c)" using down by (auto simp: two_reads_def Let_def split: if_splits)
    from client_step.response_received [OF 2 this refl] show ?thesis by (rule client_can_move [OF ok])
  qed (use receiving in simp_all)
qed

text \<open>Four bytes of the response are enough to know where it ends.\<close>

lemma two_reads_wire:
  assumes "wf_response r" "on_the_wire accepts (response_serialize r) wire" "\<forall>k. accepts (response_serialize r) k \<longrightarrow> 4 \<le> k"
  shows "two_reads wire \<noteq> None"
proof -
  from assms(2,3) obtain k junk where "4 \<le> k" "wire = take k (response_serialize r) @ junk" "length wire = length (response_serialize r)"
    by (auto simp: on_the_wire_def)
  then have "take 4 wire = take 4 (response_serialize r)" "length wire = 4 + unat (rs_contentLength r)"
    using resp.frame [OF assms(1)] by (simp_all add: min_def)
  then show ?thesis using resp.split_off(1) [OF assms(1), of "[]"] by (simp add: two_reads_def Let_def)
qed

text \<open>
  Without errors an exchange can go on until the promise is set, unless a request was sent in part,
  or fewer than four bytes of a response.
\<close>

lemma receiving_progress:
  assumes own: "exchange_own x P accepts no_faults q before r after s" and r: "wf_response r"
    and sock: "\<forall>k. accepts (request_serialize q) k \<longrightarrow> length (request_serialize q) \<le> k"
      "\<forall>k. accepts (response_serialize r) k \<longrightarrow> 4 \<le> k" "\<exists>k. accepts (response_serialize r) k"
    and receiving: "receiving (cs_pending (cl_session (ex_client s)))"
  shows "\<exists>t. exchange_step x P accepts no_faults s t"
proof -
  let ?c = "ex_client s" and ?sv = "ex_server s"
  from own obtain sent where
    rel: "exchange_rel x P accepts no_faults q before sent (cs_pending (cl_session ?c)) (promise_of s)
       (ss_pending (cn_session ?sv)) (ex_engine s, ex_fs s) (upstream s) (downstream s)"
    and ok: "client_ok ?c" "session_ok ?sv"
    and served: "\<forall>db bs. served_for x P before sent db bs \<longrightarrow> bs = response_serialize r \<and> db = after \<and> sent = request_serialize q"
    by (rule exchange_ownE)
  have q: "wf_request q" "\<not> accepts (request_serialize q) 0" "Database_handle x P q (fst before) (snd before) = (Inr r, after)"
    using own by (simp_all add: exchange_own_def)
  consider (up) "cl_out ?c \<noteq> []" | (down) "cn_out ?sv \<noteq> []" | (drained) "cl_out ?c = []" "cn_out ?sv = []" by blast
  then show ?thesis
  proof cases
    case up
    then show ?thesis using delivered_up [of s "cl_out ?c" "[]"] by fastforce
  next
    case down
    then show ?thesis using delivered_down [of s "cn_out ?sv" "[]"] by fastforce
  next
    case drained
    show ?thesis
    proof (cases "ss_pending (cn_session ?sv) = None")
      case True
      then obtain bs wire where "served_for x P before sent (ex_engine s, ex_fs s) bs" "on_the_wire accepts bs wire" "downstream s = wire"
        using rel receiving by (auto simp: exchange_rel_def no_faults_def)
      moreover from this(1) served have "bs = response_serialize r" by blast
      ultimately have "two_reads (downstream s) \<noteq> None" using two_reads_wire [of r accepts wire, OF r _ sock(2)] by simp
      then show ?thesis by (rule receiver_can_move [OF ok(1) receiving _ drained(2)])
    next
      case False
      have "sent = request_serialize q"
        using rel receiving q(2) sock(1) by (auto simp: exchange_rel_def sent_at_once_def)
      then have "reading (ss_pending (cn_session ?sv)) \<longrightarrow> upstream s = request_serialize q \<and> cl_out ?c = [] \<and>
          (ex_engine s, ex_fs s) = before"
        using rel drained(1) by (auto simp: exchange_rel_def)
      moreover have "\<forall>bs. ss_pending (cn_session ?sv) = Some (Write_response bs) \<longrightarrow> (\<exists>k. accepts bs k)"
        using rel served sock(3) unfolding exchange_rel_def by blast
      ultimately show ?thesis using server_can_move [OF ok(2) False _ q(1,3)] by blast
    qed
  qed
qed

lemma exchange_progress:
  assumes own: "exchange_own x P accepts no_faults q before r after s" and r: "wf_response r"
    and sock: "\<exists>k. accepts (request_serialize q) k" "\<forall>k. accepts (request_serialize q) k \<longrightarrow> length (request_serialize q) \<le> k"
      "\<forall>k. accepts (response_serialize r) k \<longrightarrow> 4 \<le> k" "\<exists>k. accepts (response_serialize r) k"
    and "promise_of s = None"
  shows "\<exists>t. exchange_step x P accepts no_faults s t"
proof -
  let ?c = "ex_client s"
  from own obtain sent where ok: "client_ok ?c" and send: "\<forall>bs. cs_pending (cl_session ?c) = Some (Send bs) \<longrightarrow> bs = request_serialize q"
    by (auto simp: exchange_own_def exchange_good_def exchange_inv_def exchange_rel_def)
  have pending: "cs_pending (cl_session ?c) \<noteq> None" using ok assms(7) by (simp add: client_session_ok_def)
  show ?thesis
  proof (cases "receiving (cs_pending (cl_session ?c))")
    case False
    with pending show ?thesis
    proof (cases "cs_pending (cl_session ?c)" rule: before_send.cases)
      case 1
      from client_step.resolved [OF this not_Cons_self2 refl] show ?thesis by (rule client_can_move [OF ok])
    next
      case (2 ep)
      from client_step.connected [OF this refl] show ?thesis by (rule client_can_move [OF ok])
    next
      case (3 bs)
      with send sock(1) obtain out where "sent_at_once accepts bs out" using sent_exists by blast
      from client_step.sent [OF 3 this refl] show ?thesis by (rule client_can_move [OF ok])
    qed auto
  qed (rule receiving_progress [OF own r sock(2-4)])
qed

text \<open>An exchange both of whose messages are taken whole.\<close>

definition exchange_whole ::
    "externals \<Rightarrow> filter_params \<Rightarrow> (bytes \<Rightarrow> nat \<Rightarrow> bool) \<Rightarrow> request \<Rightarrow> engine \<times> fsys \<Rightarrow>
     response \<Rightarrow> engine \<times> fsys \<Rightarrow> exchange \<Rightarrow> bool" where
  "exchange_whole x P accepts q before r after s \<longleftrightarrow>
     wf_response r \<and> taken_whole accepts (request_serialize q) \<and> taken_whole accepts (response_serialize r) \<and>
     exchange_own x P accepts no_faults q before r after s"

interpretation exchange_live: live_system "exchange_step x P accepts no_faults"
    "exchange_whole x P accepts q before r after" "exchange_bound q r" "\<lambda>s. promise_of s \<noteq> None"
    for x P accepts q before r after
proof
  fix s t
  assume "exchange_whole x P accepts q before r after s"
  then have own: "exchange_own x P accepts no_faults q before r after s" and whole: "wf_response r"
    "taken_whole accepts (request_serialize q)" "taken_whole accepts (response_serialize r)"
    by (simp_all add: exchange_whole_def)
  show "exchange_step x P accepts no_faults s t \<Longrightarrow> exchange_whole x P accepts q before r after t"
    using exchange_own_step [OF own] whole by (simp add: exchange_whole_def)
  show "exchange_step x P accepts no_faults s t \<Longrightarrow> exchange_bound q r t < exchange_bound q r s"
    by (rule exchange_bound_step [OF own])
  show "\<not> promise_of s \<noteq> None \<Longrightarrow> \<exists>t. exchange_step x P accepts no_faults s t"
    using exchange_progress [OF own whole(1)] whole(2,3) response_serialize_length [of r]
    by (simp add: taken_whole_def)
qed

lemma exchange_whole_new:
  assumes "wf_request q" "wf_response r" "Database_handle x P q e fs = (Inr r, e1, fs1)"
    "taken_whole accepts (request_serialize q)" "taken_whole accepts (response_serialize r)"
  shows "exchange_whole x P accepts q (e, fs) r (e1, fs1) (new_exchange q e fs)"
  using assms exchange_own_new [OF assms(1) _ assms(3)] by (simp add: exchange_whole_def taken_whole_def)

text \<open>Such an exchange ends with its own response.\<close>

lemma exchange_whole_response:
  assumes whole: "exchange_whole x P accepts q before r after s" and "promise_of s \<noteq> None"
  shows "promise_of s = Some (Inr r) \<and> (ex_engine s, ex_fs s) = after"
proof -
  from whole have own: "exchange_own x P accepts no_faults q before r after s" and w: "wf_response r"
    "taken_whole accepts (response_serialize r)" by (simp_all add: exchange_whole_def)
  from own obtain sent where
    rel: "exchange_rel x P accepts no_faults q before sent (cs_pending (cl_session (ex_client s))) (promise_of s)
       (ss_pending (cn_session (ex_server s))) (ex_engine s, ex_fs s) (upstream s) (downstream s)"
    and ok: "client_ok (ex_client s)" "session_ok (ex_server s)"
    and served: "\<forall>db bs. served_for x P before sent db bs \<longrightarrow> bs = response_serialize r \<and> db = after \<and> sent = request_serialize q"
    by (rule exchange_ownE)
  from rel assms(2) obtain r' where r': "promise_of s = Some (Inr r')"
    by (cases "promise_of s"; cases "the (promise_of s)") (auto simp: exchange_rel_def no_faults_def)
  with rel obtain bs wire where wire: "served_for x P before sent (ex_engine s, ex_fs s) bs" "on_the_wire accepts bs wire" "answered wire r'"
    by (auto simp: exchange_rel_def)
  with served have "bs = response_serialize r" "(ex_engine s, ex_fs s) = after" by blast+
  with r' answered_whole [OF w] wire(2,3) show ?thesis by simp
qed

section \<open>A request that is sent in part\<close>

definition stuck_exchange :: "nat \<Rightarrow> request \<Rightarrow> engine \<Rightarrow> fsys \<Rightarrow> exchange" where
  "stuck_exchange k q e fs =
     \<lparr>ex_client = \<lparr>cl_session = (new_client_session q)\<lparr>cs_pending := Some (Receive_length 4)\<rparr>, cl_in = [], cl_out = []\<rparr>,
      ex_server = \<lparr>cn_session = \<lparr>ss_contentLength = rq_contentLength q, ss_requestBuffer = take 4 (request_serialize q),
          ss_pending = Some (Read_request (unat (rq_contentLength q))), ss_errors = []\<rparr>,
        cn_in = drop 4 (take k (request_serialize q)), cn_out = []\<rparr>,
      ex_engine = e, ex_fs = fs\<rparr>"

lemma reaches_stuck:
  assumes "wf_request q" "accepts (request_serialize q) k" "4 \<le> k" "k < length (request_serialize q)"
  shows "reach (exchange_step x P accepts faults) (new_exchange q e fs) (stuck_exchange k q e fs)"
proof -
  let ?step = "exchange_step x P accepts faults" and ?bs = "request_serialize q"
  let ?cl = "\<lambda>p out. \<lparr>cl_session = (new_client_session q)\<lparr>cs_pending := Some p\<rparr>, cl_in = [], cl_out = out\<rparr>"
  let ?ex = "\<lambda>p out sv. \<lparr>ex_client = ?cl p out, ex_server = sv, ex_engine = e, ex_fs = fs\<rparr>"
  let ?sv = "new_connection\<lparr>cn_in := take k ?bs\<rparr>"
  have start: "new_exchange q e fs = ?ex Resolve [] new_connection"
    by (simp add: new_exchange_def new_client_def)
  have "client_step accepts faults (?cl Resolve []) (Inr (?cl (Connect []) []))"
    using client_step.resolved [of "?cl Resolve []" "[[]]" _ accepts faults]
    by (simp add: client_handlers new_client_session_def)
  then have s1: "?step (?ex Resolve [] new_connection) (?ex (Connect []) [] new_connection)"
    using client_moves [of accepts faults "?ex Resolve [] new_connection"] by simp
  have "client_step accepts faults (?cl (Connect []) []) (Inr (?cl (Send ?bs) []))"
    using client_step.connected [of "?cl (Connect []) []" "[]" _ accepts faults]
    by (simp add: client_handlers new_client_session_def)
  then have s2: "?step (?ex (Connect []) [] new_connection) (?ex (Send ?bs) [] new_connection)"
    using client_moves [of accepts faults "?ex (Connect []) [] new_connection"] by simp
  have "sent_at_once accepts ?bs (take k ?bs)"
    using assms(2-4) by (auto simp: sent_at_once_def intro!: exI [of _ k])
  then have "client_step accepts faults (?cl (Send ?bs) []) (Inr (?cl (Receive_length 4) (take k ?bs)))"
    using client_step.sent [of "?cl (Send ?bs) []" ?bs accepts "take k ?bs" _ faults]
    by (simp add: client_handlers new_client_session_def)
  then have s3: "?step (?ex (Send ?bs) [] new_connection) (?ex (Receive_length 4) (take k ?bs) new_connection)"
    using client_moves [of accepts faults "?ex (Send ?bs) [] new_connection"] by simp
  have "take k ?bs \<noteq> []" using assms(3,4) by auto
  then have s4: "?step (?ex (Receive_length 4) (take k ?bs) new_connection) (?ex (Receive_length 4) [] ?sv)"
    using delivered_up [of "?ex (Receive_length 4) (take k ?bs) new_connection" "take k ?bs" "[]"]
    by (simp add: new_connection_def)
  have s5: "?step (?ex (Receive_length 4) [] ?sv) (stuck_exchange k q e fs)"
  proof -
    have four: "take 4 (take k ?bs) = take 4 ?bs" "length (take 4 ?bs) = 4" "length (take k ?bs) = k"
      using assms(3,4) by simp_all
    have "word_of_bytes (take 4 ?bs) = rq_contentLength q" using req.split_off(1) [OF assms(1), of "[]"] by simp
    then have "session_step x P accepts faults (?sv, e, fs) None (Inr (ex_server (stuck_exchange k q e fs)), e, fs)"
      using session_step.length_read [of ?sv 4 _ x P accepts faults e fs] four assms(3)
      by (simp add: session_handlers new_connection_def ServerSession_run_def new_server_session_def stuck_exchange_def)
    then show ?thesis
      using server_moves [of x P accepts faults "?ex (Receive_length 4) [] ?sv"] by (simp add: stuck_exchange_def)
  qed
  show ?thesis unfolding start
    by (rule reach_step [OF reach_step [OF reach_step [OF reach_step [OF reach_one [of ?step, OF s1] s2] s3] s4] s5])
qed

lemma stuck_is_stuck:
  assumes "wf_request q" "4 \<le> k" "k < length (request_serialize q)"
  shows "\<not> exchange_step x P accepts no_faults (stuck_exchange k q e fs) t"
proof
  assume "exchange_step x P accepts no_faults (stuck_exchange k q e fs) t"
  then show False
  proof (rule exchange_stepE)
    fix lab c e' fs'
    assume "session_step x P accepts no_faults (ex_server (stuck_exchange k q e fs), ex_engine (stuck_exchange k q e fs),
        ex_fs (stuck_exchange k q e fs)) lab (Inr c, e', fs')"
    then show False
      using assms(2,3) req.frame [OF assms(1)]
      by (cases lab) (auto simp: stuck_exchange_def no_faults_def elim!: session_silentE session_requestE)
  next
    fix c
    assume "client_step accepts no_faults (ex_client (stuck_exchange k q e fs)) (Inr c)"
    then show False
      by (rule client_stepE) (simp_all add: stuck_exchange_def no_faults_def)
  qed (simp_all add: stuck_exchange_def)
qed

end
