(* ===== verification/Acceptor.thy ===== *)
theory Acceptor
  imports ServerSession
begin

text \<open>
  src/Networking/Acceptor.h and Acceptor.cpp: the object that waits for connections and starts
  a session for each. Listening and accepting are operations of boost::asio; \<open>listens\<close> is the
  outcome of the first, and an outstanding accept completes with an error or without.
\<close>

record acceptor =
  ac_isStopped :: bool
  ac_listening :: bool
  ac_open :: bool
  ac_pending :: nat
  ac_errors :: "string list"

definition new_acceptor :: acceptor where
  "new_acceptor = \<lparr>ac_isStopped = False, ac_listening = False, ac_open = True, ac_pending = 0, ac_errors = []\<rparr>"

definition Acceptor_initAccept :: "acceptor \<Rightarrow> acceptor" where
  "Acceptor_initAccept a = a\<lparr>ac_pending := Suc (ac_pending a)\<rparr>"

definition Acceptor_start :: "unit result \<Rightarrow> acceptor \<Rightarrow> acceptor result" where
  "Acceptor_start listens a = rmap (\<lambda>_. Acceptor_initAccept (a\<lparr>ac_listening := True\<rparr>)) listens"

text \<open>\<open>stop\<close> stores \<open>false\<close>, the value the flag has from the start.\<close>

definition Acceptor_stop :: "acceptor \<Rightarrow> acceptor" where
  "Acceptor_stop a = a\<lparr>ac_isStopped := False\<rparr>"

definition Acceptor_onAccept :: "boost_error \<Rightarrow> acceptor \<Rightarrow> connection option \<times> acceptor" where
  "Acceptor_onAccept errorCode a =
     (let (session, a1) = (case errorCode of
            None \<Rightarrow> (Some new_connection, a)
          | Some message \<Rightarrow> (None, a\<lparr>ac_errors := ac_errors a @ [message]\<rparr>))
      in if \<not> ac_isStopped a1 then (session, Acceptor_initAccept a1)
         else (session, a1\<lparr>ac_open := False\<rparr>))"

text \<open>What can happen to an acceptor; the operation that completes is no longer outstanding.\<close>

inductive acceptor_step :: "acceptor \<Rightarrow> acceptor \<Rightarrow> bool" where
  started: "Acceptor_start (Inr ()) a = Inr b \<Longrightarrow> acceptor_step a b"
| stopped: "acceptor_step a (Acceptor_stop a)"
| accepted: "ac_pending a = Suc n \<Longrightarrow> acceptor_step a (snd (Acceptor_onAccept e (a\<lparr>ac_pending := n\<rparr>)))"

inductive_cases acceptor_stepE: "acceptor_step a b"

text \<open>Once it has started it goes on accepting, stopped or not.\<close>

definition acceptor_runs :: "acceptor \<Rightarrow> bool" where
  "acceptor_runs a \<longleftrightarrow> \<not> ac_isStopped a \<and> ac_open a \<and> (ac_listening a \<longrightarrow> 0 < ac_pending a)"

interpretation acceptor: invariant_system acceptor_step acceptor_runs
proof
  fix a b assume "acceptor_runs a" "acceptor_step a b"
  from this(2) show "acceptor_runs b"
    by (rule acceptor_stepE)
      (use \<open>acceptor_runs a\<close> in \<open>auto simp: acceptor_runs_def Acceptor_start_def Acceptor_stop_def
        Acceptor_onAccept_def Acceptor_initAccept_def Let_def split: option.splits\<close>)
qed

lemma acceptor_runs_new [simp]: "acceptor_runs new_acceptor"
  by (simp add: acceptor_runs_def new_acceptor_def)

end
