(* ===== verification/DatabaseServer.thy ===== *)
theory DatabaseServer
  imports Acceptor EngineRun "HOL-Library.Sublist"
begin

text \<open>
  The server: src/Networking/ServerBase, DatabaseServerImpl and the facade DatabaseServer. Its
  life (starting, stopping, destruction) is a set of functions; while it runs, it is a step
  relation: accepts complete, bytes arrive, and the callbacks of the sessions are called, one at
  a time, in any order. All sessions share one database.
\<close>

section \<open>State\<close>

text \<open>A thread is represented by whether it is joinable.\<close>

record server =
  sv_numThreads :: u32
  sv_threads :: "bool list"
  sv_stopped :: bool
  sv_acceptor :: acceptor
  sv_conns :: "connection list"
  sv_engine :: engine
  sv_fs :: fsys
  sv_databaseDir :: path
  sv_databaseOptions :: options

definition DatabaseServer_new :: "filter_params \<Rightarrow> u32 \<Rightarrow> path \<Rightarrow> options \<Rightarrow> fsys \<Rightarrow> server" where
  "DatabaseServer_new P numThreads dir opts fs =
     \<lparr>sv_numThreads = numThreads, sv_threads = [], sv_stopped = False, sv_acceptor = new_acceptor,
      sv_conns = [], sv_engine = new_engine P, sv_fs = fs, sv_databaseDir = dir, sv_databaseOptions = opts\<rparr>"

section \<open>Starting and stopping\<close>

definition DatabaseServerImpl_init ::
    "externals \<Rightarrow> filter_params \<Rightarrow> unit result \<Rightarrow> server \<Rightarrow> bool result \<times> server" where
  "DatabaseServerImpl_init x P listens sv =
     (case Acceptor_start listens (sv_acceptor sv) of
        Inl err \<Rightarrow> (Inl err, sv)
      | Inr a \<Rightarrow>
          (case Database_open x P (sv_databaseDir sv) (sv_databaseOptions sv) (sv_engine sv) (sv_fs sv) of
             (r, e, fs) \<Rightarrow> (rmap (\<lambda>_. True) r, sv\<lparr>sv_acceptor := a, sv_engine := e, sv_fs := fs\<rparr>)))"

definition DatabaseServerImpl_close :: "server \<Rightarrow> bool \<times> server" where
  "DatabaseServerImpl_close sv = (True, sv\<lparr>sv_acceptor := Acceptor_stop (sv_acceptor sv)\<rparr>)"

text \<open>Assigning to a thread that is still joinable terminates the program.\<close>

fun start_threads :: "bool list \<Rightarrow> bool list result" where
  "start_threads [] = Inr []"
| "start_threads (joinable # ts) =
     (if joinable then Inl Terminate else rmap (\<lambda>ts'. True # ts') (start_threads ts))"

fun join_threads :: "bool list \<Rightarrow> unit result \<times> bool list" where
  "join_threads [] = (Inr (), [])"
| "join_threads (joinable # ts) =
     (if joinable then (case join_threads ts of (r, ts') \<Rightarrow> (r, False # ts'))
      else (Inl System_error, joinable # ts))"

definition resize_threads :: "nat \<Rightarrow> bool list \<Rightarrow> bool list" where
  "resize_threads n ts = take n ts @ replicate (n - length ts) False"

definition ServerBase_start ::
    "externals \<Rightarrow> filter_params \<Rightarrow> unit result \<Rightarrow> server \<Rightarrow> unit result \<times> server" where
  "ServerBase_start x P listens sv =
     (case DatabaseServerImpl_init x P listens sv of
        (Inl err, sv1) \<Rightarrow> (Inl err, sv1)
      | (Inr ok, sv1) \<Rightarrow>
          if ok then
            (let threads = resize_threads (unat (sv_numThreads sv1)) (sv_threads sv1)
             in case start_threads threads of
                  Inl err \<Rightarrow> (Inl err, sv1\<lparr>sv_threads := threads\<rparr>)
                | Inr threads' \<Rightarrow> (Inr (), sv1\<lparr>sv_threads := threads'\<rparr>))
          else (Inr (), sv1))"

definition ServerBase_stop :: "server \<Rightarrow> unit result \<times> server" where
  "ServerBase_stop sv =
     (case DatabaseServerImpl_close sv of (ok, sv1) \<Rightarrow>
        if ok then
          (case join_threads (sv_threads sv1) of
             (r, threads) \<Rightarrow> (r, sv1\<lparr>sv_stopped := True, sv_threads := threads\<rparr>))
        else (Inr (), sv1))"

text \<open>The destructor calls \<open>stop\<close>; an exception that leaves a destructor terminates the program.\<close>

definition DatabaseServerImpl_destroy :: "server \<Rightarrow> fsys result" where
  "DatabaseServerImpl_destroy sv =
     (case ServerBase_stop sv of
        (Inl err, sv1) \<Rightarrow> Inl Terminate
      | (Inr _, sv1) \<Rightarrow> Inr (se_close (sv_engine sv1) (sv_fs sv1)))"

definition DatabaseServer_start ::
    "externals \<Rightarrow> filter_params \<Rightarrow> unit result \<Rightarrow> server \<Rightarrow> unit result \<times> server" where
  "DatabaseServer_start x P listens impl = ServerBase_start x P listens impl"

definition DatabaseServer_stop :: "server \<Rightarrow> unit result \<times> server" where
  "DatabaseServer_stop impl = ServerBase_stop impl"

lemma start_threads_fresh: "start_threads (replicate n False) = Inr (replicate n True)"
  by (induction n) auto

lemma join_threads_started: "join_threads (replicate n True) = (Inr (), replicate n False)"
  by (induction n) auto

lemma join_threads_joined: "join_threads (replicate n False) = (if n = 0 then (Inr (), []) else (Inl System_error, replicate n False))"
  by (cases n) auto

lemma DatabaseServer_start_ok:
  assumes "sv_threads sv = []"
    "Database_open x P (sv_databaseDir sv) (sv_databaseOptions sv) (sv_engine sv) (sv_fs sv) = (Inr (), e, fs)"
  shows "DatabaseServer_start x P (Inr ()) sv =
    (Inr (), sv\<lparr>sv_acceptor := Acceptor_initAccept ((sv_acceptor sv)\<lparr>ac_listening := True\<rparr>), sv_engine := e, sv_fs := fs,
      sv_threads := replicate (unat (sv_numThreads sv)) True\<rparr>)"
  using assms start_threads_fresh [of "unat (sv_numThreads sv)"]
  by (simp add: DatabaseServer_start_def ServerBase_start_def DatabaseServerImpl_init_def Acceptor_start_def
      resize_threads_def Let_def)

section \<open>Serving\<close>

text \<open>
  What happens while the server runs, with the list of the requests that were passed to the
  database so far, the session each came from and the response.
\<close>

type_synonym served = "(nat \<times> request \<times> response) list"

inductive server_step ::
    "externals \<Rightarrow> filter_params \<Rightarrow> (bytes \<Rightarrow> nat \<Rightarrow> bool) \<Rightarrow> (string \<Rightarrow> bool) \<Rightarrow>
     server \<times> served \<Rightarrow> server \<times> served \<Rightarrow> bool"
  for x P accepts faults where
  accepted:
    "ac_pending (sv_acceptor sv) = Suc n \<Longrightarrow>
     (Some c, a) = Acceptor_onAccept None ((sv_acceptor sv)\<lparr>ac_pending := n\<rparr>) \<Longrightarrow>
     server_step x P accepts faults (sv, h) (sv\<lparr>sv_acceptor := a, sv_conns := sv_conns sv @ [c]\<rparr>, h)"
| not_accepted:
    "ac_pending (sv_acceptor sv) = Suc n \<Longrightarrow> faults message \<Longrightarrow>
     (None, a) = Acceptor_onAccept (Some message) ((sv_acceptor sv)\<lparr>ac_pending := n\<rparr>) \<Longrightarrow>
     server_step x P accepts faults (sv, h) (sv\<lparr>sv_acceptor := a\<rparr>, h)"
| arrived:
    "i < length (sv_conns sv) \<Longrightarrow> c = sv_conns sv ! i \<Longrightarrow>
     server_step x P accepts faults (sv, h) (sv\<lparr>sv_conns := (sv_conns sv)[i := c\<lparr>cn_in := cn_in c @ bs\<rparr>]\<rparr>, h)"
| called:
    "i < length (sv_conns sv) \<Longrightarrow>
     session_step x P accepts faults (sv_conns sv ! i, sv_engine sv, sv_fs sv) None (Inr c, e, fs) \<Longrightarrow>
     server_step x P accepts faults (sv, h)
       (sv\<lparr>sv_conns := (sv_conns sv)[i := c], sv_engine := e, sv_fs := fs\<rparr>, h)"
| served:
    "i < length (sv_conns sv) \<Longrightarrow>
     session_step x P accepts faults (sv_conns sv ! i, sv_engine sv, sv_fs sv) (Some q) (Inr c, e, fs) \<Longrightarrow>
     Database_handle x P q (sv_engine sv) (sv_fs sv) = (Inr r, e, fs) \<Longrightarrow>
     server_step x P accepts faults (sv, h)
       (sv\<lparr>sv_conns := (sv_conns sv)[i := c], sv_engine := e, sv_fs := fs\<rparr>, h @ [(i, q, r)])"

inductive_cases server_stepE: "server_step x P accepts faults s t"

section \<open>Sessions are served one after the other\<close>

text \<open>
  What a session has to do with the requests it was served (\<open>hs\<close>): none as long as it reads; one
  from then on, whose response is what it starts to write; what comes of that depends on how much
  of it the socket takes at once.
\<close>

definition conn_rel :: "(bytes \<Rightarrow> nat \<Rightarrow> bool) \<Rightarrow> (string \<Rightarrow> bool) \<Rightarrow> served \<Rightarrow> connection \<Rightarrow> bool" where
  "conn_rel accepts faults hs c \<longleftrightarrow>
     (reading (ss_pending (cn_session c)) \<longrightarrow> hs = [] \<and> cn_out c = []) \<and>
     (\<forall>bs. ss_pending (cn_session c) = Some (Write_response bs) \<longrightarrow>
        cn_out c = [] \<and> (\<exists>i q r. hs = [(i, q, r)] \<and> bs = response_serialize r)) \<and>
     (ss_pending (cn_session c) = None \<longrightarrow>
        (hs = [] \<and> cn_out c = [] \<and> (\<exists>message. faults message)) \<or>
        (\<exists>i q r wire. hs = [(i, q, r)] \<and> on_the_wire accepts (response_serialize r) wire \<and> prefix (cn_out c) wire \<and>
           ((\<forall>message. \<not> faults message) \<longrightarrow> cn_out c = wire)))"

lemma conn_rel_in [simp]: "conn_rel accepts faults hs (c\<lparr>cn_in := bs\<rparr>) = conn_rel accepts faults hs c"
  by (simp add: conn_rel_def)

lemma conn_rel_new [simp]: "conn_rel accepts faults [] new_connection"
  by (simp add: conn_rel_def new_connection_def ServerSession_run_def)

lemma conn_rel_silent:
  assumes ok: "session_ok c" and rel: "conn_rel accepts faults hs c"
    and step: "session_step x P accepts faults (c, e, fs) None (Inr c', e', fs')"
  shows "conn_rel accepts faults hs c'"
  using ok step
proof (cases rule: server_silent_effect)
  case read
  then show ?thesis using rel by (cases "ss_pending (cn_session c')" rule: reading.cases) (simp_all add: conn_rel_def)
next
  case (read_failed message)
  then show ?thesis using rel by (auto simp: conn_rel_def)
next
  case (written bs wire)
  then show ?thesis using rel by (auto simp: conn_rel_def)
next
  case (write_failed bs wire message j)
  then obtain i q r where "cn_out c = []" "hs = [(i, q, r)]" "bs = response_serialize r"
    using rel by (auto simp: conn_rel_def)
  with write_failed show ?thesis by (auto simp: conn_rel_def intro!: exI [of _ wire] take_is_prefix)
qed

lemma conn_rel_request:
  assumes ok: "session_ok c" and rel: "conn_rel accepts faults hs c"
    and step: "session_step x P accepts faults (c, e, fs) (Some q) (Inr c', e', fs')"
    and handle: "Database_handle x P q e fs = (Inr r, e', fs')"
  shows "hs = [] \<and> conn_rel accepts faults [(i, q, r)] c' \<and> session_ok c'"
proof -
  from step obtain h n where h: "Database_handle x P q e fs = (h, e', fs')"
    "ss_pending (cn_session c) = Some (Read_request n)"
    "Inr c' = rmap (\<lambda>response. put_session n [] c ((cn_session c)\<lparr>ss_requestBuffer := [],
        ss_pending := Some (Write_response (response_serialize response))\<rparr>)) h"
    by (rule session_step_request [OF ok])
  with handle have "c' = put_session n [] c ((cn_session c)\<lparr>ss_requestBuffer := [],
      ss_pending := Some (Write_response (response_serialize r))\<rparr>)" by simp
  with rel h(2) show ?thesis by (simp add: conn_rel_def put_session_def server_session_ok_def)
qed

definition of_session :: "nat \<Rightarrow> served \<Rightarrow> served" where
  "of_session i h = filter (\<lambda>(j, _). j = i) h"

lemma of_session_simps [simp]:
  "of_session i [] = []"
  "of_session i (h @ [(j, q, r)]) = (if i = j then of_session i h @ [(j, q, r)] else of_session i h)"
  by (simp_all add: of_session_def)

text \<open>The database is where passing it the served requests, in their order, brings it.\<close>

definition server_inv ::
    "externals \<Rightarrow> filter_params \<Rightarrow> (bytes \<Rightarrow> nat \<Rightarrow> bool) \<Rightarrow> (string \<Rightarrow> bool) \<Rightarrow> engine \<Rightarrow> fsys \<Rightarrow> server \<times> served \<Rightarrow> bool" where
  "server_inv x P accepts faults e0 fs0 = (\<lambda>(sv, h).
     handle_run x P (map (\<lambda>(i, q, r). q) h) e0 fs0 = (map (\<lambda>(i, q, r). Inr r) h, sv_engine sv, sv_fs sv) \<and>
     (\<forall>(i, q, r) \<in> set h. i < length (sv_conns sv)) \<and>
     (\<forall>i < length (sv_conns sv). session_ok (sv_conns sv ! i) \<and> conn_rel accepts faults (of_session i h) (sv_conns sv ! i)))"

lemma of_session_fresh: "\<forall>(i, q, r) \<in> set h. i < n \<Longrightarrow> of_session n h = []"
  by (auto simp: of_session_def filter_empty_conv)

lemma server_inv_accept:
  assumes "server_inv x P accepts faults e0 fs0 (sv, h)"
  shows "server_inv x P accepts faults e0 fs0 (sv\<lparr>sv_acceptor := a, sv_conns := sv_conns sv @ [new_connection]\<rparr>, h)"
  using assms of_session_fresh [of h "length (sv_conns sv)"]
  by (fastforce simp: server_inv_def nth_append less_Suc_eq)

lemma server_inv_update:
  assumes inv: "server_inv x P accepts faults e0 fs0 (sv, h)" and i: "i < length (sv_conns sv)"
    and c: "session_ok c" "conn_rel accepts faults (of_session i (h @ hs)) c" and hs: "\<forall>(j, q, r) \<in> set hs. j = i"
    and run: "handle_run x P (map (\<lambda>(i, q, r). q) (h @ hs)) e0 fs0 = (map (\<lambda>(i, q, r). Inr r) (h @ hs), e, fs)"
  shows "server_inv x P accepts faults e0 fs0
    (sv\<lparr>sv_conns := (sv_conns sv)[i := c], sv_engine := e, sv_fs := fs\<rparr>, h @ hs)"
proof -
  have "of_session j (h @ hs) = of_session j h" if "j \<noteq> i" for j
    using hs that by (auto simp: of_session_def filter_empty_conv)
  with assms show ?thesis by (fastforce simp: server_inv_def nth_list_update)
qed

lemma server_inv_step:
  assumes inv: "server_inv x P accepts faults e0 fs0 s" and step: "server_step x P accepts faults s t"
  shows "server_inv x P accepts faults e0 fs0 t"
  using step
proof (rule server_stepE)
  fix sv n c a h
  assume "s = (sv, h)" "t = (sv\<lparr>sv_acceptor := a, sv_conns := sv_conns sv @ [c]\<rparr>, h)"
    "(Some c, a) = Acceptor_onAccept None ((sv_acceptor sv)\<lparr>ac_pending := n\<rparr>)"
  then show ?thesis
    using inv server_inv_accept by (auto simp: Acceptor_onAccept_def split: if_splits)
next
  fix sv n message a h
  assume "s = (sv, h)" "t = (sv\<lparr>sv_acceptor := a\<rparr>, h)"
  then show ?thesis using inv by (simp add: server_inv_def)
next
  fix i h bs and sv :: server
  let ?c = "(sv_conns sv ! i)\<lparr>cn_in := cn_in (sv_conns sv ! i) @ bs\<rparr>"
  assume a: "s = (sv, h)" "t = (sv\<lparr>sv_conns := (sv_conns sv)[i := ?c]\<rparr>, h)" "i < length (sv_conns sv)"
  have "session_ok ?c" "conn_rel accepts faults (of_session i (h @ [])) ?c"
    and run: "handle_run x P (map (\<lambda>(i, q, r). q) (h @ [])) e0 fs0 = (map (\<lambda>(i, q, r). Inr r) (h @ []), sv_engine sv, sv_fs sv)"
    using inv a(1,3) by (auto simp: server_inv_def)
  from server_inv_update [OF inv [unfolded a(1)] a(3) this(1,2) _ run] show ?thesis
    unfolding a(2) by simp
next
  fix i sv c e fs h
  assume a: "s = (sv, h)" "t = (sv\<lparr>sv_conns := (sv_conns sv)[i := c], sv_engine := e, sv_fs := fs\<rparr>, h)"
    "i < length (sv_conns sv)"
    "session_step x P accepts faults (sv_conns sv ! i, sv_engine sv, sv_fs sv) None (Inr c, e, fs)"
  have ok: "session_ok (sv_conns sv ! i)" "conn_rel accepts faults (of_session i h) (sv_conns sv ! i)"
    using inv a(1,3) by (auto simp: server_inv_def)
  from session_step_silent [OF ok(1) a(4)] conn_rel_silent [OF ok a(4)] show ?thesis
    using inv a(1,2) server_inv_update [OF inv [unfolded a(1)] a(3), of c "[]"]
    by (simp add: server_inv_def)
next
  fix i sv q c e fs r h
  assume a: "s = (sv, h)" "t = (sv\<lparr>sv_conns := (sv_conns sv)[i := c], sv_engine := e, sv_fs := fs\<rparr>, h @ [(i, q, r)])"
    "i < length (sv_conns sv)"
    "session_step x P accepts faults (sv_conns sv ! i, sv_engine sv, sv_fs sv) (Some q) (Inr c, e, fs)"
    "Database_handle x P q (sv_engine sv) (sv_fs sv) = (Inr r, e, fs)"
  have ok: "session_ok (sv_conns sv ! i)" "conn_rel accepts faults (of_session i h) (sv_conns sv ! i)"
    and run: "handle_run x P (map (\<lambda>(i, q, r). q) h) e0 fs0 = (map (\<lambda>(i, q, r). Inr r) h, sv_engine sv, sv_fs sv)"
    using inv a(1,3) by (auto simp: server_inv_def)
  from conn_rel_request [OF ok a(4,5), of i] have new: "conn_rel accepts faults (of_session i (h @ [(i, q, r)])) c" "session_ok c"
    by simp_all
  show ?thesis
    unfolding a(2)
    using server_inv_update [OF inv [unfolded a(1)] a(3) new(2,1)] handle_run_snoc [OF run a(5)] by simp
qed

interpretation serving: invariant_system "server_step x P accepts faults" "server_inv x P accepts faults e0 fs0"
    for x P accepts faults e0 fs0
  by unfold_locales (rule server_inv_step)

end
