(* ===== verification/DatabaseConnector.thy ===== *)
theory DatabaseConnector
  imports ClientSession
begin

text \<open>
  The client's end: src/Networking/DatabaseConnectorImpl and the facade DatabaseConnector, which
  start a session for each request and hand out its future.
\<close>

section \<open>The connector\<close>

text \<open>A future that is ready from the start, or the future of a session's promise.\<close>

datatype response_future = Ready "response result" | Future_of nat

record connector =
  co_address :: string
  co_port :: "16 word"
  co_sessions :: "client list"

definition DatabaseConnector_new :: "string \<Rightarrow> 16 word \<Rightarrow> connector" where
  "DatabaseConnector_new address port = \<lparr>co_address = address, co_port = port, co_sessions = []\<rparr>"

text \<open>\<open>created\<close>: making the socket, the resolver and the query may throw, as may starting the resolver.\<close>

definition DatabaseConnectorImpl_execute ::
    "unit result \<Rightarrow> unit result \<Rightarrow> request \<Rightarrow> connector \<Rightarrow> (response_future \<times> connector) result" where
  "DatabaseConnectorImpl_execute created started request co =
     (case rbind created (\<lambda>_. ClientSession_run started (new_client_session request)) of
        Inl err \<Rightarrow> if is_std_exception err then Inr (Ready (Inl err), co) else Inl err
      | Inr session \<Rightarrow>
          Inr (Future_of (length (co_sessions co)),
            co\<lparr>co_sessions := co_sessions co @ [\<lparr>cl_session = session, cl_in = [], cl_out = []\<rparr>]\<rparr>))"

definition DatabaseConnector_execute ::
    "unit result \<Rightarrow> unit result \<Rightarrow> request \<Rightarrow> connector \<Rightarrow> (response_future \<times> connector) result" where
  "DatabaseConnector_execute created started request impl =
     DatabaseConnectorImpl_execute created started request impl"

text \<open>
  The destructor stops the service and joins its thread. The handlers that have not been called
  are dropped with their sessions, whose promises break.
\<close>

definition DatabaseConnectorImpl_destroy :: "connector \<Rightarrow> connector" where
  "DatabaseConnectorImpl_destroy co =
     co\<lparr>co_sessions := map (\<lambda>c. if cs_pending (cl_session c) = None then c
        else c\<lparr>cl_session := (cl_session c)\<lparr>cs_pending := None,
          cs_promise := (case cs_promise (cl_session c) of None \<Rightarrow> Some (Inl Future_error) | Some v \<Rightarrow> Some v)\<rparr>\<rparr>)
       (co_sessions co)\<rparr>"

definition future_value :: "connector \<Rightarrow> response_future \<Rightarrow> response result option" where
  "future_value co f =
     (case f of Ready r \<Rightarrow> Some r | Future_of i \<Rightarrow> cs_promise (cl_session (co_sessions co ! i)))"

text \<open>While the service runs: bytes arrive, and the sessions' handlers are called, in any order.\<close>

inductive connector_step ::
    "(bytes \<Rightarrow> nat \<Rightarrow> bool) \<Rightarrow> (string \<Rightarrow> bool) \<Rightarrow> connector \<Rightarrow> connector \<Rightarrow> bool"
  for accepts faults where
  executed:
    "DatabaseConnectorImpl_execute created started q co = Inr (f, co') \<Longrightarrow> connector_step accepts faults co co'"
| arrived:
    "i < length (co_sessions co) \<Longrightarrow> c = co_sessions co ! i \<Longrightarrow>
     connector_step accepts faults co (co\<lparr>co_sessions := (co_sessions co)[i := c\<lparr>cl_in := cl_in c @ bs\<rparr>]\<rparr>)"
| called:
    "i < length (co_sessions co) \<Longrightarrow> client_step accepts faults (co_sessions co ! i) (Inr c) \<Longrightarrow>
     connector_step accepts faults co (co\<lparr>co_sessions := (co_sessions co)[i := c]\<rparr>)"

inductive_cases connector_stepE: "connector_step accepts faults co co'"

section \<open>Invariant\<close>

definition connector_ok :: "connector \<Rightarrow> bool" where
  "connector_ok co \<longleftrightarrow> (\<forall>c \<in> set (co_sessions co). client_ok c)"

lemma ClientSession_run_ok:
  "ClientSession_run started (new_client_session q) = Inr cs \<Longrightarrow> client_session_ok cs"
  by (auto simp: ClientSession_run_def new_client_session_def client_session_ok_def promise_set_def
      split: sum.splits if_splits)

lemma execute_ok:
  assumes "DatabaseConnectorImpl_execute created started q co = Inr (f, co')" "connector_ok co"
  shows "connector_ok co'"
proof (cases "rbind created (\<lambda>_. ClientSession_run started (new_client_session q))")
  case (Inl err)
  with assms show ?thesis by (auto simp: DatabaseConnectorImpl_execute_def split: if_splits)
next
  case (Inr cs)
  then have "client_session_ok cs" unfolding rbind_Inr_iff using ClientSession_run_ok by blast
  with Inr assms show ?thesis by (auto simp: DatabaseConnectorImpl_execute_def connector_ok_def)
qed

lemma connector_ok_update:
  "connector_ok co \<Longrightarrow> client_ok c \<Longrightarrow> connector_ok (co\<lparr>co_sessions := (co_sessions co)[i := c]\<rparr>)"
  by (auto simp: connector_ok_def dest!: subsetD [OF set_update_subset_insert])

lemma connector_ok_step:
  assumes "connector_ok co" "connector_step accepts faults co co'"
  shows "connector_ok co'"
  using assms(2)
proof (rule connector_stepE)
  fix created started q f
  assume "DatabaseConnectorImpl_execute created started q co = Inr (f, co')"
  then show ?thesis using assms(1) by (rule execute_ok)
next
  fix i bs
  let ?c = "(co_sessions co ! i)\<lparr>cl_in := cl_in (co_sessions co ! i) @ bs\<rparr>"
  assume a: "co' = co\<lparr>co_sessions := (co_sessions co)[i := ?c]\<rparr>" "i < length (co_sessions co)"
  then have "client_ok ?c" using assms(1) by (simp add: connector_ok_def)
  with assms(1) show ?thesis unfolding a(1) by (rule connector_ok_update)
next
  fix i c
  assume a: "co' = co\<lparr>co_sessions := (co_sessions co)[i := c]\<rparr>" "i < length (co_sessions co)"
    "client_step accepts faults (co_sessions co ! i) (Inr c)"
  then have "client_ok (co_sessions co ! i)" using assms(1) by (simp add: connector_ok_def)
  from client_step_ok [OF this a(3)] have "client_ok c" by simp
  with assms(1) show ?thesis unfolding a(1) by (rule connector_ok_update)
qed

interpretation connector: invariant_system "connector_step accepts faults" connector_ok for accepts faults
  by unfold_locales (rule connector_ok_step)

text \<open>A value that a future has got does not change.\<close>

lemma future_value_step:
  assumes ok: "connector_ok co" and step: "connector_step accepts faults co co'"
    and i: "i < length (co_sessions co)" "future_value co (Future_of i) = Some r"
  shows "i < length (co_sessions co') \<and> future_value co' (Future_of i) = Some r"
  using step
proof (rule connector_stepE)
  fix created started q f
  assume "DatabaseConnectorImpl_execute created started q co = Inr (f, co')"
  then show ?thesis
    using i by (auto simp: DatabaseConnectorImpl_execute_def future_value_def nth_append split: sum.splits if_splits)
next
  fix j bs
  assume "co' = co\<lparr>co_sessions := (co_sessions co)[j := (co_sessions co ! j)\<lparr>cl_in := cl_in (co_sessions co ! j) @ bs\<rparr>]\<rparr>"
    "j < length (co_sessions co)"
  then show ?thesis using i by (auto simp: future_value_def nth_list_update)
next
  fix j c
  assume a: "co' = co\<lparr>co_sessions := (co_sessions co)[j := c]\<rparr>" "j < length (co_sessions co)"
    "client_step accepts faults (co_sessions co ! j) (Inr c)"
  have "j \<noteq> i"
  proof
    assume "j = i"
    then have "client_ok (co_sessions co ! i)" "cs_promise (cl_session (co_sessions co ! i)) = Some r"
      using ok i by (auto simp: connector_ok_def future_value_def)
    then have "cs_pending (cl_session (co_sessions co ! i)) = None" by (simp add: client_session_ok_def)
    with a(3) \<open>j = i\<close> show False by (auto elim: client_stepE)
  qed
  with a(1) i show ?thesis by (simp add: future_value_def)
qed

lemma future_value_reach:
  "reach (connector_step accepts faults) co co' \<Longrightarrow> connector_ok co \<Longrightarrow> i < length (co_sessions co) \<Longrightarrow>
   future_value co (Future_of i) = Some r \<Longrightarrow>
   i < length (co_sessions co') \<and> future_value co' (Future_of i) = Some r"
proof (induction rule: reach.induct)
  case (reach_step s t u)
  then show ?case
    using future_value_step [OF connector.inv_reach [OF reach_step.hyps(1)] reach_step.hyps(2)] by blast
qed simp

end
