(* ===== verification/NetworkProperties.thy ===== *)
theory NetworkProperties
  imports EngineProperties Exchange DatabaseServer DatabaseConnector
begin

text \<open>
  The properties of the networked part: what a client gets for its request, what the sessions of
  a server do to the database they share, and how the server starts and ends. The instances use
  a database with an empty memtable and a request to remove a key.
\<close>

section \<open>A small exchange\<close>

definition small_engine :: engine where
  "small_engine = (new_engine small_params)\<lparr>e_memTable := Some new_memtable\<rparr>"

definition small_request :: request where
  "small_request = Request RequestType_Delete (Key 1) []"

definition small_after :: engine where
  "small_after = small_engine\<lparr>e_memTable := Some (mt_remove (Key 1) new_memtable)\<rparr>"

lemma small_request_ok: "wf_request small_request"
  unfolding small_request_def by (rule wf_Request) (simp_all add: request_type_byte_def request_type_of_byte_def)

lemma small_response_ok: "wf_response (Response ResponseStatus_Ok [])"
  by (rule wf_Response) (simp_all add: status_byte_def status_of_byte_def)

lemma small_handle:
  "Database_handle plain_externals small_params small_request small_engine small_fs =
    (Inr (Response ResponseStatus_Ok []), small_after, small_fs)"
  by (simp add: small_request_def small_engine_def small_after_def Database_handle_def se_handle_def Request_def
      caught_def se_remove_def deref_def)

text \<open>A server that has accepted one session and served it the small request.\<close>

definition small_server :: server where
  "small_server = (DatabaseServer_new small_params 1 [''db''] small_options small_fs)
     \<lparr>sv_engine := small_engine, sv_acceptor := Acceptor_initAccept new_acceptor\<rparr>"

lemma small_request_bytes:
  "length (request_serialize small_request) = 17" "unat (rq_contentLength small_request) = 13"
  "word_of_bytes (take 4 (request_serialize small_request)) = rq_contentLength small_request"
  using req.split_off(1) [OF small_request_ok, of "[]"]
  by (simp_all add: small_request_def request_serialize_def Request_def size_of_list_def)

text \<open>A session that was accepted and has read the length of the small request.\<close>

definition small_reading :: connection where
  "small_reading =
     \<lparr>cn_session = \<lparr>ss_contentLength = rq_contentLength small_request,
        ss_requestBuffer = take 4 (request_serialize small_request), ss_pending = Some (Read_request 13), ss_errors = []\<rparr>,
      cn_in = drop 4 (request_serialize small_request), cn_out = []\<rparr>"

lemma small_session_reads:
  assumes "sv_conns sv = []" "ac_pending (sv_acceptor sv) = Suc n" "\<not> ac_isStopped (sv_acceptor sv)"
  shows "\<exists>a. reach (server_step x P accepts faults) (sv, []) (sv\<lparr>sv_acceptor := a, sv_conns := [small_reading]\<rparr>, [])"
proof -
  let ?step = "server_step x P accepts faults" and ?bs = "request_serialize small_request"
  define a where "a = Acceptor_initAccept ((sv_acceptor sv)\<lparr>ac_pending := n\<rparr>)"
  let ?sv = "\<lambda>c. sv\<lparr>sv_acceptor := a, sv_conns := [c]\<rparr>"
  let ?c = "new_connection\<lparr>cn_in := ?bs\<rparr>"
  have s1: "?step (sv, []) (?sv new_connection, [])"
    using server_step.accepted [of sv n new_connection a x P accepts faults "[]"] assms
    by (simp add: Acceptor_onAccept_def a_def)
  have s2: "?step (?sv new_connection, []) (?sv ?c, [])"
    using server_step.arrived [of 0 "?sv new_connection" new_connection x P accepts faults "[]" ?bs]
    by (simp add: new_connection_def)
  have "session_step x P accepts faults (?c, sv_engine sv, sv_fs sv) None (Inr small_reading, sv_engine sv, sv_fs sv)"
    using session_step.length_read [of ?c 4 _ x P accepts faults "sv_engine sv" "sv_fs sv"] small_request_bytes
    by (simp add: session_handlers new_connection_def ServerSession_run_def new_server_session_def small_reading_def)
  then have "?step (?sv ?c, []) (?sv small_reading, [])"
    using server_step.called [of 0 "?sv ?c" x P accepts faults small_reading "sv_engine sv" "sv_fs sv" "[]"]
    by (cases sv) simp
  with reach_step [OF reach_one [of ?step, OF s1] s2] show ?thesis by (blast intro: reach_step)
qed

lemma small_serving:
  "\<exists>sv. reach (server_step plain_externals small_params complete_writes faults) (small_server, [])
     (sv, [(0, small_request, Response ResponseStatus_Ok [])]) \<and> length (sv_conns sv) = 1"
proof -
  let ?step = "server_step plain_externals small_params complete_writes faults"
  let ?r = "Response ResponseStatus_Ok []"
  let ?c = "small_reading\<lparr>cn_session := (cn_session small_reading)\<lparr>ss_requestBuffer := [],
      ss_pending := Some (Write_response (response_serialize ?r))\<rparr>, cn_in := []\<rparr>"
  have "sv_conns small_server = []" "ac_pending (sv_acceptor small_server) = Suc 0"
    "\<not> ac_isStopped (sv_acceptor small_server)"
    by (simp_all add: small_server_def DatabaseServer_new_def new_acceptor_def Acceptor_initAccept_def)
  from small_session_reads [OF this]
  obtain a where s: "reach ?step (small_server, []) (small_server\<lparr>sv_acceptor := a, sv_conns := [small_reading]\<rparr>, [])"
    by blast
  have "session_step plain_externals small_params complete_writes faults (small_reading, small_engine, small_fs)
      (Some small_request) (Inr ?c, small_after, small_fs)"
    using session_step.request_read [of small_reading 13 small_request _ small_after small_fs plain_externals small_params
        small_engine small_fs complete_writes faults] small_request_bytes request_des_ser [OF small_request_ok]
    by (simp add: session_handlers small_handle small_reading_def)
  then have "?step (small_server\<lparr>sv_acceptor := a, sv_conns := [small_reading]\<rparr>, [])
      (small_server\<lparr>sv_acceptor := a, sv_conns := [?c], sv_engine := small_after, sv_fs := small_fs\<rparr>, [(0, small_request, ?r)])"
    using server_step.served [of 0 "small_server\<lparr>sv_acceptor := a, sv_conns := [small_reading]\<rparr>" plain_externals
        small_params complete_writes faults small_request ?c small_after small_fs ?r "[]"]
    by (simp add: small_handle small_server_def DatabaseServer_new_def)
  with s show ?thesis
    by (intro exI [of _ "small_server\<lparr>sv_acceptor := a, sv_conns := [?c], sv_engine := small_after, sv_fs := small_fs\<rparr>"])
      (auto intro: reach_step)
qed

lemma small_server_conns: "sv_conns small_server = []" "sv_engine small_server = small_engine" "sv_fs small_server = small_fs"
  by (simp_all add: small_server_def DatabaseServer_new_def)

section \<open>Properties\<close>

text \<open>
  C8: The client's future refines a call of the database. Whatever pieces the bytes are delivered
  in, whatever errors the connection has, and whatever number of bytes a socket takes at once: if the
  future gets a response, or the database is not as it was before, then the database has handled one
  request, once. It is the request that is read from the bytes the client sent, and the response is
  the one read from the bytes the server put on the wire for the answer of the database. If the
  socket takes at least one byte of the request at the call of \<open>async_send\<close> (otherwise what it sends is
  read from freed memory), the request was taken to its end and is the client's own. If it takes the
  serialized answer as a whole at the call of \<open>async_write\<close> (otherwise the rest is read from freed
  memory), the response in the future is the answer.
\<close>

theorem exchange_returns_database_answer:
  assumes "wf_request q" "reach (exchange_step x P accepts faults) (new_exchange q e fs) s"
    "(ex_engine s, ex_fs s) \<noteq> (e, fs) \<or> (\<exists>r'. promise_of s = Some (Inr r'))"
  shows "\<exists>sent q' r. sent_at_once accepts (request_serialize q) sent \<and> asked sent q' \<and>
    Database_handle x P q' e fs = (Inr r, ex_engine s, ex_fs s) \<and>
    (\<not> accepts (request_serialize q) 0 \<longrightarrow> q' = q \<and> sent = request_serialize q) \<and>
    (\<forall>r'. promise_of s = Some (Inr r') \<longrightarrow>
       (\<exists>wire. on_the_wire accepts (response_serialize r) wire \<and> answered wire r') \<and>
       (wf_response r \<longrightarrow> taken_whole accepts (response_serialize r) \<longrightarrow> r' = r))"
proof -
  from exchange_good_database(1) [OF exchange.inv_reach [OF assms(2) exchange_good_new]] assms(3) obtain sent q' r where
    *: "sent_at_once accepts (request_serialize q) sent" "asked sent q'"
      "Database_handle x P q' e fs = (Inr r, ex_engine s, ex_fs s)"
      "\<forall>r'. promise_of s = Some (Inr r') \<longrightarrow>
         (\<exists>wire. on_the_wire accepts (response_serialize r) wire \<and> answered wire r')" by auto
  with asked_own [OF assms(1) *(1) _ *(2)] answered_whole [of r accepts] show ?thesis by blast
qed

text \<open>An exchange of the small request over a socket that takes everything, run to its end.\<close>

lemma small_whole:
  "exchange_whole plain_externals small_params complete_writes small_request (small_engine, small_fs)
     (Response ResponseStatus_Ok []) (small_after, small_fs) (new_exchange small_request small_engine small_fs)"
  by (rule exchange_whole_new [OF small_request_ok small_response_ok small_handle]) simp_all

lemma small_exchange:
  obtains s where "reach (exchange_step plain_externals small_params complete_writes no_faults)
      (new_exchange small_request small_engine small_fs) s" "promise_of s = Some (Inr (Response ResponseStatus_Ok []))"
proof -
  from exchange_live.reaches_final [OF small_whole] obtain s where
    s: "reach (exchange_step plain_externals small_params complete_writes no_faults)
      (new_exchange small_request small_engine small_fs) s" "promise_of s \<noteq> None" by blast
  with exchange_whole_response [OF exchange_live.inv_reach [OF s(1) small_whole] s(2)] that show thesis by blast
qed

theorem exchange_returns_database_answer_witness:
  "\<exists>s r'. reach (exchange_step plain_externals small_params complete_writes no_faults)
      (new_exchange small_request small_engine small_fs) s \<and>
    promise_of s = Some (Inr r') \<and> r' = Response ResponseStatus_Ok [] \<and> ex_engine s = small_after"
proof -
  obtain s where s: "reach (exchange_step plain_externals small_params complete_writes no_faults)
      (new_exchange small_request small_engine small_fs) s" "promise_of s = Some (Inr (Response ResponseStatus_Ok []))"
    by (rule small_exchange)
  from exchange_returns_database_answer [OF small_request_ok s(1)] s(2) obtain q' r sent where
    "Database_handle plain_externals small_params q' small_engine small_fs = (Inr r, ex_engine s, ex_fs s)"
    "\<not> complete_writes (request_serialize small_request) 0 \<longrightarrow> q' = small_request \<and> sent = request_serialize small_request"
    by auto
  moreover have "\<not> complete_writes (request_serialize small_request) 0" by (simp add: complete_writes_def)
  ultimately have "ex_engine s = small_after" using small_handle by simp
  with s show ?thesis by blast
qed

text \<open>
  C9: Over a connection without errors an exchange ends, if the socket takes at least one byte of the
  request at the call of \<open>async_send\<close>: it makes at most eight times one more steps than the request and
  the response have bytes together. And it ends well, if both messages are taken whole by the calls
  that send them: it can only come to rest with the response of the database in the client's
  future, and it can get there from every state. In general it can only come to rest with a response,
  or after a request of which a proper part was taken, or a response of which fewer than four bytes.
\<close>

theorem exchange_completes:
  assumes "wf_request q" "wf_response r" "Database_handle x P q e fs = (Inr r, e1, fs1)"
    "\<exists>k. accepts (request_serialize q) k" "\<not> accepts (request_serialize q) 0" "\<exists>k. accepts (response_serialize r) k"
  shows "(\<forall>n s. steps (exchange_step x P accepts no_faults) n (new_exchange q e fs) s \<longrightarrow>
       n \<le> 8 * Suc (length (request_serialize q) + length (response_serialize r))) \<and>
    (\<forall>s. reach (exchange_step x P accepts no_faults) (new_exchange q e fs) s \<longrightarrow>
       (\<nexists>t. exchange_step x P accepts no_faults s t) \<longrightarrow>
       (\<exists>r'. promise_of s = Some (Inr r')) \<or> (\<exists>k < length (request_serialize q). accepts (request_serialize q) k) \<or>
       (\<exists>k < 4. accepts (response_serialize r) k)) \<and>
    (taken_whole accepts (request_serialize q) \<and> taken_whole accepts (response_serialize r) \<longrightarrow>
      (\<forall>s. reach (exchange_step x P accepts no_faults) (new_exchange q e fs) s \<longrightarrow>
         ((\<nexists>t. exchange_step x P accepts no_faults s t) \<longrightarrow>
            promise_of s = Some (Inr r) \<and> (ex_engine s, ex_fs s) = (e1, fs1)) \<and>
         (\<exists>t. reach (exchange_step x P accepts no_faults) s t \<and> promise_of t = Some (Inr r))))"
proof -
  let ?step = "exchange_step x P accepts no_faults" and ?new = "new_exchange q e fs"
  note own = exchange_own_new [of q accepts x P e fs r e1 fs1 no_faults, OF assms(1,5,3)]
  have "exchange_bound q r ?new = 8 * Suc (length (request_serialize q) + length (response_serialize r))"
    by (simp add: exchange_bound_def new_exchange_def new_client_def new_connection_def ServerSession_run_def
        client_rank_def session_rank_def)
  then have "n \<le> 8 * Suc (length (request_serialize q) + length (response_serialize r))" if "steps ?step n ?new s" for n s
    using exchange_own.steps_bound [OF that own] by simp
  moreover have "(\<exists>r'. promise_of s = Some (Inr r')) \<or> (\<exists>k < length (request_serialize q). accepts (request_serialize q) k) \<or>
      (\<exists>k < 4. accepts (response_serialize r) k)" if s: "reach ?step ?new s" "\<nexists>t. ?step s t" for s
  proof -
    note good = exchange_own.inv_reach [OF s(1) own]
    have "\<forall>message. \<not> no_faults message" by (simp add: no_faults_def)
    then have "promise_of s \<noteq> Some (Inl err)" for err
      using good exchange_good_database(2) unfolding exchange_own_def by blast
    then have "promise_of s = None \<or> (\<exists>r'. promise_of s = Some (Inr r'))"
      by (cases "promise_of s"; cases "the (promise_of s)") auto
    with exchange_progress [OF good assms(2,4) _ _ assms(6)] s(2) show ?thesis by (meson not_le_imp_less)
  qed
  moreover have "((\<nexists>t. ?step s t) \<longrightarrow> promise_of s = Some (Inr r) \<and> (ex_engine s, ex_fs s) = (e1, fs1)) \<and>
      (\<exists>t. reach ?step s t \<and> promise_of t = Some (Inr r))"
    if "taken_whole accepts (request_serialize q)" "taken_whole accepts (response_serialize r)" and s: "reach ?step ?new s" for s
  proof -
    note whole = exchange_live.inv_reach [OF s exchange_whole_new [OF assms(1-3) that(1,2)]]
    from exchange_live.reaches_final [OF whole] obtain t where t: "reach ?step s t" "promise_of t \<noteq> None" by blast
    from exchange_whole_response [OF exchange_live.inv_reach [OF t(1) whole] t(2)] t(1)
    have "\<exists>t. reach ?step s t \<and> promise_of t = Some (Inr r)" by blast
    moreover have "promise_of s = Some (Inr r) \<and> (ex_engine s, ex_fs s) = (e1, fs1)" if "\<nexists>t. ?step s t"
      using exchange_whole_response [OF whole exchange_live.stuck_final [OF reach_refl whole that]] .
    ultimately show ?thesis by blast
  qed
  ultimately show ?thesis by blast
qed

theorem exchange_completes_witness:
  "\<exists>t. reach (exchange_step plain_externals small_params complete_writes no_faults)
      (new_exchange small_request small_engine small_fs) t \<and>
    promise_of t = Some (Inr (Response ResponseStatus_Ok []))"
proof -
  have "\<exists>k. complete_writes bs k" "complete_writes bs 0 = (bs = [])" for bs by (simp_all add: complete_writes_def)
  with exchange_completes [OF small_request_ok small_response_ok small_handle, of complete_writes]
  show ?thesis by (simp add: reach_refl)
qed

text \<open>
  C24: The client sends its request once and does not look at how many bytes were taken. If the
  socket takes at least four of them but not all, the exchange comes to a state without errors
  from which nothing can happen: the server waits for the rest of the request, the client for
  the response.
\<close>

theorem partial_send_deadlocks:
  assumes "wf_request q" "accepts (request_serialize q) k" "4 \<le> k" "k < length (request_serialize q)"
  shows "\<exists>s. reach (exchange_step x P accepts no_faults) (new_exchange q e fs) s \<and> promise_of s = None \<and>
    ex_engine s = e \<and> (\<nexists>t. exchange_step x P accepts no_faults s t)"
  using reaches_stuck [where accepts = accepts and k = k, OF assms(1) _ assms(3,4), of x P no_faults e fs] assms(2)
    stuck_is_stuck [OF assms(1,3,4), of x P accepts e fs]
  by (intro exI [of _ "stuck_exchange k q e fs"]) (simp add: stuck_exchange_def new_client_session_def)

theorem partial_send_deadlocks_witness:
  "\<exists>s. reach (exchange_step plain_externals small_params (\<lambda>bs n. n = 5) no_faults)
      (new_exchange small_request small_engine small_fs) s \<and> promise_of s = None"
proof -
  have "length (request_serialize small_request) = 17"
    by (simp add: small_request_def request_serialize_def Request_def size_of_list_def)
  then show ?thesis
    using partial_send_deadlocks [OF small_request_ok, of "\<lambda>bs n. n = 5" 5 plain_externals small_params small_engine small_fs]
    by auto
qed

text \<open>
  The sessions of a server are served one after the other, however their steps interleave:
  from a server without sessions, in every state it reaches the database is where passing it the
  served requests one by one, in the order of service, brings it; each of them was answered with
  the response that this sequence gives; a session is served at most once, and what it has
  written is a prefix of what \<open>async_write\<close> puts on the wire for its response, all of it once it is
  over without an error.
\<close>

theorem sessions_are_serialised:
  assumes "sv_conns sv0 = []"
    "reach (server_step x P accepts faults) (sv0, []) (sv, h)"
  shows "handle_run x P (map (\<lambda>(i, q, r). q) h) (sv_engine sv0) (sv_fs sv0) =
      (map (\<lambda>(i, q, r). Inr r) h, sv_engine sv, sv_fs sv) \<and>
    (\<forall>i < length (sv_conns sv). length (of_session i h) \<le> 1 \<and>
       (of_session i h = [] \<longrightarrow> cn_out (sv_conns sv ! i) = []) \<and>
       (\<forall>q r. of_session i h = [(i, q, r)] \<longrightarrow>
          (cn_out (sv_conns sv ! i) \<noteq> [] \<longrightarrow>
             (\<exists>wire. on_the_wire accepts (response_serialize r) wire \<and> prefix (cn_out (sv_conns sv ! i)) wire)) \<and>
          ((\<forall>message. \<not> faults message) \<longrightarrow> ss_pending (cn_session (sv_conns sv ! i)) = None \<longrightarrow>
             on_the_wire accepts (response_serialize r) (cn_out (sv_conns sv ! i)))))"
proof -
  have "server_inv x P accepts faults (sv_engine sv0) (sv_fs sv0) (sv0, [])"
    using assms(1) by (simp add: server_inv_def)
  from serving.inv_reach [OF assms(2) this]
  have run: "handle_run x P (map (\<lambda>(i, q, r). q) h) (sv_engine sv0) (sv_fs sv0) =
      (map (\<lambda>(i, q, r). Inr r) h, sv_engine sv, sv_fs sv)"
    and rel: "i < length (sv_conns sv) \<Longrightarrow> conn_rel accepts faults (of_session i h) (sv_conns sv ! i)" for i
    by (auto simp: server_inv_def)
  have "length (of_session i h) \<le> 1 \<and> (of_session i h = [] \<longrightarrow> cn_out (sv_conns sv ! i) = []) \<and>
      (\<forall>q r. of_session i h = [(i, q, r)] \<longrightarrow>
          (cn_out (sv_conns sv ! i) \<noteq> [] \<longrightarrow>
             (\<exists>wire. on_the_wire accepts (response_serialize r) wire \<and> prefix (cn_out (sv_conns sv ! i)) wire)) \<and>
          ((\<forall>message. \<not> faults message) \<longrightarrow> ss_pending (cn_session (sv_conns sv ! i)) = None \<longrightarrow>
             on_the_wire accepts (response_serialize r) (cn_out (sv_conns sv ! i))))" if "i < length (sv_conns sv)" for i
    using rel [OF that]
    by (cases "ss_pending (cn_session (sv_conns sv ! i))" rule: reading.cases) (auto simp: conn_rel_def)
  with run show ?thesis by blast
qed

text \<open>
  C22: No session of a server misuses its buffer or fails an assertion, whatever a client sends:
  the buffer never holds more than four bytes and those they announce, so less than \<open>2\<^sup>3\<^sup>2 + 4\<close>
  altogether; and a callback that fails has passed a request to a database whose \<open>handle\<close> failed.
\<close>

theorem sessions_are_safe:
  assumes "sv_conns sv0 = []" "reach (server_step x P accepts faults) (sv0, []) (sv, h)"
    "i < length (sv_conns sv)"
  shows "length (ss_requestBuffer (cn_session (sv_conns sv ! i))) < 2 ^ 32 + 4 \<and>
    (\<forall>lab err e fs. session_step x P accepts faults (sv_conns sv ! i, sv_engine sv, sv_fs sv) lab (Inl err, e, fs) \<longrightarrow>
       (\<exists>q. lab = Some q \<and> Database_handle x P q (sv_engine sv) (sv_fs sv) = (Inl err, e, fs)))"
proof -
  have "server_inv x P accepts faults (sv_engine sv0) (sv_fs sv0) (sv0, [])"
    using assms(1) by (simp add: server_inv_def)
  from serving.inv_reach [OF assms(2) this] have ok: "session_ok (sv_conns sv ! i)"
    using assms(3) by (auto simp: server_inv_def)
  have "unat (ss_contentLength (cn_session (sv_conns sv ! i))) < 2 ^ 32"
    using unsigned_less [of "ss_contentLength (cn_session (sv_conns sv ! i))"] by simp
  with ok have "length (ss_requestBuffer (cn_session (sv_conns sv ! i))) < 2 ^ 32 + 4"
    by (auto simp: server_session_ok_def split: option.splits server_op.splits)
  moreover have "\<exists>q. lab = Some q \<and> Database_handle x P q (sv_engine sv) (sv_fs sv) = (Inl err, e, fs)"
    if step: "session_step x P accepts faults (sv_conns sv ! i, sv_engine sv, sv_fs sv) lab (Inl err, e, fs)"
    for lab err e fs
  proof (cases lab)
    case None
    from session_step_silent [OF ok step [unfolded None]] show ?thesis by simp
  next
    case (Some q)
    from step [unfolded Some] obtain g n where "Database_handle x P q (sv_engine sv) (sv_fs sv) = (g, e, fs)"
      "Inl err = rmap (\<lambda>response. put_session n [] (sv_conns sv ! i) ((cn_session (sv_conns sv ! i))\<lparr>ss_requestBuffer := [],
        ss_pending := Some (Write_response (response_serialize response))\<rparr>)) g"
      by (rule session_step_request [OF ok])
    with Some show ?thesis by (cases g) auto
  qed
  ultimately show ?thesis by blast
qed

theorem sessions_are_safe_witness:
  "\<exists>sv :: server. length (sv_conns sv) = 1 \<and> length (ss_requestBuffer (cn_session (sv_conns sv ! 0))) < 2 ^ 32 + 4"
proof -
  from small_serving obtain sv where sv: "reach (server_step plain_externals small_params complete_writes no_faults)
      (small_server, []) (sv, [(0, small_request, Response ResponseStatus_Ok [])])" "length (sv_conns sv) = 1" by blast
  from sessions_are_safe [OF small_server_conns(1) sv(1), of 0] sv(2)
  have "length (sv_conns sv) = 1 \<and> length (ss_requestBuffer (cn_session (sv_conns sv ! 0))) < 2 ^ 32 + 4" by simp
  then show ?thesis by (rule exI)
qed

text \<open>
  C23: No future of a connector is set twice or left unset for ever. In every state that a connector
  reaches, no handler of a session fails (so no promise is set twice and no assertion fails);
  a future that has its value keeps it in every later state; a session is at its end exactly if its
  future is set; and destroying the connector sets every future that is still open, to an
  exception, and leaves the others as they are.
\<close>

theorem futures_are_set_once:
  assumes "reach (connector_step accepts faults) (DatabaseConnector_new address port) co"
    "i < length (co_sessions co)"
  shows "(\<forall>r. client_step accepts faults (co_sessions co ! i) r \<longrightarrow> (\<exists>c. r = Inr c)) \<and>
    (future_value co (Future_of i) = None \<longleftrightarrow> cs_pending (cl_session (co_sessions co ! i)) \<noteq> None) \<and>
    (\<forall>co' r. reach (connector_step accepts faults) co co' \<longrightarrow> future_value co (Future_of i) = Some r \<longrightarrow>
       future_value co' (Future_of i) = Some r) \<and>
    future_value (DatabaseConnectorImpl_destroy co) (Future_of i) =
      (case future_value co (Future_of i) of None \<Rightarrow> Some (Inl Future_error) | Some r \<Rightarrow> Some r)"
proof -
  have "connector_ok (DatabaseConnector_new address port)"
    by (simp add: connector_ok_def DatabaseConnector_new_def)
  with connector.inv_reach [OF assms(1)] have ok: "connector_ok co" by simp
  then have client: "client_ok (co_sessions co ! i)" using assms(2) by (simp add: connector_ok_def)
  have "future_value co' (Future_of i) = Some r"
    if "reach (connector_step accepts faults) co co'" "future_value co (Future_of i) = Some r" for co' r
    using future_value_reach [OF that(1) ok assms(2) that(2)] by simp
  moreover have "\<exists>c. r = Inr c" if "client_step accepts faults (co_sessions co ! i) r" for r
    using client_step_ok [OF client that] by blast
  moreover have "future_value co (Future_of i) = None \<longleftrightarrow> cs_pending (cl_session (co_sessions co ! i)) \<noteq> None"
    using client by (simp add: future_value_def client_session_ok_def)
  moreover have "future_value (DatabaseConnectorImpl_destroy co) (Future_of i) =
      (case future_value co (Future_of i) of None \<Rightarrow> Some (Inl Future_error) | Some r \<Rightarrow> Some r)"
    using client assms(2)
    by (auto simp: future_value_def DatabaseConnectorImpl_destroy_def client_session_ok_def split: option.splits)
  ultimately show ?thesis by blast
qed

theorem futures_are_set_once_witness:
  "\<exists>co. future_value co (Future_of 0) = None \<and>
     future_value (DatabaseConnectorImpl_destroy co) (Future_of 0) = Some (Inl Future_error)"
proof -
  let ?co = "DatabaseConnector_new ''127.0.0.1'' 3333"
  let ?next = "?co\<lparr>co_sessions := [new_client small_request]\<rparr>"
  have "DatabaseConnectorImpl_execute (Inr ()) (Inr ()) small_request ?co = Inr (Future_of 0, ?next)"
    using ClientSession_run_new [of small_request]
    by (simp add: DatabaseConnectorImpl_execute_def DatabaseConnector_new_def new_client_def)
  then have r: "reach (connector_step complete_writes no_faults) ?co ?next"
    by (intro reach_one connector_step.executed)
  have none: "future_value ?next (Future_of 0) = None"
    by (simp add: future_value_def new_client_def new_client_session_def)
  from futures_are_set_once [OF r, of 0] none show ?thesis by (intro exI [of _ ?next]) simp
qed

text \<open>
  C40: An acceptor never stops: whatever starts, stops and accepts it goes through, with errors or
  without, it stays open, and from its start on there is always an accept outstanding. The flag
  that \<open>stop\<close> sets is never true.
\<close>

theorem acceptor_never_stops:
  assumes "reach acceptor_step new_acceptor a"
  shows "\<not> ac_isStopped a \<and> ac_open a \<and> (ac_listening a \<longrightarrow> 0 < ac_pending a)"
  using acceptor.inv_reach [OF assms acceptor_runs_new] by (simp add: acceptor_runs_def)

theorem acceptor_never_stops_witness:
  "let a = Acceptor_stop (Acceptor_initAccept (new_acceptor\<lparr>ac_listening := True\<rparr>)) in \<not> ac_isStopped a \<and> 0 < ac_pending a"
proof -
  let ?b = "Acceptor_initAccept (new_acceptor\<lparr>ac_listening := True\<rparr>)"
  have "acceptor_step new_acceptor ?b"
    by (rule acceptor_step.started) (simp add: Acceptor_start_def)
  then have "reach acceptor_step new_acceptor (Acceptor_stop ?b)"
    by (rule reach_step [OF reach_one]) (rule acceptor_step.stopped)
  from acceptor_never_stops [OF this] show ?thesis
    by (simp add: Let_def Acceptor_stop_def Acceptor_initAccept_def)
qed

text \<open>
  C39: Starting a server that is not running opens its database and starts its threads, and
  destroying it then joins them and closes the database. But a server with at least one thread that
  was stopped cannot be destroyed: the destructor stops it again, joining a thread that is not
  joinable throws, and the program terminates. A server without threads joins none: it can be
  stopped again, and destroyed.
\<close>

theorem server_life:
  assumes "sv_threads sv = []"
    "Database_open x P (sv_databaseDir sv) (sv_databaseOptions sv) (sv_engine sv) (sv_fs sv) = (Inr (), e, fs)"
  shows "\<exists>sv1 sv2. DatabaseServer_start x P (Inr ()) sv = (Inr (), sv1) \<and>
    sv_threads sv1 = replicate (unat (sv_numThreads sv)) True \<and> 0 < ac_pending (sv_acceptor sv1) \<and>
    DatabaseServerImpl_destroy sv1 = Inr (se_close e fs) \<and>
    DatabaseServer_stop sv1 = (Inr (), sv2) \<and> sv_stopped sv2 \<and>
    fst (DatabaseServer_stop sv2) = (if sv_numThreads sv = 0 then Inr () else Inl System_error) \<and>
    DatabaseServerImpl_destroy sv2 = (if sv_numThreads sv = 0 then Inr (se_close e fs) else Inl Terminate)"
  using DatabaseServer_start_ok [OF assms] join_threads_started [of "unat (sv_numThreads sv)"]
    join_threads_joined [of "unat (sv_numThreads sv)"]
  by (auto simp: DatabaseServer_stop_def ServerBase_stop_def DatabaseServerImpl_close_def
      DatabaseServerImpl_destroy_def Acceptor_initAccept_def unat_eq_0)

theorem server_life_witness:
  "\<exists>sv sv2. DatabaseServer_stop sv = (Inr (), sv2) \<and> DatabaseServerImpl_destroy sv2 = Inl Terminate"
proof -
  let ?sv = "DatabaseServer_new small_params 1 [''db''] small_options small_fs"
  obtain e fs where "Database_open plain_externals small_params [''db''] small_options (new_engine small_params) small_fs =
      (Inr (), e, fs)" using small_database unfolding Database_open_def by blast
  then have "Database_open plain_externals small_params (sv_databaseDir ?sv) (sv_databaseOptions ?sv) (sv_engine ?sv)
      (sv_fs ?sv) = (Inr (), e, fs)" by (simp add: DatabaseServer_new_def)
  from server_life [OF _ this] show ?thesis by (auto simp: DatabaseServer_new_def)
qed

end
