(* ===== verification/Programs.thy ===== *)
theory Programs
  imports NetworkProperties
begin

text \<open>
  The three programs of the repository: the command line client and server of
  src/Networking/MainClient.cpp and MainServer.cpp, and examples/main.cpp. Parsing the command
  line is code of boost::program_options: its outcome, the options with their default values, is
  an argument of the models, as are the outcomes of the calls of the operating system.
\<close>

section \<open>What the programs print\<close>

definition getResponseStatus :: "response_status \<Rightarrow> string" where
  "getResponseStatus status =
     (case status of
        ResponseStatus_Ok \<Rightarrow> ''OK''
      | ResponseStatus_NotFound \<Rightarrow> ''NotFound''
      | ResponseStatus_InvalidRequestType \<Rightarrow> ''InvalidRequestType''
      | ResponseStatus_UnknownError \<Rightarrow> ''UnknownError''
      | ResponseStatus_other _ \<Rightarrow> ''UnknownResponseStatus'')"

definition to_bytes :: "string \<Rightarrow> bytes" where
  "to_bytes s = map of_char s"

definition text_of :: "bytes \<Rightarrow> string" where
  "text_of bs = map (\<lambda>b. char_of (unat b)) bs"

lemma text_of_to_bytes [simp]: "text_of (to_bytes s) = s"
proof -
  have "unat (of_char c :: u8) = of_char c" for c :: char
    using unat_of_nat [where 'a = 8, of "of_char c"] by (simp add: of_nat_of_char)
  then show ?thesis by (simp add: text_of_def to_bytes_def comp_def)
qed

text \<open>
  The request type is an \<open>int\<close> that is cast to an enumeration of one byte. The response is
  printed on one or two lines.
\<close>

definition main_request :: "32 word \<Rightarrow> u64 \<Rightarrow> bytes \<Rightarrow> request" where
  "main_request requestType keyId value =
     Request (request_type_of_byte (ucast requestType)) (Key keyId) value"

definition main_output :: "response \<Rightarrow> string list" where
  "main_output response =
     (''Response status: '' @ getResponseStatus (rs_status response)) #
     (if rs_value response \<noteq> [] then [''Content        : '' @ text_of (rs_value response)] else [])"

text \<open>The exit code of a program and the lines it has printed; an exception is caught in \<open>main\<close>.\<close>

definition exit_code :: "(nat \<times> 'a) result \<Rightarrow> 'a \<Rightarrow> (nat \<times> 'a) result" where
  "exit_code r a =
     (case r of
        Inr code \<Rightarrow> Inr code
      | Inl err \<Rightarrow> if is_std_exception err then Inr (1, a) else Inl err)"

section \<open>The client\<close>

record client_args =
  ca_help :: bool
  ca_port :: "16 word"
  ca_address :: string
  ca_request :: "32 word option"
  ca_key :: "u64 option"
  ca_value :: bytes

text \<open>Options without a default may be missing.\<close>

definition arg_as :: "'a option \<Rightarrow> 'a result" where
  "arg_as v = (case v of None \<Rightarrow> Inl Bad_any_cast | Some a \<Rightarrow> Inr a)"

text \<open>
  \<open>threadStarts\<close>, \<open>created\<close> and \<open>started\<close> are the outcomes of starting the connector's thread,
  making the socket and starting the resolver; \<open>get\<close> is what the future gives in the end;
  \<open>description\<close> is the help text.
\<close>

definition client_main ::
    "string list \<Rightarrow> client_args result \<Rightarrow> unit result \<Rightarrow> unit result \<Rightarrow> unit result \<Rightarrow>
     (connector \<Rightarrow> response_future \<Rightarrow> response result) \<Rightarrow> (nat \<times> string list) result" where
  "client_main description parsed threadStarts created started get =
     exit_code
       (rbind parsed (\<lambda>args.
        if ca_help args then Inr (1, description)
        else
          rbind (arg_as (ca_request args)) (\<lambda>requestType.
          rbind (arg_as (ca_key args)) (\<lambda>keyId.
          rbind threadStarts (\<lambda>_.
            let connector = DatabaseConnector_new (ca_address args) (ca_port args);
                request = main_request requestType keyId (ca_value args)
            in rbind (DatabaseConnector_execute created started request connector) (\<lambda>(future, connector').
               rbind (get connector' future) (\<lambda>response.
               Inr (0, main_output response)))))))) []"

section \<open>The server\<close>

record server_args =
  sa_help :: bool
  sa_port :: "16 word"
  sa_threads :: "16 word"
  sa_directory :: path

text \<open>A server program that ends, that serves (its \<open>main\<close> is in \<open>wait\<close>), or that was terminated.\<close>

datatype server_program = Exited nat fsys | Serving server | Died error

definition server_failed :: "error \<Rightarrow> fsys \<Rightarrow> server_program" where
  "server_failed err fs = (if is_std_exception err then Exited 1 fs else Died err)"

text \<open>An exception of \<open>start\<close> destroys the server before it is caught.\<close>

definition server_main ::
    "externals \<Rightarrow> filter_params \<Rightarrow> server_args result \<Rightarrow> (16 word \<Rightarrow> unit result) \<Rightarrow> unit result \<Rightarrow>
     fsys \<Rightarrow> server_program" where
  "server_main x P parsed binds listens fs =
     (case parsed of
        Inl err \<Rightarrow> server_failed err fs
      | Inr args \<Rightarrow>
          if sa_help args then Exited 1 fs
          else
            (case binds (sa_port args) of
               Inl err \<Rightarrow> server_failed err fs
             | Inr _ \<Rightarrow>
                 (let server = DatabaseServer_new P (ucast (sa_threads args)) (sa_directory args) default_options fs
                  in case DatabaseServer_start x P listens server of
                       (Inr _, server') \<Rightarrow> Serving server'
                     | (Inl err, server') \<Rightarrow>
                         if \<not> is_std_exception err then Died err
                         else
                           (case DatabaseServerImpl_destroy server' of
                              Inl err' \<Rightarrow> Died err'
                            | Inr fs' \<Rightarrow> Exited 1 fs'))))"

section \<open>The example\<close>

text \<open>
  An exception ends the program where it is thrown, with the file system as it is then; so does
  an assertion. The lines it prints come before the removal; at its end the database is closed.
\<close>

definition example_main :: "externals \<Rightarrow> filter_params \<Rightarrow> fsys \<Rightarrow> string list result \<times> fsys" where
  "example_main x P fs0 =
     (let root = [''tmp'', ''db''];
          options = default_options\<lparr>opt_maxMemTableSize := 1 * 1024 * 1024, opt_maxWalBufferSize := 1 * 1024,
            opt_hashType := HashType_CityHash128, opt_compressionType := CompressionType_LZ4\<rparr>;
          key = Key 1234;
          input = to_bytes ''test read write string''
      in case Database_open x P root options (new_engine P) fs0 of
           (Inl err, e1, fs1) \<Rightarrow> (Inl err, fs1)
         | (Inr _, e1, fs1) \<Rightarrow>
             (case Database_put x P key input e1 fs1 of
                (Inl err, e2, fs2) \<Rightarrow> (Inl err, fs2)
              | (Inr _, e2, fs2) \<Rightarrow>
                  (case Database_get x P key e2 fs2 of
                     Inl err \<Rightarrow> (Inl err, fs2)
                   | Inr None \<Rightarrow> (Inl Assertion_failed, fs2)
                   | Inr (Some out) \<Rightarrow>
                       (case Database_remove key e2 fs2 of
                          (Inl err, e3, fs3) \<Rightarrow> (Inl err, fs3)
                        | (Inr _, e3, fs3) \<Rightarrow>
                            (case Database_get x P key e3 fs3 of
                               Inl err \<Rightarrow> (Inl err, fs3)
                             | Inr (Some _) \<Rightarrow> (Inl Assertion_failed, fs3)
                             | Inr None \<Rightarrow>
                                 (Inr [''Input  value: '' @ text_of input, ''Output value: '' @ text_of out],
                                  se_close e3 fs3))))))"

section \<open>The example keeps its assertions\<close>

lemma example_run:
  assumes "empty_directory fs [''tmp'', ''db'']" "lz4_contract x" "lz4_bound_contract x"
    "0 < p_filterSize P" "p_filterSize P < 2 ^ 64"
  shows "\<exists>fs'. example_main x P fs =
    (Inr [''Input  value: test read write string'', ''Output value: test read write string''], fs')"
proof -
  let ?v = "to_bytes ''test read write string''" and ?k = "Key 1234" and ?c = LZ4CompressionAdapter
  let ?opts = "default_options\<lparr>opt_maxMemTableSize := 1 * 1024 * 1024, opt_maxWalBufferSize := 1 * 1024,
            opt_hashType := HashType_CityHash128, opt_compressionType := CompressionType_LZ4\<rparr>"
  let ?h = CityHash128Adapter
  have opts: "createHasher (opt_hashType ?opts) = Some ?h" "?c = createCompressor (opt_compressionType ?opts)"
    "opt_maxMemTableSize ?opts = 1048576" by simp_all
  have len: "length ?v = 22" by (simp add: to_bytes_def)
  obtain cv where cv: "compress x ?c ?v = Inr cv" "uncompress x ?c cv = Inr ?v" "length cv \<le> 1008"
  proof -
    have v: "?v \<noteq> []" "length ?v \<le> lz4_max_input" using len by (auto simp: lz4_max_input_def)
    obtain n out where out: "lz4_compress x ?v = Inr (word_bytes (size_of_list ?v) @ out)"
      "n \<le> ext_lz4_bound x (int (length ?v))" "length out = nat n"
      using lz4_compress_ok [OF assms(2) v(2)] by metis
    from lz4_round_trip [OF assms(2) v] out(1)
    have "lz4_uncompress x (word_bytes (size_of_list ?v) @ out) = Inr ?v" by auto
    moreover have "length (word_bytes (size_of_list ?v) @ out) \<le> 1008"
      using out(2,3) assms(3) len by (simp add: lz4_bound_contract_def lz4_max_input_def)
    ultimately show ?thesis using out(1) by (intro that [of "word_bytes (size_of_list ?v) @ out"]) simp_all
  qed
  from open_run_inv [OF assms(1) opts(1) assms(4,5) opts(2)] obtain e1 fs1 m1 where
    e1: "se_open x P [''tmp'', ''db''] ?opts (new_engine P) fs = (Inr (), e1, fs1)"
    "run_inv x P ?c ?h [] e1 fs1 m1 []" "mt_map m1 = []" "mt_counter m1 = 0" "e_segmentId e1 = 0"
    "mt_memorySize m1 = 0" "e_memTableLimit e1 = opt_maxMemTableSize ?opts" by blast
  have ok: "op_ok x ?c (Op_put ?k ?v)"
    using assms(2) len by (auto simp: op_ok_def npos_def lz4_max_input_def)
  have room: "room (Suc 1) (35 + length cv + 35) e1 m1"
    using e1(3-5) cv(3) by (simp add: room_def mt_fits_def mt_bytes_empty)
  have small: "mt_memorySize m1 + getRowSize (make_put_row ?k cv (hasher_hash x ?h cv)) < e_memTableLimit e1"
    using e1(6,7) opts(3) unat_getRowSize [of "make_put_row ?k cv (hasher_hash x ?h cv)"] cv(3)
    by (simp add: word_less_nat_alt make_put_row_def max_string_size)
  from put_stays [OF e1(2) ok room cv(1,2) small] obtain e2 m2 where
    e2: "se_put x P ?k ?v e1 fs1 = (Inr (), e2, fs1)" "room 1 35 e2 m2" "run_inv x P ?c ?h [Op_put ?k ?v] e2 fs1 m2 []"
    by auto
  have get: "se_get x P ?k e2 fs1 = Inr (Some ?v)"
    using run_inv_get [OF e2(3), of ?k] by (simp add: last_writes_def apply_op_def)
  have "room (Suc 0) (35 + 0) e2 m2" using e2(2) by simp
  from remove_step [OF _ _ _ this, of x P fs1 "[]" ?k] e2(3) obtain e3 m3 where
    e3: "se_remove ?k e2 fs1 = (Inr (), e3, fs1)" "se_inv x P e3 fs1 m3 []"
      "mt_lookup m3 = (mt_lookup m2)(?k \<mapsto> make_remove_row ?k)"
    by (auto simp: run_inv_def npos_def)
  have "se_get x P ?k e3 fs1 = Inr None"
    using se_get_reads [of x P e3 fs1 m3 "[]" ?k] e3(2,3)
    by (simp add: se_inv_def reads_def make_remove_row_def)
  with e1(1) e2(1) e3(1) get show ?thesis
    by (simp add: example_main_def Let_def Database_open_def Database_put_def Database_get_def
        Database_remove_def del: One_nat_def)
qed

section \<open>Properties\<close>

text \<open>
  C38: The example program works: run on an empty directory, with an LZ4 library that compresses
  within its documented bound, both of its assertions hold - the value it put is found, and is not
  found any more after the removal - and it prints the value it put as the value it got.
\<close>

theorem example_keeps_its_assertions:
  assumes "empty_directory fs [''tmp'', ''db'']" "lz4_contract x" "lz4_bound_contract x"
    "0 < p_filterSize P" "p_filterSize P < 2 ^ 64"
  shows "fst (example_main x P fs) =
    Inr [''Input  value: test read write string'', ''Output value: test read write string'']"
  using example_run [OF assms] by auto

theorem example_keeps_its_assertions_witness:
  "fst (example_main bounded_externals omx_params [([''tmp''], Dir), ([''tmp'', ''db''], Dir)]) =
    Inr [''Input  value: test read write string'', ''Output value: test read write string'']"
  by (rule example_keeps_its_assertions [OF _ bounded_externals_contracts])
    (simp_all add: empty_directory_def is_directory_def omx_params_def kFilterSize_def)

lemma byte_of_int: "(word_of_int (uint (t :: 32 word) mod 256) :: u8) = ucast t"
proof -
  have "uint t mod 256 = take_bit 8 (uint t)" by (simp add: take_bit_eq_mod)
  then show ?thesis by (simp only: ucast_eq) (rule bit_word_eqI, simp add: bit_simps)
qed

lemma request_type_round [simp]:
  "request_type_of_byte (request_type_byte (request_type_of_byte b)) = request_type_of_byte b"
  by (simp add: request_type_of_byte_def request_type_byte_def)

text \<open>The client starts the session that an exchange begins with and waits for its future.\<close>

lemma client_main_get:
  assumes "ca_request args = Some t" "ca_key args = Some k" "\<not> ca_help args"
    "\<forall>co. co_sessions co = [new_client (main_request t k (ca_value args))] \<longrightarrow> get co (Future_of 0) = answer"
  shows "client_main d (Inr args) (Inr ()) (Inr ()) (Inr ()) get =
    exit_code (rmap (\<lambda>r. (0, main_output r)) answer) []"
proof -
  let ?q = "main_request t k (ca_value args)" and ?co = "DatabaseConnector_new (ca_address args) (ca_port args)"
  have "DatabaseConnector_execute (Inr ()) (Inr ()) ?q ?co =
      Inr (Future_of 0, ?co\<lparr>co_sessions := [new_client ?q]\<rparr>)"
    by (simp add: DatabaseConnector_execute_def DatabaseConnectorImpl_execute_def DatabaseConnector_new_def
        ClientSession_run_new) (simp add: new_client_def)
  moreover have "get (?co\<lparr>co_sessions := [new_client ?q]\<rparr>) (Future_of 0) = answer"
    using assms(4) by simp
  ultimately show ?thesis
    using assms(1-3) by (cases answer) (simp_all add: client_main_def arg_as_def Let_def)
qed

text \<open>
  C36: The command line client prints the response that its session gets. If all its options are
  given, the value is shorter than the \<open>2\<^sup>3\<^sup>2 - 13\<close> bytes a message can hold, and its session runs an
  exchange with a server on the database, over whatever connection, then the request it makes is the
  one of its options, with the type taken modulo 256, and it ends with code 0 having printed status
  and value of the response in its future, or with code 1, having printed nothing, if the
  connection fails. That response is the one the database gives to that request, if the socket
  takes at least one byte of the request at the call that sends it and the serialized response as a
  whole at the call that writes it; what the client gets otherwise is what an exchange gives.
  Without a request type or a key it ends with code 1 without a connection.
\<close>

theorem client_prints_database_answer:
  assumes "ca_request args = Some t" "ca_key args = Some k" "\<not> ca_help args"
    "length (ca_value args) + 13 < 2 ^ 32" "q = main_request t k (ca_value args)"
    "reach (exchange_step x P accepts faults) (new_exchange q e fs) s" "promise_of s = Some answer"
    "\<forall>co. co_sessions co = [ex_client (new_exchange q e fs)] \<longrightarrow> get co (Future_of 0) = answer"
  shows "rq_type q = request_type_of_byte (word_of_int (uint t mod 256)) \<and> rq_key q = Key k \<and>
    rq_value q = ca_value args \<and>
    (\<forall>r'. answer = Inr r' \<longrightarrow> client_main d (Inr args) (Inr ()) (Inr ()) (Inr ()) get =
       Inr (0, (''Response status: '' @ getResponseStatus (rs_status r')) #
         (if rs_value r' = [] then [] else [''Content        : '' @ text_of (rs_value r')]))) \<and>
    (\<forall>r' r e1 fs1. answer = Inr r' \<longrightarrow> Database_handle x P q e fs = (Inr r, e1, fs1) \<longrightarrow> wf_response r \<longrightarrow>
       \<not> accepts (request_serialize q) 0 \<longrightarrow> taken_whole accepts (response_serialize r) \<longrightarrow>
       r' = r \<and> (ex_engine s, ex_fs s) = (e1, fs1)) \<and>
    (\<forall>err. answer = Inl err \<longrightarrow> is_std_exception err \<longrightarrow>
       client_main d (Inr args) (Inr ()) (Inr ()) (Inr ()) get = Inr (1, [])) \<and>
    client_main d (Inr (args\<lparr>ca_request := None\<rparr>)) (Inr ()) (Inr ()) (Inr ()) get = Inr (1, []) \<and>
    client_main d (Inr (args\<lparr>ca_key := None\<rparr>)) (Inr ()) (Inr ()) (Inr ()) get = Inr (1, [])"
proof -
  have q: "q = Request (request_type_of_byte (ucast t)) (Key k) (ca_value args)"
    using assms(5) by (simp add: main_request_def)
  have wf: "wf_request q" unfolding q using assms(4) by (rule wf_Request) (rule request_type_round)
  have own: "r' = r \<and> (ex_engine s, ex_fs s) = (e1, fs1)"
    if "answer = Inr r'" "Database_handle x P q e fs = (Inr r, e1, fs1)" "wf_response r"
      "\<not> accepts (request_serialize q) 0" "taken_whole accepts (response_serialize r)" for r' r e1 fs1
  proof -
    from exchange_good_database(1) [OF exchange.inv_reach [OF assms(6) exchange_good_new]] assms(7) that(1)
    obtain sent q' r0 wire where *: "sent_at_once accepts (request_serialize q) sent" "asked sent q'"
      "Database_handle x P q' e fs = (Inr r0, ex_engine s, ex_fs s)"
      "on_the_wire accepts (response_serialize r0) wire" "answered wire r'" by auto
    from asked_own [OF wf *(1) that(4) *(2)] *(3) that(2) have "r0 = r" "(ex_engine s, ex_fs s) = (e1, fs1)" by auto
    with answered_whole [OF that(3,5), of wire r'] *(4,5) show ?thesis by simp
  qed
  note get = client_main_get [OF assms(1-3), of get answer d]
  show ?thesis
  proof (intro conjI allI impI)
    show "rq_type q = request_type_of_byte (word_of_int (uint t mod 256))" "rq_key q = Key k" "rq_value q = ca_value args"
      by (simp_all add: q Request_def byte_of_int)
  next
    fix r' assume "answer = Inr r'"
    with get assms(5,8) show "client_main d (Inr args) (Inr ()) (Inr ()) (Inr ()) get =
       Inr (0, (''Response status: '' @ getResponseStatus (rs_status r')) #
         (if rs_value r' = [] then [] else [''Content        : '' @ text_of (rs_value r')]))"
      by (simp add: new_exchange_def exit_code_def main_output_def)
  next
    fix err assume "answer = Inl err" "is_std_exception err"
    with get assms(5,8) show "client_main d (Inr args) (Inr ()) (Inr ()) (Inr ()) get = Inr (1, [])"
      by (simp add: new_exchange_def exit_code_def)
  qed (use assms own in \<open>simp_all add: client_main_def arg_as_def exit_code_def\<close>)
qed

theorem client_prints_database_answer_witness:
  "let args = \<lparr>ca_help = False, ca_port = 3333, ca_address = ''127.0.0.1'', ca_request = Some 258, ca_key = Some 1,
      ca_value = []\<rparr>
   in \<exists>get. client_main [] (Inr args) (Inr ()) (Inr ()) (Inr ()) get = Inr (0, [''Response status: OK''])"
proof -
  let ?args = "\<lparr>ca_help = False, ca_port = 3333, ca_address = ''127.0.0.1'', ca_request = Some 258, ca_key = Some 1,
      ca_value = []\<rparr>"
  let ?answer = "Inr (Response ResponseStatus_Ok [])"
  have q: "small_request = main_request 258 1 (ca_value ?args)"
    by (simp add: small_request_def main_request_def request_type_of_byte_def)
  obtain s where s: "reach (exchange_step plain_externals small_params complete_writes no_faults)
      (new_exchange small_request small_engine small_fs) s" "promise_of s = Some ?answer"
    by (rule small_exchange)
  from client_prints_database_answer [OF _ _ _ _ q s, of "\<lambda>_ _. ?answer" "[]"]
  have "client_main [] (Inr ?args) (Inr ()) (Inr ()) (Inr ()) (\<lambda>_ _. ?answer) = Inr (0, [''Response status: OK''])"
    by (simp add: getResponseStatus_def Response_def)
  then show ?thesis unfolding Let_def by blast
qed

text \<open>Opening a database in a directory that does not exist changes nothing and throws.\<close>

lemma se_open_missing:
  assumes "\<And>q. map_of fs (dir @ q) = None"
  shows "\<exists>e. se_open x P dir opts (new_engine P) fs = (Inl Filesystem_error, e, fs) \<and>
    close_memtable (e_memTable e) fs = fs"
proof -
  have none: "map_of fs dir = None" using assms [of "[]"] by simp
  have child: "map_of fs (dir @ [n]) = None" for n using assms [of "[n]"] .
  show ?thesis
    using none child
    by (simp add: se_open_def Let_def open_options_def open_paths_def fs_exists_def saveOptions_def write_file_def
        can_write_def is_directory_def open_log_def open_objects_def deref_def setWriteAheadLog_def wal_open_def
        ensure_directory_def create_directory_def close_memtable_def new_engine_def new_memtable_def
        wal_release_def wal_close_def)
qed

text \<open>
  C37: The command line server. In an empty directory it comes to serve: it has as many threads as
  it was told, an accept is pending, and its database is the one that opening the directory
  gives. In a directory that does not exist, or when listening fails, it ends with code 1 and the
  file system as it was.
\<close>

theorem server_program_serves:
  assumes "\<not> sa_help args" "binds (sa_port args) = Inr ()" "0 < p_filterSize P" "p_filterSize P < 2 ^ 64"
  shows "(empty_directory fs (sa_directory args) \<longrightarrow>
      (\<exists>sv. server_main x P (Inr args) binds (Inr ()) fs = Serving sv \<and>
         sv_threads sv = replicate (unat (sa_threads args)) True \<and> 0 < ac_pending (sv_acceptor sv) \<and> sv_conns sv = [] \<and>
         Database_open x P (sa_directory args) default_options (new_engine P) fs = (Inr (), sv_engine sv, sv_fs sv))) \<and>
    ((\<forall>q. map_of fs (sa_directory args @ q) = None) \<longrightarrow>
      server_main x P (Inr args) binds (Inr ()) fs = Exited 1 fs) \<and>
    (is_std_exception err \<longrightarrow> server_main x P (Inr args) binds (Inl err) fs = Exited 1 fs)"
proof (intro conjI impI)
  let ?dir = "sa_directory args" and ?n = "unat (sa_threads args)"
  note main = server_main_def DatabaseServer_start_def ServerBase_start_def DatabaseServerImpl_init_def
    DatabaseServer_new_def Acceptor_start_def Acceptor_initAccept_def new_acceptor_def Let_def
    DatabaseServerImpl_destroy_def ServerBase_stop_def DatabaseServerImpl_close_def se_close_def
  {
    let ?sv = "DatabaseServer_new P (ucast (sa_threads args)) ?dir default_options fs"
    assume "empty_directory fs ?dir"
    from se_open_empty [OF this, of default_options CityHash128Adapter P x] assms(3,4)
    obtain e fs' where db: "Database_open x P ?dir default_options (new_engine P) fs = (Inr (), e, fs')"
      unfolding Database_open_def default_options_def by auto
    have "?n < 2 ^ 16" using unsigned_less [of "sa_threads args"] by simp
    then have "unat (ucast (sa_threads args) :: u32) = ?n"
      by (simp add: unsigned_ucast_eq take_bit_nat_eq_self)
    moreover have "sv_threads ?sv = []" "Database_open x P (sv_databaseDir ?sv) (sv_databaseOptions ?sv) (sv_engine ?sv)
        (sv_fs ?sv) = (Inr (), e, fs')" using db by (simp_all add: DatabaseServer_new_def)
    from DatabaseServer_start_ok [OF this] have "DatabaseServer_start x P (Inr ()) ?sv =
      (Inr (), ?sv\<lparr>sv_acceptor := Acceptor_initAccept ((sv_acceptor ?sv)\<lparr>ac_listening := True\<rparr>), sv_engine := e,
        sv_fs := fs', sv_threads := replicate (unat (sv_numThreads ?sv)) True\<rparr>)" .
    ultimately show "\<exists>sv. server_main x P (Inr args) binds (Inr ()) fs = Serving sv \<and>
         sv_threads sv = replicate ?n True \<and> 0 < ac_pending (sv_acceptor sv) \<and> sv_conns sv = [] \<and>
         Database_open x P ?dir default_options (new_engine P) fs = (Inr (), sv_engine sv, sv_fs sv)"
      using assms(1,2) db by (simp add: server_main_def DatabaseServer_new_def Acceptor_initAccept_def Let_def)
  next
    assume "\<forall>q. map_of fs (?dir @ q) = None"
    with se_open_missing [of fs ?dir x P default_options] obtain e where
      "Database_open x P ?dir default_options (new_engine P) fs = (Inl Filesystem_error, e, fs)"
      "close_memtable (e_memTable e) fs = fs" unfolding Database_open_def by blast
    then show "server_main x P (Inr args) binds (Inr ()) fs = Exited 1 fs"
      using assms(1,2) by (simp add: main)
  next
    assume "is_std_exception err"
    then show "server_main x P (Inr args) binds (Inl err) fs = Exited 1 fs"
      using assms(1,2) by (simp add: main close_memtable_def new_engine_def)
  }
qed

theorem server_program_serves_witness:
  "let args = \<lparr>sa_help = False, sa_port = 3333, sa_threads = 2, sa_directory = [''db'']\<rparr>
   in (\<exists>sv. server_main plain_externals omx_params (Inr args) (\<lambda>_. Inr ()) (Inr ()) small_fs = Serving sv \<and>
         sv_threads sv = [True, True]) \<and>
      server_main plain_externals omx_params (Inr args) (\<lambda>_. Inr ()) (Inr ()) [] = Exited 1 []"
proof -
  let ?args = "\<lparr>sa_help = False, sa_port = 3333, sa_threads = 2, sa_directory = [''db'']\<rparr>"
  have P: "0 < p_filterSize omx_params" "p_filterSize omx_params < 2 ^ 64"
    by (simp_all add: omx_params_def kFilterSize_def)
  note serves = server_program_serves [of ?args "\<lambda>_. Inr ()" omx_params, OF _ _ P, of _ plain_externals Terminate]
  have "unat (sa_threads ?args) = 2" by simp
  then have "replicate (unat (sa_threads ?args)) True = [True, True]" by (simp add: numeral_2_eq_2)
  moreover have "empty_directory small_fs (sa_directory ?args)" using small_fs_empty by simp
  ultimately obtain sv where "server_main plain_externals omx_params (Inr ?args) (\<lambda>_. Inr ()) (Inr ()) small_fs = Serving sv"
    "sv_threads sv = [True, True]" using serves [of small_fs] by auto
  then show ?thesis unfolding Let_def using serves [of "[]"] by auto
qed

end
