(* ===== verification/MappedFile.thy ===== *)
theory MappedFile
  imports SSTableRow
begin

text \<open>
  src/File.h and src/File.cpp: reading and writing a part of a file through a memory mapping. No
  other part of the program uses it. The mapping is code of boost::interprocess: \<open>maps n offset
  len\<close> is the outcome of mapping \<open>len\<close> bytes at \<open>offset\<close> of a file of \<open>n\<close> bytes.
\<close>

type_synonym mapping_outcome = "nat \<Rightarrow> u64 \<Rightarrow> u64 \<Rightarrow> unit result"

definition file_size :: "fsys \<Rightarrow> path \<Rightarrow> u64 result" where
  "file_size fs p =
     (case file_content fs p of
        None \<Rightarrow> Inl Filesystem_error
      | Some c \<Rightarrow> Inr (size_of_list c))"

definition resize_file :: "fsys \<Rightarrow> path \<Rightarrow> u64 \<Rightarrow> fsys result" where
  "resize_file fs p n =
     (case file_content fs p of
        None \<Rightarrow> Inl Filesystem_error
      | Some c \<Rightarrow> Inr (AList.update p (File (take (unat n) c @ replicate (unat n - length c) 0)) fs))"

text \<open>Both sums of an offset and a size are taken modulo \<open>2\<^sup>6\<^sup>4\<close>.\<close>

definition File_read :: "mapping_outcome \<Rightarrow> path \<Rightarrow> u64 \<Rightarrow> u64 \<Rightarrow> fsys \<Rightarrow> bytes result" where
  "File_read maps p offset n fs =
     (if \<not> fs_exists fs p then Inl (Runtime_error ''file not exist'')
      else
        rbind (file_size fs p) (\<lambda>fileSize.
        if offset + n > fileSize then Inl (Runtime_error ''invalid size and offset'')
        else
          rbind (maps (unat fileSize) offset n) (\<lambda>_.
          case file_content fs p of
            None \<Rightarrow> Inl Filesystem_error
          | Some c \<Rightarrow>
              if unat n > max_string_size then Inl Length_error
              else if unat offset + unat n > length c then Inl (Undefined_behaviour ''read past the mapping'')
              else Inr (take (unat n) (drop (unat offset) c)))))"

definition File_create :: "path \<Rightarrow> fsys \<Rightarrow> fsys result" where
  "File_create p fs =
     (if \<not> fs_exists fs (butlast p) then Inl (Runtime_error ''invalid directory'')
      else Inr (write_file fs p []))"

definition File_write :: "mapping_outcome \<Rightarrow> path \<Rightarrow> u64 \<Rightarrow> bytes \<Rightarrow> fsys \<Rightarrow> unit result \<times> fsys" where
  "File_write maps p offset src fs =
     (case (if \<not> fs_exists fs p then File_create p fs else Inr fs) of
        Inl err \<Rightarrow> (Inl err, fs)
      | Inr fs1 \<Rightarrow>
          (case file_size fs1 p of
             Inl err \<Rightarrow> (Inl err, fs1)
           | Inr fileSize \<Rightarrow>
               (case (if offset + size_of_list src > fileSize
                      then resize_file fs1 p (offset + size_of_list src) else Inr fs1) of
                  Inl err \<Rightarrow> (Inl err, fs1)
                | Inr fs2 \<Rightarrow>
                    (case file_content fs2 p of
                       None \<Rightarrow> (Inl Filesystem_error, fs2)
                     | Some c \<Rightarrow>
                         (case maps (length c) offset (size_of_list src) of
                            Inl err \<Rightarrow> (Inl err, fs2)
                          | Inr _ \<Rightarrow>
                              if unat offset + length src > length c
                              then (Inl (Undefined_behaviour ''write past the mapping''), fs2)
                              else (Inr (), AList.update p
                                (File (take (unat offset) c @ src @ drop (unat offset + length src) c)) fs2))))))"

definition File_append :: "mapping_outcome \<Rightarrow> path \<Rightarrow> bytes \<Rightarrow> fsys \<Rightarrow> unit result \<times> fsys" where
  "File_append maps p src fs =
     (let offset = (case file_size fs p of Inl _ \<Rightarrow> 0 | Inr n \<Rightarrow> n)
      in File_write maps p offset src fs)"

section \<open>What the code relies on\<close>

text \<open>
  Mapping a part of a file that is not empty and lies within it succeeds; a failure is reported
  as an exception.
\<close>

definition mapping_contract :: "mapping_outcome \<Rightarrow> bool" where
  "mapping_contract maps \<longleftrightarrow>
     (\<forall>n offset len. len \<noteq> 0 \<longrightarrow> unat offset + unat len \<le> n \<longrightarrow> maps n offset len = Inr ()) \<and>
     (\<forall>n offset len err. maps n offset len = Inl err \<longrightarrow> err = Interprocess_error)"

definition plain_mapping :: mapping_outcome where
  "plain_mapping n offset len =
     (if len \<noteq> 0 \<and> unat offset + unat len \<le> n then Inr () else Inl Interprocess_error)"

lemma plain_mapping_contract: "mapping_contract plain_mapping"
  by (simp add: mapping_contract_def plain_mapping_def)

lemma mapping_ok:
  "mapping_contract maps \<Longrightarrow> len \<noteq> 0 \<Longrightarrow> unat offset + unat len \<le> n \<Longrightarrow> maps n offset len = Inr ()"
  by (simp add: mapping_contract_def)

lemma unat_sum: "unat (a :: u64) + unat b < 2 ^ 64 \<Longrightarrow> unat (a + b) = unat a + unat b"
  by (simp add: unat_word_ariths)

text \<open>The content of a file after a write at \<open>offset\<close>, the gap filled with zeros.\<close>

definition overwrite :: "nat \<Rightarrow> bytes \<Rightarrow> bytes \<Rightarrow> bytes" where
  "overwrite offset src c =
     (let c' = c @ replicate (offset + length src - length c) 0
      in take offset c' @ src @ drop (offset + length src) c')"

definition content_or_empty :: "fsys \<Rightarrow> path \<Rightarrow> bytes" where
  "content_or_empty fs p = (case file_content fs p of None \<Rightarrow> [] | Some c \<Rightarrow> c)"

lemma File_write_effect:
  assumes maps: "mapping_contract maps" and p: "can_write fs p" "fs_exists fs (butlast p)"
    and src: "src \<noteq> []" "unat offset + length src < 2 ^ 64" "length (content_or_empty fs p) < 2 ^ 64"
  shows "\<exists>fs'. File_write maps p offset src fs = (Inr (), fs') \<and>
    map_of fs' = (map_of fs)(p \<mapsto> File (overwrite (unat offset) src (content_or_empty fs p)))"
proof -
  define c where "c = content_or_empty fs p"
  define fs1 where "fs1 = (if fs_exists fs p then fs else write_file fs p [])"
  have created: "(if \<not> fs_exists fs p then File_create p fs else Inr fs) = Inr fs1"
    using p(2) by (simp add: File_create_def fs1_def)
  have fs1: "file_content fs1 p = Some c" "map_of fs1 = (map_of fs)(p \<mapsto> File c)"
    using p(1) by (auto simp: fs1_def c_def content_or_empty_def fs_exists_def file_content_def can_write_def
        is_directory_def map_of_write_file fun_eq_iff split: option.splits node.splits)
  have sz: "unat (size_of_list src) = length src" "unat (size_of_list c) = length c" "size_of_list src \<noteq> 0"
    using src by (auto simp: unat_size_of_list_small c_def simp flip: unat_eq_0)
  let ?upto = "unat offset + length src"
  have fin: "unat (offset + size_of_list src) = ?upto"
    using src(2) sz(1) unat_sum [of offset "size_of_list src"] by simp
  define c2 where "c2 = c @ replicate (?upto - length c) 0"
  define fs2 where "fs2 = (if ?upto > length c then AList.update p (File c2) fs1 else fs1)"
  have resized: "(if offset + size_of_list src > size_of_list c
      then resize_file fs1 p (offset + size_of_list src) else Inr fs1) = Inr fs2"
    using fs1(1) sz(2) fin by (auto simp: word_less_nat_alt resize_file_def fs2_def c2_def)
  have fs2: "file_content fs2 p = Some c2" "map_of fs2 = (map_of fs)(p \<mapsto> File c2)"
    using fs1 by (auto simp: fs2_def c2_def file_content_def update_conv' fun_eq_iff)
  have "?upto \<le> length c2" by (simp add: c2_def)
  moreover from this have "maps (length c2) offset (size_of_list src) = Inr ()"
    using sz by (intro mapping_ok [OF maps]) simp_all
  ultimately have "File_write maps p offset src fs =
      (Inr (), AList.update p (File (take (unat offset) c2 @ src @ drop ?upto c2)) fs2)"
    unfolding File_write_def created using fs1(1) resized fs2(1) by (simp add: file_size_def)
  then show ?thesis
    using fs2(2) by (simp add: overwrite_def c2_def [symmetric] c_def [symmetric] Let_def update_conv' fun_eq_iff)
qed

lemma length_overwrite: "length (overwrite offset src c) = max (length c) (offset + length src)"
  by (simp add: overwrite_def Let_def)

lemma overwrite_nth:
  "i < length (overwrite offset src c) \<Longrightarrow>
   overwrite offset src c ! i =
     (if offset \<le> i \<and> i < offset + length src then src ! (i - offset) else if i < length c then c ! i else 0)"
  by (auto simp: length_overwrite overwrite_def Let_def nth_append min_def)

lemma overwrite_append: "overwrite (length c) src c = c @ src"
  by (simp add: overwrite_def Let_def)

lemma overwrite_read: "take (length src) (drop offset (overwrite offset src c)) = src"
  by (simp add: overwrite_def Let_def)

lemma File_read_ok:
  assumes "mapping_contract maps" "file_content fs p = Some c" "length c < 2 ^ 64" "n \<noteq> 0"
    "unat offset + unat n \<le> length c" "unat n \<le> max_string_size"
  shows "File_read maps p offset n fs = Inr (take (unat n) (drop (unat offset) c))"
proof -
  have "unat (offset + n) = unat offset + unat n" using assms(3,5) by (intro unat_sum) simp
  moreover have "unat (size_of_list c) = length c" using assms(3) by (rule unat_size_of_list_small)
  moreover have "fs_exists fs p" using assms(2) by (auto simp: fs_exists_def file_content_iff)
  ultimately show ?thesis
    using assms mapping_ok [OF assms(1,4,5)] by (simp add: File_read_def file_size_def word_less_nat_alt)
qed

section \<open>Properties\<close>

text \<open>
  C34: A write through the mapping, below the 64-bit limits, changes exactly the bytes it is given
  at the offset it is given, creates the file or extends it with zeros where it has to, leaves
  every other file alone, and reads back.
\<close>

theorem file_write_reads_back:
  assumes "mapping_contract maps" "can_write fs p" "fs_exists fs (butlast p)" "src \<noteq> []"
    "length src \<le> max_string_size" "unat offset + length src < 2 ^ 64"
    "length (content_or_empty fs p) < 2 ^ 64"
  shows "\<exists>fs' c. File_write maps p offset src fs = (Inr (), fs') \<and>
    File_read maps p offset (size_of_list src) fs' = Inr src \<and>
    file_content fs' p = Some c \<and> length c = max (length (content_or_empty fs p)) (unat offset + length src) \<and>
    (\<forall>i < length c. c ! i =
       (if unat offset \<le> i \<and> i < unat offset + length src then src ! (i - unat offset)
        else if i < length (content_or_empty fs p) then content_or_empty fs p ! i else 0)) \<and>
    (\<forall>q. q \<noteq> p \<longrightarrow> map_of fs' q = map_of fs q)"
proof -
  let ?c = "overwrite (unat offset) src (content_or_empty fs p)"
  from File_write_effect [OF assms(1-4,6,7)] obtain fs' where
    w: "File_write maps p offset src fs = (Inr (), fs')" "map_of fs' = (map_of fs)(p \<mapsto> File ?c)" by blast
  have c: "file_content fs' p = Some ?c" using w(2) by (simp add: file_content_def)
  have n: "unat (size_of_list src) = length src" "size_of_list src \<noteq> 0"
    using assms(4,6) by (auto simp: unat_size_of_list_small simp flip: unat_eq_0)
  have "File_read maps p offset (size_of_list src) fs' = Inr src"
    using File_read_ok [OF assms(1) c _ n(2)] assms(5,6,7) n(1) by (simp add: length_overwrite overwrite_read)
  then show ?thesis
    using w c by (intro exI [of _ fs'] exI [of _ ?c]) (simp add: length_overwrite overwrite_nth)
qed

theorem file_write_reads_back_witness:
  "\<exists>fs'. File_write plain_mapping [''f''] 3 [7, 8] [([], Dir), ([''f''], File [1])] = (Inr (), fs') \<and>
     File_read plain_mapping [''f''] 3 2 fs' = Inr [7, 8] \<and> file_content fs' [''f''] = Some [1, 0, 0, 7, 8]"
proof -
  let ?fs = "[([], Dir), ([''f''], File [1])]" and ?src = "[7, 8] :: bytes"
  have h: "can_write ?fs [''f'']" "fs_exists ?fs (butlast [''f''])" "content_or_empty ?fs [''f''] = [1]"
    by (simp_all add: can_write_def is_directory_def fs_exists_def content_or_empty_def file_content_def)
  have "length ?src \<le> max_string_size" by (simp add: max_string_size)
  from file_write_reads_back [OF plain_mapping_contract h(1,2) _ this, of 3] h(3) obtain fs' c where
    w: "File_write plain_mapping [''f''] 3 ?src ?fs = (Inr (), fs')"
      "File_read plain_mapping [''f''] 3 (size_of_list ?src) fs' = Inr ?src"
      "file_content fs' [''f''] = Some c" "length c = 5"
    and nth: "\<forall>i < length c. c ! i = (if 3 \<le> i \<and> i < 5 then ?src ! (i - 3) else if i < 1 then [1] ! i else 0)"
    by auto
  obtain c0 c1 c2 c3 c4 where c: "c = [c0, c1, c2, c3, c4]"
    using w(4) by (auto simp: numeral_eq_Suc length_Suc_conv)
  from nth [rule_format, of 0] nth [rule_format, of 1] nth [rule_format, of 2] nth [rule_format, of 3]
    nth [rule_format, of 4]
  have "c = [1, 0, 0, 7, 8]" by (simp add: c)
  with w show ?thesis by (simp add: size_of_list_def)
qed

text \<open>
  C35: A read of a part of a file that is below the 64-bit limits returns exactly the bytes of the
  part, or throws when the part does not lie within the file; it never reads past the mapping. When
  offset and size add up to more than \<open>2\<^sup>6\<^sup>4\<close>, the check is made on the remainder: it can pass
  although the part lies outside the file.
\<close>

theorem file_read_bounds:
  assumes "mapping_contract maps" "file_content fs p = Some c" "length c < 2 ^ 64" "n \<noteq> 0"
    "unat n \<le> max_string_size"
  shows "(unat offset + unat n \<le> length c \<longrightarrow>
      File_read maps p offset n fs = Inr (take (unat n) (drop (unat offset) c))) \<and>
    (length c < unat offset + unat n \<and> unat offset + unat n < 2 ^ 64 \<longrightarrow>
      File_read maps p offset n fs = Inl (Runtime_error ''invalid size and offset'')) \<and>
    (2 ^ 64 \<le> unat offset + unat n \<and> unat offset + unat n - 2 ^ 64 \<le> length c \<longrightarrow>
      File_read maps p offset n fs \<noteq> Inl (Runtime_error ''invalid size and offset''))"
proof (intro conjI impI)
  show "File_read maps p offset n fs = Inr (take (unat n) (drop (unat offset) c))"
    if "unat offset + unat n \<le> length c"
    using that by (intro File_read_ok assms)
  have file_ok: "fs_exists fs p" "file_size fs p = Inr (size_of_list c)" "unat (size_of_list c) = length c"
    using assms(2,3) by (auto simp: fs_exists_def file_content_iff, simp_all add: file_size_def unat_size_of_list_small file_content_def)
  show "File_read maps p offset n fs = Inl (Runtime_error ''invalid size and offset'')"
    if "length c < unat offset + unat n \<and> unat offset + unat n < 2 ^ 64"
    using that file_ok unat_sum [of offset n] by (simp add: File_read_def word_less_nat_alt)
  show "File_read maps p offset n fs \<noteq> Inl (Runtime_error ''invalid size and offset'')"
    if wrap: "2 ^ 64 \<le> unat offset + unat n \<and> unat offset + unat n - 2 ^ 64 \<le> length c"
  proof -
    have "unat (w :: u64) < 2 ^ 64" for w using unsigned_less [of w] by simp
    from this [of offset] this [of n] have "unat offset + unat n < 2 * 2 ^ 64" by simp
    then have "unat (offset + n) = unat offset + unat n - 2 ^ 64"
      using wrap by (simp add: unat_word_ariths mod_if)
    then have "\<not> size_of_list c < offset + n" using wrap file_ok(3) by (simp add: word_less_nat_alt)
    moreover have "maps (unat (size_of_list c)) offset n \<noteq> Inl (Runtime_error ''invalid size and offset'')"
      using assms(1) unfolding mapping_contract_def by (metis error.distinct)
    ultimately show ?thesis
      using file_ok by (cases "maps (unat (size_of_list c)) offset n") (auto simp: File_read_def split: option.splits)
  qed
qed

theorem file_read_bounds_witness:
  "File_read plain_mapping [''f''] 1 2 [([''f''], File [5, 6, 7])] = Inr [6, 7] \<and>
   File_read plain_mapping [''f''] 2 2 [([''f''], File [5, 6, 7])] = Inl (Runtime_error ''invalid size and offset'') \<and>
   File_read plain_mapping [''f''] 18446744073709551615 2 [([''f''], File [5, 6, 7])] \<noteq> Inl (Runtime_error ''invalid size and offset'')"
proof -
  have "file_content [([''f''], File [5, 6, 7])] [''f''] = Some [5, 6, 7]" by (simp add: file_content_def)
  from file_read_bounds [OF plain_mapping_contract this, of 2] show ?thesis
    by (simp add: max_string_size)
qed

end
