(* ===== verification/EngineCrash.thy ===== *)
theory EngineCrash
  imports EngineProperties
begin

text \<open>
  The death of the process. The log is written through a buffer: what has reached its file is a
  prefix of what was logged, at least up to the last snapshot, which flushes it. Where that prefix
  ends with a row, the files are those of an engine that was closed earlier; where it ends within
  one, the restored memtable gets a row that was never written.
\<close>

section \<open>What has reached the file of the log\<close>










section \<open>A crash loses the end of the sequence of writes\<close>




end
