(* ===== verification/EngineRestart.thy ===== *)
theory EngineRestart
  imports EngineProperties
begin

text \<open>
  A database that is closed and opened twice. The log is replayed at the first opening and
  truncated right after it; what it held is then in the memtable only, which is not written to a
  segment when the engine is destroyed. The second opening finds an empty log.
\<close>

section \<open>Writes that stay in the memtable\<close>

lemma getRowSize_make_row:
  assumes "length v + 35 < 2 ^ 64"
  shows "unat (getRowSize (make_row k v en c)) = 35 + length v"
  using unat_getRowSize [of "make_row k v en c"] assms by simp

lemma memorySize_put_entry:
  assumes "unat (mt_memorySize m) + (35 + length v) < 2 ^ 64"
  shows "unat (mt_memorySize (mt_put_entry k v c en m)) = unat (mt_memorySize m) + (35 + length v)"
proof -
  have "unat (getRowSize (make_row k v en c)) = 35 + length v"
    using assms by (intro getRowSize_make_row) simp
  with assms show ?thesis
    using unat_add_lem [of "mt_memorySize m" "getRowSize (make_row k v en c)"]
    by (simp add: mt_put_entry_add mt_add_def)
qed

lemma se_step_small:
  assumes "se_step x P op e fs = (Inr (), e', fs')" "e_memTable e = Some m" "e_compressor e = Some c"
    "unat (mt_memorySize m) + op_bytes x c op < unat (e_memTableLimit e)"
  shows "\<exists>m'. e_memTable e' = Some m' \<and> unat (mt_memorySize m') = unat (mt_memorySize m) + op_bytes x c op \<and>
    e_index e' = e_index e \<and> e_memTableLimit e' = e_memTableLimit e"
proof -
  have "unat (e_memTableLimit e) < 2 ^ LENGTH(64)" by (rule unsigned_less)
  then have limit: "unat (e_memTableLimit e) < 2 ^ 64" by simp
  show ?thesis
  proof (cases op)
    case (Op_remove k)
    then have "e' = e\<lparr>e_memTable := Some (mt_remove k m)\<rparr>"
      using assms(1,2) by (auto simp: Database_remove_def se_remove_def deref_def)
    moreover have "unat (mt_memorySize (mt_remove k m)) = unat (mt_memorySize m) + op_bytes x c op"
      using assms(4) limit memorySize_put_entry [of m "[]"] Op_remove by (simp add: mt_remove_def op_bytes_def)
    ultimately show ?thesis by simp
  next
    case (Op_put k v)
    have put: "se_put x P k v e fs = (Inr (), e', fs')" using assms(1) Op_put by (simp add: Database_put_def)
    then obtain cv where cv: "compress x c v = Inr cv"
      using assms(3) by (cases "compress x c v") (auto simp: se_put_def deref_def)
    from put assms(3) cv obtain h where h: "e_hasher e = Some h"
      by (cases "e_hasher e") (auto simp: se_put_def deref_def)
    define m1 where "m1 = mt_put k cv (hasher_hash x h cv) m"
    have size: "unat (mt_memorySize m1) = unat (mt_memorySize m) + op_bytes x c op"
      using assms(4) limit memorySize_put_entry [of m cv] Op_put cv by (simp add: m1_def mt_put_def op_bytes_def)
    then have "getApproximateSize m1 < e_memTableLimit e"
      using assms(4) by (simp add: getApproximateSize_def word_less_nat_alt)
    then have "e' = e\<lparr>e_memTable := Some m1\<rparr>"
      using put assms(2,3) cv h by (simp add: se_put_def deref_def Let_def m1_def flip: linorder_not_le)
    with size show ?thesis by simp
  qed
qed

lemma se_run_small:
  assumes "se_run x P ops e fs = (Inr (), e', fs')" "e_memTable e = Some m" "e_compressor e = Some c"
    "unat (mt_memorySize m) + sum_list (map (op_bytes x c) ops) < unat (e_memTableLimit e)"
  shows "e_index e' = e_index e"
  using assms
proof (induction ops arbitrary: e fs m)
  case (Cons op ops)
  from Cons.prems(1) obtain e1 fs1 where step: "se_step x P op e fs = (Inr (), e1, fs1)"
    and run: "se_run x P ops e1 fs1 = (Inr (), e', fs')"
    by (auto split: sum.splits prod.splits)
  from se_step_small [OF step Cons.prems(2,3)] Cons.prems(4) obtain m1 where
    "e_memTable e1 = Some m1" "unat (mt_memorySize m1) = unat (mt_memorySize m) + op_bytes x c op"
    "e_index e1 = e_index e" "e_memTableLimit e1 = e_memTableLimit e" by auto
  then show ?case
    using Cons.IH [OF run, of m1] Cons.prems(3,4) se_step_codec [OF step] by simp
qed simp

section \<open>Opening the directory a second time\<close>

lemma restored_phantom:
  "\<exists>m s. restoreFromLog junk new_memtable (fresh_stream (rows_bytes [])) = Some (Inr (m, s)) \<and> mt_inv m \<and>
    mt_wal m = None \<and> (\<forall>(ik, r) \<in> set (mt_map m). wf_row r) \<and> mt_lookup m = [Key 0 \<mapsto> phantom_row junk]"
proof -
  let ?m = "restore_row new_memtable (phantom_row junk)"
  have "wf_row (phantom_row junk)" by (simp add: wf_row_def phantom_row_def make_row_def)
  then have "mt_wal ?m = None \<and> (\<forall>(ik, r) \<in> set (mt_map ?m). wf_row r)"
    by (simp add: restore_row_add mt_add_def new_memtable_def)
  moreover have "mt_inv ?m" "mt_lookup ?m = [Key 0 \<mapsto> phantom_row junk]"
    using foldl_restore_row [of new_memtable "[phantom_row junk]"] by (simp_all add: phantom_row_def)
  ultimately show ?thesis by (simp add: restoreFromLog_empty)
qed

text \<open>
  C15: What a database has not written to a segment is lost when it is closed and opened twice:
  if the writes of the first session, at least one, meet \<open>op_ok\<close> and the 32-bit bounds and have not
  filled the memtable, both
  openings succeed, without any write in between, and then no lookup finds a value for any key but 0.
\<close>

theorem second_restart_loses_the_log:
  assumes "empty_directory fs dir" "createHasher (opt_hashType opts) = Some h" "wf_options opts"
    "0 < p_filterSize P" "p_filterSize P < 2 ^ 64" "map_order_contract x"
    "c = createCompressor (opt_compressionType opts)" "\<forall>op \<in> set ops. op_ok x c op" "ops \<noteq> []"
    "length ops < 2 ^ 32" "sum_list (map (op_bytes x c) ops) < 2 ^ 32"
    "sum_list (map (op_bytes x c) ops) < unat (opt_maxMemTableSize opts)"
  shows "\<exists>e0 fs0 e fs1 e1 fs2 e2 fs3. Database_open x P dir opts (new_engine P) fs = (Inr (), e0, fs0) \<and>
    se_run x P ops e0 fs0 = (Inr (), e, fs1) \<and>
    Database_open x P dir opts1 (new_engine P) (se_close e fs1) = (Inr (), e1, fs2) \<and>
    Database_open x P dir opts2 (new_engine P) (se_close e1 fs2) = (Inr (), e2, fs3) \<and>
    (\<forall>k. k \<noteq> Key 0 \<longrightarrow> Database_get x P k e2 fs3 = Inr None)"
proof -
  from assms(10,11) have bounds: "length ops + 0 < 2 ^ 32" "sum_list (map (op_bytes x c) ops) + 0 < 2 ^ 32" by simp_all
  obtain e0 fs0 m0 e fs1 m segs rows where start: "se_open x P dir opts (new_engine P) fs = (Inr (), e0, fs0)"
      "run_inv x P c h [] e0 fs0 m0 []" "mt_map m0 = []" "mt_memorySize m0 = 0" "e_memTableLimit e0 = opt_maxMemTableSize opts"
    and run: "se_run x P ops e0 fs0 = (Inr (), e, fs1)" "run_inv x P c h ops e fs1 m segs" "room 0 0 e m"
      "durable x P e fs1 m segs rows" "length rows = length ops" "e_dir e = dir"
    by (rule open_run [OF assms(1-5,7,8) bounds])
  have rows: "rows \<noteq> []" "length rows < 2 ^ 64" using run(5) assms(9,10) by auto
  have inv0: "e_memTable e0 = Some m0" "e_compressor e0 = Some c" "disk_ok x P e0 fs0 []"
    and inv: "read_inv x P e fs1 m segs" "e_compressor e = Some c" "e_hasher e = Some h"
      "tracks x c h ops (mt_lookup m # segs)" "disk_ok x P e fs1 segs"
    using start(2) run(2) by (auto simp: run_inv_def dest: se_invD)
  have "e_index e = e_index e0"
    using se_run_small [OF run(1) inv0(1,2)] start(4,5) assms(12) by simp
  with inv0(3) inv(5) have "segs = []" by (auto simp: disk_ok_def)
  with reopen_tracks_found [OF inv(1-4) run(4) se_close_found [OF inv(1) run(4)] rows assms(6,4,5), of opts1] run(6)
  obtain e1 fs2 m1 where
    first: "se_open x P dir opts1 (new_engine P) (se_close e fs1) = (Inr (), e1, fs2)" "e_dir e1 = dir"
      "read_inv x P e1 fs2 m1 []" "stored x P e1 fs2 m1 []" by auto
  obtain m' s where phantom: "restoreFromLog (ext_junk x) new_memtable (fresh_stream (rows_bytes [])) = Some (Inr (m', s))"
    "mt_inv m'" "mt_wal m' = None" "\<forall>(ik, r) \<in> set (mt_map m'). wf_row r" "mt_lookup m' = [Key 0 \<mapsto> phantom_row (ext_junk x)]"
    using restored_phantom [of "ext_junk x"] by blast
  from reopen_stored [OF first(3,4) phantom(1-4) assms(6,4,5), of opts2] first(2) phantom(5) obtain e2 fs3 m2 where
    second: "se_open x P dir opts2 (new_engine P) (se_close e1 fs2) = (Inr (), e2, fs3)"
      "read_inv x P e2 fs3 m2 []" "mt_lookup m2 = [Key 0 \<mapsto> phantom_row (ext_junk x)]" by auto
  have "\<forall>k. k \<noteq> Key 0 \<longrightarrow> se_get x P k e2 fs3 = Inr None"
    using se_get_reads [OF second(2)] second(3) by (simp add: reads_def)
  with start(1) run(1) first(1) second(1) show ?thesis
    unfolding Database_open_def Database_get_def by blast
qed

theorem second_restart_loses_the_log_witness:
  "\<exists>e0 fs0 e fs1 e1 fs2 e2 fs3. Database_open plain_externals small_params [''db''] (small_options\<lparr>opt_maxMemTableSize := 1000\<rparr>) (new_engine small_params) small_fs =
      (Inr (), e0, fs0) \<and>
    se_run plain_externals small_params [Op_put (Key 1) [7]] e0 fs0 = (Inr (), e, fs1) \<and>
    Database_open plain_externals small_params [''db''] default_options (new_engine small_params) (se_close e fs1) = (Inr (), e1, fs2) \<and>
    Database_open plain_externals small_params [''db''] default_options (new_engine small_params) (se_close e1 fs2) = (Inr (), e2, fs3) \<and>
    Database_get plain_externals small_params (Key 1) e2 fs3 = Inr None"
proof -
  let ?ops = "[Op_put (Key 1) [7]]"
  have ops: "\<forall>op \<in> set ?ops. op_ok plain_externals NoCompression op"
    "sum_list (map (op_bytes plain_externals NoCompression) ?ops) = 36"
    by (simp_all add: op_ok_def op_bytes_def npos_def no_compress_def)
  have opts: "createHasher (opt_hashType (small_options\<lparr>opt_maxMemTableSize := 1000\<rparr>)) = Some CityHash128Adapter" "wf_options (small_options\<lparr>opt_maxMemTableSize := 1000\<rparr>)"
    "NoCompression = createCompressor (opt_compressionType (small_options\<lparr>opt_maxMemTableSize := 1000\<rparr>))" "36 < unat (opt_maxMemTableSize (small_options\<lparr>opt_maxMemTableSize := 1000\<rparr>))"
    by (simp_all add: small_options_def wf_options_def compression_byte_def compression_of_byte_def
        hash_type_byte_def hash_type_of_byte_def)
  have P: "0 < p_filterSize small_params" "p_filterSize small_params < 2 ^ 64"
    by (simp_all add: small_params_def)
  from second_restart_loses_the_log [OF small_fs_empty opts(1,2) P plain_map_order_contract opts(3) ops(1),
      of default_options default_options] opts(4)
  obtain e0 fs0 e fs1 e1 fs2 e2 fs3 where
    "Database_open plain_externals small_params [''db''] (small_options\<lparr>opt_maxMemTableSize := 1000\<rparr>) (new_engine small_params) small_fs =
      (Inr (), e0, fs0)"
    "se_run plain_externals small_params ?ops e0 fs0 = (Inr (), e, fs1)"
    "Database_open plain_externals small_params [''db''] default_options (new_engine small_params) (se_close e fs1) = (Inr (), e1, fs2)"
    "Database_open plain_externals small_params [''db''] default_options (new_engine small_params) (se_close e1 fs2) = (Inr (), e2, fs3)"
    "\<forall>k. k \<noteq> Key 0 \<longrightarrow> Database_get plain_externals small_params k e2 fs3 = Inr None"
    unfolding ops(2) by auto
  moreover from this(5) have "Database_get plain_externals small_params (Key 1) e2 fs3 = Inr None" by simp
  ultimately show ?thesis by blast
qed

end
