(* ===== verification/EngineTorn.thy ===== *)
theory EngineTorn
  imports EngineCrash
begin

text \<open>
  A crash that cuts the log within a row. The rows before it are restored, and so is the row the
  log breaks off in, as \<open>MemTable\<close> shows: with zeros for what is missing of its value, and the zero
  checksum. The database opens without an error, and the lookups of this one key throw.
\<close>

section \<open>A put that only logs\<close>




section \<open>The database that opens\<close>


section \<open>Property\<close>



end
