(* ===== verification/EngineConcurrent.thy ===== *)
theory EngineConcurrent
  imports EngineProperties StepSystems
begin

text \<open>
  Calls of the storage engine from several threads (src/StorageEngine.cpp). A write holds the
  lock while it changes the engine, and compresses and hashes the value before. A lookup takes
  the lock twice, shared, for the memtable and for the index, and reads the Bloom filter and the
  segment file without it. The calls are split here into these sections; a step of the system
  is one section of one thread, in any order.

  Sections are atomic: those under the lock because they exclude each other, and the reading of a
  segment file because no section writes a file that an index knows. That the Bloom filter is read
  without the lock is a data race in the code; the model gives a lookup its value before or after a
  snapshot.
\<close>

section \<open>The sections of a call\<close>

text \<open>A put before the lock, and under it.\<close>

definition put_prepare :: "externals \<Rightarrow> bytes \<Rightarrow> engine \<Rightarrow> (bytes \<times> u128) result" where
  "put_prepare x value e =
     rbind (rbind (deref (e_compressor e)) (\<lambda>c. compress x c value)) (\<lambda>compressed.
     rmap (\<lambda>h. (compressed, hasher_hash x h compressed)) (deref (e_hasher e)))"

definition put_locked ::
    "externals \<Rightarrow> filter_params \<Rightarrow> key \<Rightarrow> bytes \<Rightarrow> u128 \<Rightarrow> engine \<Rightarrow> fsys \<Rightarrow> unit result \<times> engine \<times> fsys" where
  "put_locked x P k compressed checksum e fs =
     (case deref (e_memTable e) of
        Inl err \<Rightarrow> (Inl err, e, fs)
      | Inr m \<Rightarrow>
          (let m' = mt_put k compressed checksum m;
               e' = e\<lparr>e_memTable := Some m'\<rparr>
           in if getApproximateSize m' \<ge> e_memTableLimit e' then makeSnapshot x P e' fs
              else (Inr (), e', fs)))"

lemma se_put_sections:
  "se_put x P k v e fs =
     (case put_prepare x v e of
        Inl err \<Rightarrow> (Inl err, e, fs)
      | Inr (compressed, checksum) \<Rightarrow> put_locked x P k compressed checksum e fs)"
  by (cases "rbind (deref (e_compressor e)) (\<lambda>c. compress x c v)"; cases "deref (e_hasher e)")
    (simp_all add: se_put_def put_prepare_def put_locked_def)

text \<open>The lookup of the index, the reading of a segment, and what follows a row that was found.\<close>

definition disk_search :: "key \<Rightarrow> engine \<Rightarrow> (bool \<times> search_hint) result" where
  "disk_search k e = rmap (ix_get k) (deref (e_index e))"

definition disk_read ::
    "externals \<Rightarrow> search_hint \<Rightarrow> engine \<Rightarrow> fsys \<Rightarrow> (bytes \<times> u128) option result" where
  "disk_read x hint e fs =
     (let chunkName = segment_name (unat (sh_fileId hint));
          stream = open_ifstream fs (e_chunkDir e @ [chunkName]);
          data0 = replicate (unat (sh_size hint)) 0
      in rbind (read_into (length data0) data0 (seekg (unat (sh_offset hint)) stream)) (\<lambda>(data, _).
         rbind (row_deserialize_string (ext_junk x) data) (\<lambda>row.
           if row_entry row = EntryType_Remove then Inr None
           else Inr (Some (row_value row, row_checksum row)))))"

definition get_finish :: "externals \<Rightarrow> bytes \<Rightarrow> u128 \<Rightarrow> engine \<Rightarrow> bytes option result" where
  "get_finish x compressed checksum e =
     rbind (deref (e_hasher e)) (\<lambda>h.
       if \<not> u128_eq (hasher_hash x h compressed) checksum
       then Inl (Runtime_error ''data corrupted: invalid checksum'')
       else rbind (deref (e_compressor e)) (\<lambda>c. rmap Some (uncompress x c compressed)))"

lemma findOnDisk_sections:
  "findOnDisk x P k e fs =
     (if \<not> probablyContains x (p_numHashes P) k (e_bloom e) then Inr None
      else rbind (disk_search k e) (\<lambda>(known, hint). if known then disk_read x hint e fs else Inr None))"
  by (auto simp: findOnDisk_def disk_search_def disk_read_def Let_def rmap_Inr_iff
      intro!: arg_cong [where f = "rbind _"] split: prod.splits)

lemma se_get_sections:
  "se_get x P k e fs =
     rbind (findInMemory k e) (\<lambda>r. case r of
       Some (compressed, checksum) \<Rightarrow> get_finish x compressed checksum e
     | None \<Rightarrow> rbind (findOnDisk x P k e fs) (\<lambda>r. case r of
         Some (compressed, checksum) \<Rightarrow> get_finish x compressed checksum e
       | None \<Rightarrow> Inr None))"
  by (cases "findInMemory k e") (auto simp: se_get_def get_finish_def split: option.splits)

section \<open>Threads\<close>

text \<open>What a thread has left of its call. The value of a put is kept for the record only.\<close>

datatype activity =
    Put_called key bytes
  | Put_prepared key bytes bytes u128
  | Remove_called key
  | Get_called key
  | Get_missed key
  | Get_filtered key
  | Get_hinted key search_hint
  | Get_found key bytes u128
  | Wrote db_op "unit result"
  | Got key "bytes option result"

text \<open>One section of a call, with the writes that it commits.\<close>

fun next_section ::
    "externals \<Rightarrow> filter_params \<Rightarrow> activity \<Rightarrow> engine \<Rightarrow> fsys \<Rightarrow> activity \<times> engine \<times> fsys \<times> db_op list" where
  "next_section x P (Put_called k v) e fs =
     (case put_prepare x v e of
        Inl err \<Rightarrow> (Wrote (Op_put k v) (Inl err), e, fs, [])
      | Inr (compressed, checksum) \<Rightarrow> (Put_prepared k v compressed checksum, e, fs, []))"
| "next_section x P (Put_prepared k v compressed checksum) e fs =
     (case put_locked x P k compressed checksum e fs of
        (r, e', fs') \<Rightarrow> (Wrote (Op_put k v) r, e', fs', [Op_put k v]))"
| "next_section x P (Remove_called k) e fs =
     (case se_remove k e fs of (r, e', fs') \<Rightarrow> (Wrote (Op_remove k) r, e', fs', [Op_remove k]))"
| "next_section x P (Get_called k) e fs =
     (case findInMemory k e of
        Inl err \<Rightarrow> (Got k (Inl err), e, fs, [])
      | Inr None \<Rightarrow> (Get_missed k, e, fs, [])
      | Inr (Some (compressed, checksum)) \<Rightarrow> (Get_found k compressed checksum, e, fs, []))"
| "next_section x P (Get_missed k) e fs =
     (if probablyContains x (p_numHashes P) k (e_bloom e) then (Get_filtered k, e, fs, [])
      else (Got k (Inr None), e, fs, []))"
| "next_section x P (Get_filtered k) e fs =
     (case disk_search k e of
        Inl err \<Rightarrow> (Got k (Inl err), e, fs, [])
      | Inr (known, hint) \<Rightarrow> (if known then Get_hinted k hint else Got k (Inr None), e, fs, []))"
| "next_section x P (Get_hinted k hint) e fs =
     (case disk_read x hint e fs of
        Inl err \<Rightarrow> (Got k (Inl err), e, fs, [])
      | Inr None \<Rightarrow> (Got k (Inr None), e, fs, [])
      | Inr (Some (compressed, checksum)) \<Rightarrow> (Get_found k compressed checksum, e, fs, []))"
| "next_section x P (Get_found k compressed checksum) e fs =
     (Got k (get_finish x compressed checksum e), e, fs, [])"
| "next_section x P (Wrote op r) e fs = (Wrote op r, e, fs, [])"
| "next_section x P (Got k r) e fs = (Got k r, e, fs, [])"

text \<open>
  The threads with the length that the record of writes had when they were called, and the record:
  the writes in the order of their sections.
\<close>

record system =
  sy_engine :: engine
  sy_fs :: fsys
  sy_log :: "db_op list"
  sy_threads :: "(activity \<times> nat) list"

definition new_system :: "engine \<Rightarrow> fsys \<Rightarrow> system" where
  "new_system e fs = \<lparr>sy_engine = e, sy_fs = fs, sy_log = [], sy_threads = []\<rparr>"

fun is_call :: "activity \<Rightarrow> bool" where
  "is_call (Put_called _ _) = True"
| "is_call (Remove_called _) = True"
| "is_call (Get_called _) = True"
| "is_call _ = False"

inductive system_step :: "externals \<Rightarrow> filter_params \<Rightarrow> system \<Rightarrow> system \<Rightarrow> bool" for x P where
  called:
    "is_call a \<Longrightarrow> system_step x P s (s\<lparr>sy_threads := sy_threads s @ [(a, length (sy_log s))]\<rparr>)"
| ran:
    "i < length (sy_threads s) \<Longrightarrow> sy_threads s ! i = (a, start) \<Longrightarrow>
     next_section x P a (sy_engine s) (sy_fs s) = (a', e, fs, ops) \<Longrightarrow>
     system_step x P s (s\<lparr>sy_engine := e, sy_fs := fs, sy_log := sy_log s @ ops,
       sy_threads := (sy_threads s)[i := (a', start)]\<rparr>)"

inductive_cases system_stepE: "system_step x P s t"

section \<open>What a section leaves for the others\<close>

text \<open>
  A lookup gets its answer \<open>r\<close> from the database as it was at some moment since the call; a lookup
  that has not found its key in memory would have got \<open>d\<close> from the segments at such a moment. A
  moment is a number of writes of the record.
\<close>

definition answered ::
    "externals \<Rightarrow> filter_params \<Rightarrow> engine \<Rightarrow> fsys \<Rightarrow> db_op list \<Rightarrow> nat \<Rightarrow> key \<Rightarrow> bytes option result \<Rightarrow> bool" where
  "answered x P e0 fs0 log start k r \<longleftrightarrow>
     (\<exists>j e fs. start \<le> j \<and> j \<le> length log \<and> se_run x P (take j log) e0 fs0 = (Inr (), e, fs) \<and>
        se_get x P k e fs = r)"

definition missed ::
    "externals \<Rightarrow> filter_params \<Rightarrow> engine \<Rightarrow> fsys \<Rightarrow> db_op list \<Rightarrow> nat \<Rightarrow> key \<Rightarrow> (bytes \<times> u128) option result \<Rightarrow> bool" where
  "missed x P e0 fs0 log start k d \<longleftrightarrow>
     (\<exists>j e fs. start \<le> j \<and> j \<le> length log \<and> se_run x P (take j log) e0 fs0 = (Inr (), e, fs) \<and>
        findInMemory k e = Inr None \<and> findOnDisk x P k e fs = d)"

lemma answered_snoc: "answered x P e0 fs0 log start k r \<Longrightarrow> answered x P e0 fs0 (log @ ops) start k r"
  unfolding answered_def by (metis (no_types, lifting) append_take_drop_id length_append take_append trans_le_add1
      diff_is_0_eq take0 append_Nil2)

lemma missed_snoc: "missed x P e0 fs0 log start k d \<Longrightarrow> missed x P e0 fs0 (log @ ops) start k d"
  unfolding missed_def by (metis (no_types, lifting) append_take_drop_id length_append take_append trans_le_add1
      diff_is_0_eq take0 append_Nil2)

lemma answered_now:
  "se_run x P log e0 fs0 = (Inr (), e, fs) \<Longrightarrow> start \<le> length log \<Longrightarrow> se_get x P k e fs = r \<Longrightarrow>
   answered x P e0 fs0 log start k r"
  unfolding answered_def by (intro exI [of _ "length log"]) simp

lemma missed_now:
  "se_run x P log e0 fs0 = (Inr (), e, fs) \<Longrightarrow> start \<le> length log \<Longrightarrow> findInMemory k e = Inr None \<Longrightarrow>
   missed x P e0 fs0 log start k (findOnDisk x P k e fs)"
  unfolding missed_def by (intro exI [of _ "length log"]) simp

fun activity_ok ::
    "externals \<Rightarrow> filter_params \<Rightarrow> engine \<Rightarrow> fsys \<Rightarrow> db_op list \<Rightarrow> engine \<Rightarrow> fsys \<Rightarrow> nat \<Rightarrow> activity \<Rightarrow> bool" where
  "activity_ok x P e0 fs0 log e fs start (Put_called k v) = True"
| "activity_ok x P e0 fs0 log e fs start (Put_prepared k v compressed checksum) =
     (put_prepare x v e = Inr (compressed, checksum))"
| "activity_ok x P e0 fs0 log e fs start (Remove_called k) = True"
| "activity_ok x P e0 fs0 log e fs start (Get_called k) = True"
| "activity_ok x P e0 fs0 log e fs start (Get_missed k) =
     missed x P e0 fs0 log start k (findOnDisk x P k e fs)"
| "activity_ok x P e0 fs0 log e fs start (Get_filtered k) =
     missed x P e0 fs0 log start k (findOnDisk x P k e fs)"
| "activity_ok x P e0 fs0 log e fs start (Get_hinted k hint) \<longleftrightarrow>
     missed x P e0 fs0 log start k (disk_read x hint e fs) \<and>
     (\<exists>ix. e_index e = Some ix \<and> sh_fileId hint \<in> set (ix_ids ix))"
| "activity_ok x P e0 fs0 log e fs start (Get_found k compressed checksum) =
     answered x P e0 fs0 log start k (get_finish x compressed checksum e)"
| "activity_ok x P e0 fs0 log e fs start (Wrote op r) \<longleftrightarrow>
     (r = Inr () \<longrightarrow> (\<exists>j. start \<le> j \<and> j < length log \<and> log ! j = op))"
| "activity_ok x P e0 fs0 log e fs start (Got k r) = answered x P e0 fs0 log start k r"

lemma first_hit_table: "first_hit k ts = Some (t, h) \<Longrightarrow> t \<in> set ts"
  by (induction ts) (auto split: option.splits)

text \<open>A key that the index knows is not held back by the Bloom filter.\<close>

lemma disk_search_found:
  assumes "disk_ok x P e fs segs" "disk_search k e = Inr (True, hint)"
  shows "findOnDisk x P k e fs = disk_read x hint e fs \<and>
    (\<exists>ix. e_index e = Some ix \<and> sh_fileId hint \<in> set (ix_ids ix))"
proof -
  from assms(1) obtain ix where ix: "e_index e = Some ix" "list_all2 (seg_ok fs (e_chunkDir e)) (ix_tables ix) segs"
    by (auto simp: disk_ok_def)
  obtain t h where hit: "first_hit k (ix_tables ix) = Some (t, h)" "hint = SearchHint (si_fileId t) (fh_offset h) (fh_size h)"
    using assms(2) ix(1)
    by (auto simp: disk_search_def deref_def ix_get_def get_loop_first_hit split: option.splits)
  with first_hit_on_disk [OF ix(2), of k] have "on_disk segs k \<noteq> None" by auto
  then have "probablyContains x (p_numHashes P) k (e_bloom e)"
    using assms(1) by (auto simp: disk_ok_def on_disk_None_iff)
  then show ?thesis
    using assms(2) ix(1) hit first_hit_table [OF hit(1)]
    by (auto simp: findOnDisk_sections ix_ids_def SearchHint_def)
qed

text \<open>
  What a write does to a lookup that is under way: the segments answer as before, or the memtable
  has just been emptied.
\<close>

lemma write_disk:
  assumes "run_inv x P c h ops e fs m segs" "run_inv x P c h ops' e' fs' m' segs'"
    "written k0 r (mt_lookup m # segs) (mt_lookup m' # segs')"
  shows "(\<forall>k. findOnDisk x P k e' fs' = findOnDisk x P k e fs) \<or> (\<forall>k. findInMemory k e' = Inr None)"
proof -
  have disk: "disk_ok x P e fs segs" "disk_ok x P e' fs' segs'" and mem: "e_memTable e' = Some m'" "mem_ok e' m'"
    using assms(1,2) by (simp_all add: run_inv_def se_inv_def read_inv_def)
  from assms(3) consider "segs' = segs" | "mt_lookup m' = Map.empty" by (auto simp: written_def)
  then show ?thesis
  proof cases
    case 1
    then show ?thesis using findOnDisk_on_disk [OF disk(1)] findOnDisk_on_disk [OF disk(2)] by simp
  next
    case 2
    then show ?thesis using mem by (simp add: findInMemory_def deref_def mem_ok_def mt_get_lookup)
  qed
qed

section \<open>The invariant\<close>

text \<open>A record of writes for which there is room in the database the system started from.\<close>

definition within :: "externals \<Rightarrow> compressor \<Rightarrow> nat \<Rightarrow> nat \<Rightarrow> db_op list \<Rightarrow> bool" where
  "within x c n b log \<longleftrightarrow> (\<forall>op \<in> set log. op_ok x c op) \<and> length log \<le> n \<and>
     sum_list (map (op_bytes x c) log) \<le> b"

lemma within_append: "within x c n b (log @ ops) \<Longrightarrow> within x c n b log"
  by (auto simp: within_def)

lemma room_mono: "room n b e m \<Longrightarrow> n' \<le> n \<Longrightarrow> b' \<le> b \<Longrightarrow> room n' b' e m"
  by (auto simp: room_def intro: mt_fits_mono)

lemma recorded_run:
  assumes "run_inv x P c h [] e0 fs0 m0 segs0" "room n b e0 m0" "within x c n b log"
  shows "\<exists>e fs m segs. se_run x P log e0 fs0 = (Inr (), e, fs) \<and> run_inv x P c h log e fs m segs"
  using run_run_inv [OF assms(1), of log] room_mono [OF assms(2)] assms(3)
  by (fastforce simp: within_def)

text \<open>The next write of the record.\<close>

lemma recorded_write:
  assumes start: "run_inv x P c h [] e0 fs0 m0 segs0" "room n b e0 m0" and log: "within x c n b (log @ [op])"
    and e: "se_run x P log e0 fs0 = (Inr (), e, fs)"
  shows "\<exists>e' fs'. se_step x P op e fs = (Inr (), e', fs') \<and> segments_kept e fs e' fs' \<and>
    e_compressor e' = e_compressor e \<and> e_hasher e' = e_hasher e \<and>
    ((\<forall>k. findOnDisk x P k e' fs' = findOnDisk x P k e fs) \<or> (\<forall>k. findInMemory k e' = Inr None))"
proof -
  have "room (length log + Suc 0) (sum_list (map (op_bytes x c) log) + (op_bytes x c op + 0)) e0 m0"
    using room_mono [OF start(2)] log by (simp add: within_def)
  from run_run_inv_room [OF start(1) _ this] log e obtain m segs where
    inv: "run_inv x P c h log e fs m segs" "room (Suc 0) (op_bytes x c op + 0) e m" "op_ok x c op"
    by (auto simp: within_def)
  from step_run_inv [OF inv(1,3,2)] obtain e' fs' m' segs' r where
    step: "se_step x P op e fs = (Inr (), e', fs')" "run_inv x P c h (log @ [op]) e' fs' m' segs'"
      "segments_kept e fs e' fs'" "written (op_key op) r (mt_lookup m # segs) (mt_lookup m' # segs')" by blast
  from write_disk [OF inv(1) step(2,4)] step(1-3) inv(1) show ?thesis by (auto simp: run_inv_def)
qed

text \<open>What a thread has found out stays true when another one writes.\<close>

lemma disk_read_kept:
  assumes "segments_kept e fs e' fs'" "e_index e = Some ix" "sh_fileId hint \<in> set (ix_ids ix)"
  shows "disk_read x hint e' fs' = disk_read x hint e fs"
  using assms by (simp add: segments_kept_def disk_read_def open_ifstream_def)

lemma activity_ok_write:
  assumes ok: "activity_ok x P e0 fs0 log e fs start a" and start: "start \<le> length log"
    and run: "se_run x P (log @ [op]) e0 fs0 = (Inr (), e', fs')"
    and kept: "segments_kept e fs e' fs'" "e_compressor e' = e_compressor e" "e_hasher e' = e_hasher e"
    and disk: "(\<forall>k. findOnDisk x P k e' fs' = findOnDisk x P k e fs) \<or> (\<forall>k. findInMemory k e' = Inr None)"
  shows "activity_ok x P e0 fs0 (log @ [op]) e' fs' start a"
proof -
  have finish: "get_finish x cv cs e' = get_finish x cv cs e" and prepare: "put_prepare x v e' = put_prepare x v e" for cv cs v
    unfolding get_finish_def put_prepare_def kept(2,3) by (rule refl)+
  have miss: "missed x P e0 fs0 (log @ [op]) start k (findOnDisk x P k e' fs')"
    if "missed x P e0 fs0 log start k (findOnDisk x P k e fs)" for k
    using disk missed_now [OF run, of start k] missed_snoc [OF that, of "[op]"] start by auto
  show ?thesis
  proof (cases a)
    case (Get_hinted k hint)
    with ok obtain ix where ix: "e_index e = Some ix" "sh_fileId hint \<in> set (ix_ids ix)"
      and m: "missed x P e0 fs0 log start k (disk_read x hint e fs)" by auto
    moreover from kept(1) ix obtain ix' where "e_index e' = Some ix'" "sh_fileId hint \<in> set (ix_ids ix')"
      by (auto simp: segments_kept_def)
    ultimately show ?thesis
      using Get_hinted missed_snoc [OF m, of "[op]"] disk_read_kept [OF kept(1) ix] by simp
  next
    case (Wrote op' r)
    show ?thesis
    proof (cases "r = Inr ()")
      case True
      with Wrote ok obtain j where "start \<le> j" "j < length log" "log ! j = op'" by auto
      with Wrote show ?thesis by (auto simp: nth_append intro!: exI [of _ j])
    qed (use Wrote in simp)
  qed (use ok miss finish prepare answered_snoc in auto)
qed

text \<open>What a thread finds out itself: the sections that write nothing.\<close>

lemma missed_answered:
  assumes "missed x P e0 fs0 log start k d" "se_run x P log e0 fs0 = (Inr (), e, fs)"
  shows "answered x P e0 fs0 log start k (rbind d (\<lambda>r. case r of
      Some (compressed, checksum) \<Rightarrow> get_finish x compressed checksum e | None \<Rightarrow> Inr None))"
proof -
  from assms(1) obtain j e1 fs1 where j: "start \<le> j" "j \<le> length log"
    "se_run x P (take j log) e0 fs0 = (Inr (), e1, fs1)" "findInMemory k e1 = Inr None" "findOnDisk x P k e1 fs1 = d"
    unfolding missed_def by blast
  have "e_compressor e1 = e_compressor e" "e_hasher e1 = e_hasher e"
    using se_run_codec [OF j(3)] se_run_codec [OF assms(2)] by simp_all
  then have "get_finish x compressed checksum e1 = get_finish x compressed checksum e" for compressed checksum
    by (simp only: get_finish_def)
  then have "se_get x P k e1 fs1 = rbind d (\<lambda>r. case r of
      Some (compressed, checksum) \<Rightarrow> get_finish x compressed checksum e | None \<Rightarrow> Inr None)"
    using j(4,5) by (simp add: se_get_sections)
  with j show ?thesis unfolding answered_def by blast
qed

lemma activity_ok_read:
  assumes inv: "run_inv x P c h log e fs m segs" and run: "se_run x P log e0 fs0 = (Inr (), e, fs)"
    and ok: "activity_ok x P e0 fs0 log e fs start a" and start: "start \<le> length log"
    and sec: "next_section x P a e fs = (a', e', fs', [])"
  shows "e' = e \<and> fs' = fs \<and> activity_ok x P e0 fs0 log e fs start a'"
proof -
  have disk: "disk_ok x P e fs segs" using inv by (simp add: run_inv_def se_inv_def read_inv_def)
  note answer = missed_answered [OF _ run]
  show ?thesis
  proof (cases a)
    case (Put_called k v)
    with sec show ?thesis by (auto split: sum.splits)
  next
    case (Get_called k)
    show ?thesis
    proof (cases "findInMemory k e")
      case (Inl err)
      with Get_called sec show ?thesis
        using answered_now [OF run start, of k "Inl err"] by (auto simp: se_get_sections)
    next
      case (Inr r)
      with Get_called sec show ?thesis
        using answered_now [OF run start, of k] missed_now [OF run start, of k]
        by (auto simp: se_get_sections split: option.splits)
    qed
  next
    case (Get_missed k)
    with sec ok answer [of start k "Inr None"] show ?thesis by (auto simp: findOnDisk_sections split: if_splits)
  next
    case (Get_filtered k)
    then have miss: "missed x P e0 fs0 log start k (findOnDisk x P k e fs)" using ok by simp
    show ?thesis
    proof (cases "disk_search k e")
      case (Inl err)
      then show ?thesis using disk by (auto simp: disk_ok_def disk_search_def deref_def)
    next
      case (Inr r)
      then obtain known hint where r: "disk_search k e = Inr (known, hint)" by (cases r) auto
      show ?thesis
      proof (cases known)
        case True
        with r disk_search_found [OF disk, of k hint] Get_filtered sec miss show ?thesis by auto
      next
        case False
        with r have "findOnDisk x P k e fs = Inr None" by (simp add: findOnDisk_sections)
        with False r Get_filtered sec answer [OF miss] show ?thesis by auto
      qed
    qed
  next
    case (Get_hinted k hint)
    then have "missed x P e0 fs0 log start k (disk_read x hint e fs)" using ok by simp
    from answer [OF this] show ?thesis
      using Get_hinted sec by (cases "disk_read x hint e fs") (auto split: option.splits)
  qed (use sec ok in \<open>auto split: prod.splits\<close>)
qed

section \<open>The system\<close>

text \<open>The writes of the threads that have completed one.\<close>

fun committed :: "activity \<Rightarrow> db_op list" where
  "committed (Wrote op (Inr _)) = [op]"
| "committed _ = []"

definition completed :: "(activity \<times> nat) list \<Rightarrow> db_op list" where
  "completed ts = concat (map (\<lambda>(a, start). committed a) ts)"

lemma completed_update:
  assumes "i < length ts" "ts ! i = (a, start)" "committed a' = committed a @ ops"
  shows "mset (completed (ts[i := (a', start)])) = mset (completed ts) + mset ops"
  using assms by (induction ts arbitrary: i) (auto simp: completed_def split: nat.splits)

definition system_inv ::
    "externals \<Rightarrow> filter_params \<Rightarrow> compressor \<Rightarrow> nat \<Rightarrow> nat \<Rightarrow> engine \<Rightarrow> fsys \<Rightarrow> system \<Rightarrow> bool" where
  "system_inv x P c n b e0 fs0 s \<longleftrightarrow>
     (within x c n b (sy_log s) \<longrightarrow>
        se_run x P (sy_log s) e0 fs0 = (Inr (), sy_engine s, sy_fs s) \<and>
        mset (completed (sy_threads s)) = mset (sy_log s) \<and>
        (\<forall>(a, start) \<in> set (sy_threads s). start \<le> length (sy_log s) \<and>
           activity_ok x P e0 fs0 (sy_log s) (sy_engine s) (sy_fs s) start a))"

lemma next_section_reads:
  "next_section x P a e fs = (a', e', fs', []) \<Longrightarrow> committed a' = committed a"
  by (cases a) (auto split: sum.splits prod.splits option.splits if_splits)

text \<open>A section that writes is one step of the sequence of writes.\<close>

lemma next_section_writes:
  assumes "next_section x P a e fs = (a', e', fs', ops)" "ops \<noteq> []" "activity_ok x P e0 fs0 log e fs start a"
  shows "\<exists>op r. ops = [op] \<and> committed a = [] \<and> a' = Wrote op r \<and> se_step x P op e fs = (r, e', fs')"
  using assms
  by (cases a) (auto simp: se_put_sections Database_put_def Database_remove_def
      split: sum.splits prod.splits option.splits if_splits)

lemma set_update_cases: "y \<in> set (xs[i := x]) \<Longrightarrow> y = x \<or> y \<in> set xs"
  using set_update_subset_insert [of xs i x] by blast

text \<open>The threads after one of them has written.\<close>

lemma threads_write:
  assumes ok: "\<forall>(a, start) \<in> set ts. start \<le> length log \<and> activity_ok x P e0 fs0 log e fs start a"
    and j: "j \<le> length log" and run: "se_run x P (log @ [op]) e0 fs0 = (Inr (), e', fs')"
    and kept: "segments_kept e fs e' fs'" "e_compressor e' = e_compressor e" "e_hasher e' = e_hasher e"
    and disk: "(\<forall>k. findOnDisk x P k e' fs' = findOnDisk x P k e fs) \<or> (\<forall>k. findInMemory k e' = Inr None)"
  shows "\<forall>(a, start) \<in> set (ts[i := (Wrote op r, j)]). start \<le> length (log @ [op]) \<and>
    activity_ok x P e0 fs0 (log @ [op]) e' fs' start a"
proof (rule ballI, clarify)
  fix a start
  assume "(a, start) \<in> set (ts[i := (Wrote op r, j)])"
  then consider "(a, start) = (Wrote op r, j)" | "(a, start) \<in> set ts" by (auto dest: set_update_cases)
  then show "start \<le> length (log @ [op]) \<and> activity_ok x P e0 fs0 (log @ [op]) e' fs' start a"
  proof cases
    case 1
    then show ?thesis using j by (auto simp: nth_append intro!: exI [of _ "length log"])
  next
    case 2
    with ok have "start \<le> length log" "activity_ok x P e0 fs0 log e fs start a" by auto
    with activity_ok_write [OF this(2,1) run kept disk] show ?thesis by simp
  qed
qed

text \<open>One section of one thread, while there is room for what it writes.\<close>

lemma system_inv_section:
  assumes start: "run_inv x P c h [] e0 fs0 m0 segs0" "room n b e0 m0" and inv: "system_inv x P c n b e0 fs0 s"
    and log: "within x c n b (sy_log s @ ops)" and i: "i < length (sy_threads s)" "sy_threads s ! i = (a, j)"
    and sec: "next_section x P a (sy_engine s) (sy_fs s) = (a', e, fs, ops)"
  shows "se_run x P (sy_log s @ ops) e0 fs0 = (Inr (), e, fs) \<and>
    mset (completed ((sy_threads s)[i := (a', j)])) = mset (sy_log s @ ops) \<and>
    (\<forall>(a, start) \<in> set ((sy_threads s)[i := (a', j)]). start \<le> length (sy_log s @ ops) \<and>
       activity_ok x P e0 fs0 (sy_log s @ ops) e fs start a)"
proof -
  have room: "within x c n b (sy_log s)" using log by (rule within_append)
  with inv have run: "se_run x P (sy_log s) e0 fs0 = (Inr (), sy_engine s, sy_fs s)"
    and compl: "mset (completed (sy_threads s)) = mset (sy_log s)"
    and ok: "\<forall>(a, start) \<in> set (sy_threads s). start \<le> length (sy_log s) \<and>
       activity_ok x P e0 fs0 (sy_log s) (sy_engine s) (sy_fs s) start a"
    by (simp_all add: system_inv_def)
  have a: "j \<le> length (sy_log s)" "activity_ok x P e0 fs0 (sy_log s) (sy_engine s) (sy_fs s) j a"
    using ok i nth_mem by fastforce+
  show ?thesis
  proof (cases "ops = []")
    case True
    from recorded_run [OF start room] run obtain m segs where
      "run_inv x P c h (sy_log s) (sy_engine s) (sy_fs s) m segs" by auto
    from activity_ok_read [OF this run a(2,1)] sec True
    have same: "e = sy_engine s" "fs = sy_fs s" "activity_ok x P e0 fs0 (sy_log s) (sy_engine s) (sy_fs s) j a'" by auto
    moreover have "committed a' = committed a @ []" using next_section_reads [of x P a] sec True by simp
    from completed_update [OF i this] have "mset (completed ((sy_threads s)[i := (a', j)])) = mset (sy_log s)"
      using compl by simp
    ultimately show ?thesis using run ok a(1) True by (auto dest!: set_update_cases)
  next
    case False
    from next_section_writes [OF sec False a(2)] obtain op r where op: "ops = [op]" "committed a = []" "a' = Wrote op r"
      "se_step x P op (sy_engine s) (sy_fs s) = (r, e, fs)" by blast
    from recorded_write [OF start log [unfolded op(1)] run] op(4) have w: "r = Inr ()"
      "segments_kept (sy_engine s) (sy_fs s) e fs"
      "e_compressor e = e_compressor (sy_engine s)" "e_hasher e = e_hasher (sy_engine s)"
      "(\<forall>k. findOnDisk x P k e fs = findOnDisk x P k (sy_engine s) (sy_fs s)) \<or> (\<forall>k. findInMemory k e = Inr None)"
      by auto
    have run': "se_run x P (sy_log s @ [op]) e0 fs0 = (Inr (), e, fs)"
      using run op(4) w(1) by (simp add: se_run_snoc)
    have "committed a' = committed a @ [op]" using op w(1) by simp
    from completed_update [OF i this] compl show ?thesis
      using run' op(1,3) threads_write [OF ok a(1) run' w(2-5), of i r] by simp
  qed
qed

lemma system_inv_step:
  assumes start: "run_inv x P c h [] e0 fs0 m0 segs0" "room n b e0 m0"
    and inv: "system_inv x P c n b e0 fs0 s" and step: "system_step x P s t"
  shows "system_inv x P c n b e0 fs0 t"
  using step
proof (rule system_stepE)
  fix a
  assume t: "t = s\<lparr>sy_threads := sy_threads s @ [(a, length (sy_log s))]\<rparr>" and "is_call a"
  from \<open>is_call a\<close> have "activity_ok x P e0 fs0 l e fs j a" "committed a = []" for l e fs j by (cases a; simp)+
  with inv show ?thesis unfolding t by (auto simp: system_inv_def completed_def)
next
  fix i a j a' e fs ops
  assume "t = s\<lparr>sy_engine := e, sy_fs := fs, sy_log := sy_log s @ ops, sy_threads := (sy_threads s)[i := (a', j)]\<rparr>"
    "i < length (sy_threads s)" "sy_threads s ! i = (a, j)"
    "next_section x P a (sy_engine s) (sy_fs s) = (a', e, fs, ops)"
  then show ?thesis using system_inv_section [OF start inv] by (simp add: system_inv_def)
qed

definition concurrent_inv ::
    "externals \<Rightarrow> filter_params \<Rightarrow> compressor \<Rightarrow> nat \<Rightarrow> nat \<Rightarrow> engine \<Rightarrow> fsys \<Rightarrow> system \<Rightarrow> bool" where
  "concurrent_inv x P c n b e0 fs0 s \<longleftrightarrow>
     (\<exists>h m0 segs0. run_inv x P c h [] e0 fs0 m0 segs0 \<and> room n b e0 m0) \<and> system_inv x P c n b e0 fs0 s"

interpretation concurrent: invariant_system "system_step x P" "concurrent_inv x P c n b e0 fs0"
  for x P c n b e0 fs0
  by unfold_locales (auto simp: concurrent_inv_def dest: system_inv_step)

lemma system_inv_new: "system_inv x P c n b e0 fs0 (new_system e0 fs0)"
  by (simp add: system_inv_def new_system_def completed_def)

text \<open>An empty directory, opened, is such a system.\<close>

lemma concurrent_inv_open:
  assumes "empty_directory fs dir" "createHasher (opt_hashType opts) = Some h"
    "0 < p_filterSize P" "p_filterSize P < 2 ^ 64" "c = createCompressor (opt_compressionType opts)"
    "Database_open x P dir opts (new_engine P) fs = (Inr (), e0, fs0)" "n < 2 ^ 32" "b < 2 ^ 32"
  shows "concurrent_inv x P c n b e0 fs0 (new_system e0 fs0)"
proof -
  from open_run_inv [OF assms(1-5), of x] assms(6) obtain m0 where start:
    "run_inv x P c h [] e0 fs0 m0 []" "mt_map m0 = []" "mt_counter m0 = 0" "e_segmentId e0 = 0"
    by (auto simp: Database_open_def)
  have "room n b e0 m0"
    using start(2-4) assms(7,8) by (simp add: room_def mt_fits_def mt_bytes_empty)
  with start(1) show ?thesis by (auto simp: concurrent_inv_def system_inv_new)
qed

section \<open>Property\<close>

text \<open>
  The calls of the storage engine, one by one. Whatever calls its threads make on a freshly opened
  database and however their sections are interleaved: the engine is in the state that the writes
  have brought it to in the order in which they held the lock; the completed writes are exactly
  these, each in its place between its call and its return; and every lookup returns what a lookup
  in one piece would have returned at some moment between its call and its return, although it
  takes the lock twice and reads the filter and the segments without it.
\<close>

theorem concurrent_calls_are_linearizable:
  assumes "empty_directory fs dir" "createHasher (opt_hashType opts) = Some h"
    "0 < p_filterSize P" "p_filterSize P < 2 ^ 64" "c = createCompressor (opt_compressionType opts)"
    "Database_open x P dir opts (new_engine P) fs = (Inr (), e0, fs0)"
    "reach (system_step x P) (new_system e0 fs0) s"
    "\<forall>op \<in> set (sy_log s). op_ok x c op" "length (sy_log s) < 2 ^ 32"
    "sum_list (map (op_bytes x c) (sy_log s)) < 2 ^ 32"
  shows "se_run x P (sy_log s) e0 fs0 = (Inr (), sy_engine s, sy_fs s) \<and>
    mset (completed (sy_threads s)) = mset (sy_log s) \<and>
    (\<forall>(a, start) \<in> set (sy_threads s).
       (\<forall>op. a = Wrote op (Inr ()) \<longrightarrow> (\<exists>j. start \<le> j \<and> j < length (sy_log s) \<and> sy_log s ! j = op)) \<and>
       (\<forall>k r. a = Got k r \<longrightarrow> (\<exists>j e fs1. start \<le> j \<and> j \<le> length (sy_log s) \<and>
          se_run x P (take j (sy_log s)) e0 fs0 = (Inr (), e, fs1) \<and> Database_get x P k e fs1 = r)))"
proof -
  let ?n = "length (sy_log s)" and ?b = "sum_list (map (op_bytes x c) (sy_log s))"
  from concurrent_inv_open [OF assms(1-6) assms(9,10)]
  have "concurrent_inv x P c ?n ?b e0 fs0 (new_system e0 fs0)" .
  from concurrent.inv_reach [OF assms(7) this] have inv: "system_inv x P c ?n ?b e0 fs0 s"
    by (simp add: concurrent_inv_def)
  have "within x c ?n ?b (sy_log s)" using assms(8) by (simp add: within_def)
  with inv have *: "se_run x P (sy_log s) e0 fs0 = (Inr (), sy_engine s, sy_fs s)"
    "mset (completed (sy_threads s)) = mset (sy_log s)"
    "\<forall>(a, start) \<in> set (sy_threads s). activity_ok x P e0 fs0 (sy_log s) (sy_engine s) (sy_fs s) start a"
    by (auto simp: system_inv_def)
  show ?thesis
    using *(1,2) *(3) by (fastforce simp: answered_def Database_get_def)
qed

end
