(* ===== verification/SnapshotCrash.thy ===== *)
theory SnapshotCrash
  imports EngineConcurrent
begin

text \<open>
  The death of the process while it takes a snapshot (src/StorageEngine.cpp, makeSnapshot). Every
  file is truncated when it is opened and written afterwards, so that the process can die with an
  empty file; these are the stages of a snapshot here. From the flush of the log on, the files are
  enough to restore every write, with one exception: the empty index file.
\<close>

section \<open>The stages of a snapshot\<close>

datatype stage =
    Chunk_created
  | Chunk_written
  | Log_flushed
  | Filter_created
  | Filter_written
  | Index_created
  | Index_written

text \<open>The files at each stage, when the memtable of \<open>e\<close> is \<open>m\<close>.\<close>

definition snapshot_at ::
    "externals \<Rightarrow> filter_params \<Rightarrow> engine \<Rightarrow> memtable \<Rightarrow> fsys \<Rightarrow> stage \<Rightarrow> fsys" where
  "snapshot_at x P e m fs st =
     (let segment = e_segmentId e;
          chunkFileName = e_chunkDir e @ [segment_name (unat segment)];
          indexFileName = e_indexDir e @ [index_name (unat segment)];
          table = createSortedStringsTable m;
          fs1 = write_file fs chunkFileName (mt_dump m);
          fs2 = (case mt_wal m of None \<Rightarrow> fs1 | Some w \<Rightarrow> snd (flushAndClear w fs1));
          bloom' = foldl (\<lambda>b k. bf_add x (p_numHashes P) k b) (e_bloom e) (map row_key (getRowList table));
          fs3 = write_file fs2 (e_bloomFileName e) (take (p_filterSize P) (bf_bits bloom'));
          tableIndex = sstable_index_of (ucast segment) table
      in case st of
           Chunk_created \<Rightarrow> write_file fs chunkFileName []
         | Chunk_written \<Rightarrow> fs1
         | Log_flushed \<Rightarrow> fs2
         | Filter_created \<Rightarrow> write_file fs2 (e_bloomFileName e) []
         | Filter_written \<Rightarrow> fs3
         | Index_created \<Rightarrow> write_file fs3 indexFileName []
         | Index_written \<Rightarrow> write_file fs3 indexFileName (index_file x tableIndex))"


text \<open>The stages of a put that takes a snapshot.\<close>

definition put_at ::
    "externals \<Rightarrow> filter_params \<Rightarrow> key \<Rightarrow> bytes \<Rightarrow> engine \<Rightarrow> fsys \<Rightarrow> stage \<Rightarrow> fsys option" where
  "put_at x P k value e fs st =
     (case (put_prepare x value e, e_memTable e) of
        (Inr (compressed, checksum), Some m) \<Rightarrow>
          (let m' = mt_put k compressed checksum m;
               e' = e\<lparr>e_memTable := Some m'\<rparr>
           in if getApproximateSize m' \<ge> e_memTableLimit e' then Some (snapshot_at x P e' m' fs st) else None)
      | _ \<Rightarrow> None)"

section \<open>The files of a stage\<close>

lemma map_of_stage:
  assumes "paths_ok e fs" "mt_wal m = Some w" "w_path w = e_walFileName e" "w_open w"
  shows "map_of (snapshot_at x P e m fs Log_flushed) p =
      (if p = e_walFileName e then Some (File (w_written w))
       else if p = e_chunkDir e @ [segment_name (unat (e_segmentId e))] then Some (File (mt_dump m))
       else map_of fs p)"
    and "map_of (snapshot_at x P e m fs Filter_created) p =
      (if p = e_bloomFileName e then Some (File []) else map_of (snapshot_at x P e m fs Log_flushed) p)"
    and "map_of (snapshot_at x P e m fs Filter_written) p =
      (if p = e_bloomFileName e then Some (File (take (p_filterSize P) (bf_bits (snapshot_bloom x P e m))))
       else map_of (snapshot_at x P e m fs Log_flushed) p)"
    and "map_of (snapshot_at x P e m fs Index_created) p =
      (if p = e_indexDir e @ [index_name (unat (e_segmentId e))] then Some (File [])
       else map_of (snapshot_at x P e m fs Filter_written) p)"
    and "map_of (snapshot_at x P e m fs Index_written) p =
      (if p = e_indexDir e @ [index_name (unat (e_segmentId e))] then Some (File (index_file x (snapshot_index e m)))
       else map_of (snapshot_at x P e m fs Filter_written) p)"
  using paths_can_write [OF assms(1)] assms(2-4)
  by (simp_all add: snapshot_at_def Let_def flushAndClear_def map_of_write_file snapshot_bloom_def snapshot_index_def)

lemma is_directory_stage: "is_directory (snapshot_at x P e m fs st) d = is_directory fs d"
  by (cases st) (simp_all add: snapshot_at_def Let_def flushAndClear_def split: option.splits)

text \<open>What the invariants say of files that these stages do not touch.\<close>

lemma read_inv_files:
  assumes inv: "se_inv x P e fs m segs" and dirs: "\<And>d. is_directory fs' d = is_directory fs d"
    and chunks: "\<And>f. unat f < unat (e_segmentId e) \<Longrightarrow>
      file_content fs' (e_chunkDir e @ [segment_name (unat (f :: u32))]) = file_content fs (e_chunkDir e @ [segment_name (unat f)])"
  shows "se_inv x P e fs' m segs"
proof -
  obtain ix where ix: "e_index e = Some ix" "ix_inv ix" "list_all2 (seg_ok fs (e_chunkDir e)) (ix_tables ix) segs"
    and ids: "\<forall>t \<in> set (ix_tables ix). unat (si_fileId t) < unat (e_segmentId e)"
    using se_invD(4,5) [OF inv] by (auto simp: disk_ok_def ids_ok_def ix_ids_def)
  from ix(3) ids have "list_all2 (seg_ok fs' (e_chunkDir e)) (ix_tables ix) segs"
    by (induction rule: list_all2_induct) (simp_all add: seg_ok_frame chunks)
  then have "disk_ok x P e fs' segs" using se_invD(4) [OF inv] ix by (auto simp: disk_ok_def)
  then show ?thesis
    using inv paths_ok_dirs [OF se_invD(3) [OF inv] dirs] by (simp add: se_inv_def read_inv_def)
qed

lemma options_same:
  assumes "options_ok e fs" "map_of fs' (e_optionsFileName e) = map_of fs (e_optionsFileName e)"
  shows "options_ok e fs'"
proof -
  have "file_content fs' (e_optionsFileName e) = file_content fs (e_optionsFileName e)"
    using assms(2) by (simp add: file_content_def)
  with assms(1) show ?thesis unfolding options_ok_def by metis
qed



section \<open>Opening the files of a stage\<close>

text \<open>
  The engine whose memtable and log hold all writes, with the files that a stage from the flush of
  the log on has left.
\<close>

definition snapshotting ::
    "externals \<Rightarrow> filter_params \<Rightarrow> compressor \<Rightarrow> hasher \<Rightarrow> db_op list \<Rightarrow> engine \<Rightarrow> fsys \<Rightarrow> memtable \<Rightarrow>
     store list \<Rightarrow> sstable_row list \<Rightarrow> bool" where
  "snapshotting x P c h ops e fs m segs rows \<longleftrightarrow>
     run_inv x P c h ops e fs m segs \<and> durable x P e fs m segs rows \<and> rows \<noteq> [] \<and> length rows < 2 ^ 64 \<and>
     room 0 0 e m \<and> mt_map m \<noteq> [] \<and> map_order_contract x \<and> 0 < p_filterSize P \<and> p_filterSize P < 2 ^ 64"

lemma snapshottingD:
  assumes "snapshotting x P c h ops e fs m segs rows"
  shows "se_inv x P e fs m segs" "no_npos m" "e_compressor e = Some c" "e_hasher e = Some h"
    "tracks x c h ops (mt_lookup m # segs)" "durable x P e fs m segs rows" "rows \<noteq> []" "length rows < 2 ^ 64"
    "map_order_contract x" "0 < p_filterSize P" "p_filterSize P < 2 ^ 64" "mt_map m \<noteq> []"
    "length (mt_dump m) < 2 ^ 32" "unat (e_segmentId e) < 2 ^ 32"
  using assms length_mt_dump [of m] by (auto simp: snapshotting_def run_inv_def room_def)

lemma snapshotting_names:
  assumes "snapshotting x P c h ops e fs m segs rows"
  shows "e_chunkDir e = e_dir e @ [''segment'']" "e_indexDir e = e_dir e @ [''index'']"
    "e_walFileName e = e_dir e @ [''wal.bin'']" "e_bloomFileName e = e_dir e @ [''bloom_filter.bin'']"
    "e_optionsFileName e = e_dir e @ [''options.bin'']"
proof -
  have "options_ok e fs" using snapshottingD(6) [OF assms] by (simp add: durable_def)
  then show "e_optionsFileName e = e_dir e @ [''options.bin'']" unfolding options_ok_def by blast
qed (fact paths_names [OF se_invD(3) [OF snapshottingD(1) [OF assms]]])+

lemma stage_map:
  assumes "snapshotting x P c h ops e fs m segs rows"
  shows "map_of (snapshot_at x P e m fs Log_flushed) p =
      (if p = e_walFileName e then Some (File (rows_bytes rows))
       else if p = e_chunkDir e @ [segment_name (unat (e_segmentId e))] then Some (File (mt_dump m))
       else map_of fs p)"
    and "map_of (snapshot_at x P e m fs Filter_created) p =
      (if p = e_bloomFileName e then Some (File []) else map_of (snapshot_at x P e m fs Log_flushed) p)"
    and "map_of (snapshot_at x P e m fs Filter_written) p =
      (if p = e_bloomFileName e then Some (File (take (p_filterSize P) (bf_bits (snapshot_bloom x P e m))))
       else map_of (snapshot_at x P e m fs Log_flushed) p)"
    and "map_of (snapshot_at x P e m fs Index_created) p =
      (if p = e_indexDir e @ [index_name (unat (e_segmentId e))] then Some (File [])
       else map_of (snapshot_at x P e m fs Filter_written) p)"
    and "map_of (snapshot_at x P e m fs Index_written) p =
      (if p = e_indexDir e @ [index_name (unat (e_segmentId e))] then Some (File (index_file x (snapshot_index e m)))
       else map_of (snapshot_at x P e m fs Filter_written) p)"
proof -
  obtain w where w: "mt_wal m = Some w" "w_path w = e_walFileName e" "w_open w" "w_written w = rows_bytes rows"
    using snapshottingD(6) [OF assms] by (auto simp: durable_def log_ok_def)
  note map_of_stage [OF se_invD(3) [OF snapshottingD(1) [OF assms]] w(1-3), of x P p, unfolded w(4)]
  then show "map_of (snapshot_at x P e m fs Log_flushed) p =
      (if p = e_walFileName e then Some (File (rows_bytes rows))
       else if p = e_chunkDir e @ [segment_name (unat (e_segmentId e))] then Some (File (mt_dump m))
       else map_of fs p)"
    "map_of (snapshot_at x P e m fs Filter_created) p =
      (if p = e_bloomFileName e then Some (File []) else map_of (snapshot_at x P e m fs Log_flushed) p)"
    "map_of (snapshot_at x P e m fs Filter_written) p =
      (if p = e_bloomFileName e then Some (File (take (p_filterSize P) (bf_bits (snapshot_bloom x P e m))))
       else map_of (snapshot_at x P e m fs Log_flushed) p)"
    "map_of (snapshot_at x P e m fs Index_created) p =
      (if p = e_indexDir e @ [index_name (unat (e_segmentId e))] then Some (File [])
       else map_of (snapshot_at x P e m fs Filter_written) p)"
    "map_of (snapshot_at x P e m fs Index_written) p =
      (if p = e_indexDir e @ [index_name (unat (e_segmentId e))] then Some (File (index_file x (snapshot_index e m)))
       else map_of (snapshot_at x P e m fs Filter_written) p)"
    by blast+
qed

lemma stage_inv:
  assumes s: "snapshotting x P c h ops e fs m segs rows"
    and st: "st = Log_flushed \<or> st = Filter_created \<or> st = Filter_written \<or> st = Index_created"
  shows "se_inv x P e (snapshot_at x P e m fs st) m segs"
proof (rule read_inv_files [OF snapshottingD(1) [OF s] is_directory_stage])
  fix f :: u32
  assume "unat f < unat (e_segmentId e)"
  then have "map_of (snapshot_at x P e m fs st) (e_chunkDir e @ [segment_name (unat f)]) =
      map_of fs (e_chunkDir e @ [segment_name (unat f)])"
    using st stage_map [OF s] snapshotting_names [OF s] by auto
  then show "file_content (snapshot_at x P e m fs st) (e_chunkDir e @ [segment_name (unat f)]) =
      file_content fs (e_chunkDir e @ [segment_name (unat f)])" by (simp add: file_content_def)
qed


lemma stage_found:
  assumes s: "snapshotting x P c h ops e fs m segs rows" and "e_walFileName e' = e_walFileName e"
    and "st \<noteq> Chunk_created" "st \<noteq> Chunk_written"
  shows "found_fs e' (rows_bytes rows) (snapshot_at x P e m fs st) (snapshot_at x P e m fs st)"
  using assms(2-4) stage_map [OF s, of "e_walFileName e"] snapshotting_names [OF s]
  by (cases st) (simp_all add: found_fs_def)








section \<open>Loading an empty index file\<close>

lemma to_string_head: "0 < n \<Longrightarrow> \<exists>d ds. to_string n = d # ds \<and> CHR ''0'' < d"
proof (induction n rule: to_string.induct)
  case (1 n)
  show ?case
  proof (cases "n < 10")
    case True
    then have "CHR ''0'' < (char_of (48 + n) :: char)" using 1(2) by (simp add: less_char_def of_char_of)
    with True show ?thesis by (simp add: to_string.simps [of n])
  next
    case False
    then have "0 < n div 10" by (simp add: div_greater_zero_iff)
    with False 1(1) obtain d ds where "to_string (n div 10) = d # ds" "CHR ''0'' < d" by blast
    with False show ?thesis by (simp add: to_string.simps [of n])
  qed
qed

text \<open>The file of segment 0 comes first.\<close>

lemma index_name_0_less:
  assumes "0 < n"
  shows "index_name 0 < index_name n"
proof -
  obtain d ds where "to_string n = d # ds" "CHR ''0'' < d" using to_string_head [OF assms] by blast
  moreover have "to_string 0 = ''0''" by code_simp
  ultimately show ?thesis by (simp add: index_name_def)
qed

lemma load_files_append:
  "load_files fs ps ix = (Inr (), ix') \<Longrightarrow> load_files fs (ps @ qs) ix = load_files fs qs ix'"
  by (induction ps arbitrary: ix) (auto simp: Let_def split: if_splits sum.splits)

lemma si_load_empty: "si_load (new_sstable_index 0) (fresh_stream []) = Some (Inr (new_sstable_index 0))"
proof -
  let ?s = "(fresh_stream [])\<lparr>eofbit := True, failbit := True\<rparr>"
  have "read_word 1 (0 :: u8) (fresh_stream []) = Inr (0, ?s)"
    by (rule read_word_at_end) simp_all
  moreover have "read_word 0 (0 :: u32) ?s = Inr (0, ?s)"
    using read_word_not_good [of ?s 0 "0 :: u32"] by (simp add: is_good_def)
  ultimately show ?thesis
    by (simp add: si_load_def stream_loop_eof new_sstable_index_def)
qed

lemma load_known_empty:
  assumes "map_of fs p = Some (File [])" "ix_inv ix" "0 \<in> set (ix_ids ix)"
  shows "load_files fs (p # ps) ix = (Inl (Runtime_error ''file id is already indexed''), ix)"
proof -
  have "open_ifstream fs p = fresh_stream []" using assms(1) by (simp add: open_ifstream_def file_content_def)
  moreover have "map_of (ix_map ix) 0 \<noteq> None" using assms(2,3) by (simp add: ix_inv_def)
  moreover have "getFileId (new_sstable_index 0) = 0" by (simp add: getFileId_def new_sstable_index_def)
  ultimately show ?thesis
    by (auto simp: si_load_empty returned_def ix_update_def ix_update_trust_def)
qed

text \<open>
  A directory with the index files of \<open>ts\<close>, that of segment 0 among them, and an empty one besides.
\<close>

lemma ix_load_empty_file:
  assumes x: "map_order_contract x" and dir: "is_directory fs (e_indexDir e)" and ids: "distinct (map si_fileId ts)"
    and files: "index_dir_ok x e fs0 ts"
      "\<And>n. map_of fs (e_indexDir e @ [n]) = (if n = index_name b then Some (File []) else map_of fs0 (e_indexDir e @ [n]))"
    and b: "\<forall>t \<in> set ts. unat (si_fileId t) < b" and zero: "0 \<in> si_fileId ` set ts"
  shows "\<exists>ix. ix_load fs (e_indexDir e) new_index = (Inl (Runtime_error ''file id is already indexed''), ix)"
proof -
  let ?name = "\<lambda>t. index_name (unat (si_fileId t))"
  let ?ns = "sort (remdups (regular_files fs (e_indexDir e)))"
  have pos: "0 < b" using b zero by fastforce
  have "set ?ns = insert (index_name b) (?name ` set ts)"
  proof -
    have "n \<in> set (regular_files fs (e_indexDir e)) \<longleftrightarrow> n = index_name b \<or> n \<in> set (regular_files fs0 (e_indexDir e))" for n
      by (simp add: regular_files_def dir_entries_iff file_content_def files(2))
    then show ?thesis using regular_index_files [OF files(1)] by auto
  qed
  note names = this
  obtain t where "t \<in> set ts" "si_fileId t = 0" using zero by auto
  then have zero': "index_name 0 \<in> set ?ns" unfolding names by (intro insertI2 image_eqI [of _ _ t]) simp_all
  have "index_name b \<in> set ?ns" and old: "set ?ns - {index_name b} \<subseteq> ?name ` set ts"
    unfolding names by auto
  then obtain as bs where split: "?ns = as @ index_name b # bs" by (meson split_list)
  have sorted: "sorted_wrt (<) (as @ index_name b # bs)" unfolding split [symmetric] by (simp add: strict_sorted_iff)
  have "index_name 0 \<in> set as"
    using zero' sorted index_name_0_less [OF pos] unfolding split by (auto simp: sorted_wrt_append)
  moreover have "set as \<subseteq> ?name ` set ts"
    using old sorted unfolding split by (auto simp: sorted_wrt_append)
  then obtain us where us: "as = map ?name us" "set us \<subseteq> set ts" using map_over_image [of as ?name "set ts"] by auto
  ultimately have "0 \<in> si_fileId ` set us" by (force simp: unat_eq_0)
  have "distinct as" using sorted by (simp add: sorted_wrt_append strict_sorted_iff)
  then have "distinct (map si_fileId us)" unfolding us(1) by (auto simp: distinct_map inj_on_def)
  moreover have "\<forall>t \<in> set us. map_of fs (table_file (e_indexDir e) t) = Some (File (index_file x t)) \<and> si_inv t \<and> si_map t \<noteq> []"
    using files b us(2) by (fastforce simp: index_dir_ok_def)
  ultimately obtain ix where ix: "load_files fs (map (table_file (e_indexDir e)) us) new_index = (Inr (), ix)" "ix_inv ix"
    "list_all2 similar (ix_tables ix) (rev us)"
    using load_files_ok [OF x, of us fs "e_indexDir e" new_index] by auto
  have "set (ix_ids ix) = si_fileId ` set us"
    unfolding ix_ids_def similar_ids [OF ix(3)] by simp
  with \<open>0 \<in> si_fileId ` set us\<close> have "0 \<in> set (ix_ids ix)" by simp
  from load_known_empty [OF _ ix(2) this, of fs "e_indexDir e @ [index_name b]"]
  have "load_files fs ((e_indexDir e @ [index_name b]) # map (\<lambda>n. e_indexDir e @ [n]) bs) ix =
      (Inl (Runtime_error ''file id is already indexed''), ix)" by (simp add: files(2))
  moreover have "map (\<lambda>n. e_indexDir e @ [n]) ?ns =
      map (table_file (e_indexDir e)) us @ (e_indexDir e @ [index_name b]) # map (\<lambda>n. e_indexDir e @ [n]) bs"
    unfolding split us(1) by simp
  ultimately have "load_files fs (map (\<lambda>n. e_indexDir e @ [n]) ?ns) new_index =
      (Inl (Runtime_error ''file id is already indexed''), ix)"
    using load_files_append [OF ix(1)] by simp
  then show ?thesis using dir by (auto simp: ix_load_def fs_exists_def is_directory_def)
qed

lemma created_index_fails:
  assumes s: "snapshotting x P c h ops e fs m segs rows" and zero: "e_index e = Some ix" "0 \<in> set (ix_ids ix)"
  shows "\<exists>e' fs'. se_open x P (e_dir e) opts' (new_engine P) (snapshot_at x P e m fs Index_created) =
      (Inl (Runtime_error ''file id is already indexed''), e', fs') \<and> file_content fs' (e_walFileName e) = Some []"
proof -
  let ?fs = "snapshot_at x P e m fs Index_created" and ?b = "new_bloom (p_filterSize P)"
  define fs2 where "fs2 = write_file ?fs (e_walFileName e) []"
  note names = snapshotting_names [OF s] and maps = stage_map [OF s] and inv = snapshottingD(1) [OF s]
  have paths: "paths_ok e ?fs" by (rule se_invD(3) [OF stage_inv [OF s]]) simp
  have found: "found_fs e (rows_bytes rows) ?fs ?fs" by (rule stage_found [OF s]) simp_all
  have old: "options_ok e fs" "index_dir_ok x e fs (ix_tables ix)"
    using snapshottingD(6) [OF s] zero(1) by (auto simp: durable_def)
  have ids: "distinct (map si_fileId (ix_tables ix))" "\<forall>t \<in> set (ix_tables ix). unat (si_fileId t) < unat (e_segmentId e)"
    "0 \<in> si_fileId ` set (ix_tables ix)"
    using se_invD(4,5) [OF inv] zero by (auto simp: disk_ok_def ix_inv_def ix_ids_def ids_ok_def)
  have opts: "options_ok e ?fs" by (rule options_same [OF old(1)]) (simp add: maps names)
  obtain m1 s1 where m1: "restoreFromLog (ext_junk x) new_memtable (fresh_stream (rows_bytes rows)) = Some (Inr (m1, s1))"
    "mt_wal m1 = None"
    using restored_latest [OF snapshottingD(6-8) [OF s]] by blast
  define e1 where "e1 = reopened P e (reopened_memtable e m1) new_index ?b"
  note look = found_truncated [OF paths found, folded fs2_def]
  have "is_directory ?fs (e_indexDir e)" using paths unfolding paths_ok_def by blast
  then have dir: "is_directory fs2 (e_indexDir e)" by (simp add: fs2_def)
  have files: "map_of fs2 (e_indexDir e @ [n]) =
      (if n = index_name (unat (e_segmentId e)) then Some (File []) else map_of fs (e_indexDir e @ [n]))" for n
    by (simp add: look maps names)
  from ix_load_empty_file [OF snapshottingD(9) [OF s] dir ids(1) old(2) files ids(2,3)] obtain ix' where
    load: "ix_load fs2 (e_indexDir e) new_index = (Inl (Runtime_error ''file id is already indexed''), ix')" by blast
  have "fs_is_empty fs2 (e_indexDir e) = Inr False"
    using dir files [of "index_name (unat (e_segmentId e))"]
    by (auto simp: fs_is_empty_def is_directory_def dir_entries_Nil)
  then have "open_index x P e1 fs2 = (Inl (Runtime_error ''file id is already indexed''), e1\<lparr>e_index := Some ix'\<rparr>, fs2)"
    using load names(2) by (simp add: open_index_def e1_def)
  then have "se_open x P (e_dir e) opts' (new_engine P) ?fs =
      (Inl (Runtime_error ''file id is already indexed''), e1\<lparr>e_index := Some ix'\<rparr>, fs2)"
    unfolding open_until_index [OF paths opts found m1] fs2_def e1_def .
  moreover have "file_content fs2 (e_walFileName e) = Some []" by (simp add: file_content_def look)
  ultimately show ?thesis by blast
qed

text \<open>An engine that has taken a snapshot has the segment 0.\<close>

definition has_zero :: "engine \<Rightarrow> bool" where
  "has_zero e \<longleftrightarrow> (e_segmentId e \<noteq> 0 \<longrightarrow> (\<forall>ix. e_index e = Some ix \<longrightarrow> 0 \<in> set (ix_ids ix)))"

lemma makeSnapshot_zero:
  assumes "makeSnapshot x P e fs = (Inr (), e', fs')" "has_zero e"
  shows "has_zero e'"
proof -
  obtain m where "e_memTable e = Some m" using assms(1) by (cases "e_memTable e") (auto simp: makeSnapshot_def)
  with assms(1) obtain ix ix' where
    "e_index e = Some ix" "e_index e' = Some ix'" "e_segmentId e' = e_segmentId e + 1"
    and upd: "ix_update (sstable_index_of (ucast (e_segmentId e)) (createSortedStringsTable m)) ix = Inr ix'"
    by (auto simp: makeSnapshot_def Let_def rbind_Inr_iff deref_def split: sum.splits prod.splits option.splits)
  moreover have "set (ix_ids ix') = insert (ucast (e_segmentId e)) (set (ix_ids ix))"
    using upd by (auto simp: ix_update_def ix_update_trust_def ix_ids_def Let_def split: if_splits)
  ultimately show ?thesis using assms(2) by (auto simp: has_zero_def)
qed

lemma has_zero_frame [simp]: "has_zero (e\<lparr>e_memTable := mo\<rparr>) = has_zero e"
  by (simp add: has_zero_def)

lemma se_step_zero: "se_step x P op e fs = (Inr (), e', fs') \<Longrightarrow> has_zero e \<Longrightarrow> has_zero e'"
  by (cases op) (auto simp: Database_put_def Database_remove_def se_put_def se_remove_def deref_def Let_def
      dest!: makeSnapshot_zero split: sum.splits if_splits option.splits)

lemma se_run_zero: "se_run x P ops e fs = (Inr (), e', fs') \<Longrightarrow> has_zero e \<Longrightarrow> has_zero e'"
  by (induction ops arbitrary: e fs) (auto dest: se_step_zero split: sum.splits prod.splits)

section \<open>A put that takes a snapshot\<close>

lemma put_at_stage:
  assumes inv: "run_inv x P c h ops e fs m segs" and d: "durable x P e fs m segs rows"
    and ok: "op_ok x c (Op_put k v)" and room: "room 1 (op_bytes x c (Op_put k v)) e m"
    and rows: "Suc (length rows) < 2 ^ 64"
    and x: "map_order_contract x" and P: "0 < p_filterSize P" "p_filterSize P < 2 ^ 64"
  shows "\<exists>e1 m1 r. (\<forall>st fsC. put_at x P k v e fs st = Some fsC \<longrightarrow> fsC = snapshot_at x P e1 m1 fs st) \<and>
    snapshotting x P c h (ops @ [Op_put k v]) e1 fs m1 segs (rows @ [r]) \<and>
    e_dir e1 = e_dir e \<and> e_index e1 = e_index e \<and> e_segmentId e1 = e_segmentId e \<and> e_walFileName e1 = e_walFileName e"
proof -
  from ok comp.round_trip [of x c v] obtain cv where cv:
    "compress x c v = Inr cv" "uncompress x c cv = Inr v" by (auto simp: op_ok_def)
  define m1 where "m1 = mt_put k cv (hasher_hash x h cv) m"
  define e1 where "e1 = e\<lparr>e_memTable := Some m1\<rparr>"
  have "room (Suc 0) (35 + length cv + 0) e m" using room cv by (simp add: op_bytes_def)
  note put = put_in_memory [OF inv ok this cv m1_def e1_def]
  have "snapshotting x P c h (ops @ [Op_put k v]) e1 fs m1 segs (rows @ [make_put_row k cv (hasher_hash x h cv)])"
    using put(2) put(3) put(4) [OF d] rows x P
    by (simp add: snapshotting_def) (simp add: m1_def mt_put_def mt_put_entry_add mt_add_def)
  moreover have "put_prepare x v e = Inr (cv, hasher_hash x h cv)" "e_memTable e = Some m"
    using inv cv(1) by (auto simp: put_prepare_def run_inv_def deref_def dest: se_invD)
  then have "put_at x P k v e fs st = Some fsC \<longrightarrow> fsC = snapshot_at x P e1 m1 fs st" for st fsC
    by (auto simp: put_at_def Let_def m1_def e1_def split: if_splits)
  ultimately show ?thesis by (intro exI [of _ e1] exI [of _ m1]) (auto simp: e1_def)
qed

text \<open>From the first opening on: a sequence of writes, and a put that takes a snapshot.\<close>

lemma run_put_at:
  assumes "empty_directory fs dir" "createHasher (opt_hashType opts) = Some h" "wf_options opts"
    "0 < p_filterSize P" "p_filterSize P < 2 ^ 64" "map_order_contract x"
    "c = createCompressor (opt_compressionType opts)" "\<forall>op \<in> set (ops @ [Op_put k v]). op_ok x c op"
    "length ops + 1 < 2 ^ 32" "sum_list (map (op_bytes x c) (ops @ [Op_put k v])) < 2 ^ 32"
  obtains e0 fs0 e fs1 e1 m1 segs rows where
    "Database_open x P dir opts (new_engine P) fs = (Inr (), e0, fs0)" "se_run x P ops e0 fs0 = (Inr (), e, fs1)"
    "\<forall>st fsC. put_at x P k v e fs1 st = Some fsC \<longrightarrow> fsC = snapshot_at x P e1 m1 fs1 st"
    "snapshotting x P c h (ops @ [Op_put k v]) e1 fs1 m1 segs rows"
    "e_dir e1 = dir" "e_segmentId e1 = e_segmentId e" "e_walFileName e1 = dir @ [''wal.bin'']" "has_zero e1"
proof -
  have ok: "\<forall>op \<in> set ops. op_ok x c op" "op_ok x c (Op_put k v)" using assms(8) by simp_all
  have bounds: "sum_list (map (op_bytes x c) ops) + op_bytes x c (Op_put k v) < 2 ^ 32" using assms(10) by simp
  obtain e0 fs0 m0 e fs1 m segs rows where start: "se_open x P dir opts (new_engine P) fs = (Inr (), e0, fs0)"
      "run_inv x P c h [] e0 fs0 m0 []" "mt_map m0 = []" "mt_memorySize m0 = 0" "e_memTableLimit e0 = opt_maxMemTableSize opts"
    and run: "se_run x P ops e0 fs0 = (Inr (), e, fs1)" "run_inv x P c h ops e fs1 m segs"
      "room 1 (op_bytes x c (Op_put k v)) e m" "durable x P e fs1 m segs rows" "length rows = length ops" "e_dir e = dir"
    by (rule open_run [OF assms(1-5,7) ok(1) assms(9) bounds])
  have "e_segmentId e0 = 0" using open_run_inv [OF assms(1,2,4,5,7), of x] start(1) by auto
  then have zero: "has_zero e" using se_run_zero [OF run(1)] by (simp add: has_zero_def)
  have "Suc (length rows) < 2 ^ 64" using run(5) assms(9) by simp
  from put_at_stage [OF run(2,4) ok(2) run(3) this assms(6,4,5)] obtain e1 m1 r where
    put: "\<forall>st fsC. put_at x P k v e fs1 st = Some fsC \<longrightarrow> fsC = snapshot_at x P e1 m1 fs1 st"
      "snapshotting x P c h (ops @ [Op_put k v]) e1 fs1 m1 segs (rows @ [r])"
    and e1: "e_dir e1 = e_dir e" "e_index e1 = e_index e" "e_segmentId e1 = e_segmentId e" by blast
  have "has_zero e1" using zero e1 by (simp add: has_zero_def)
  then show thesis
    using that [OF _ run(1) put] start(1) run(6) e1 snapshotting_names(3) [OF put(2)] by (simp add: Database_open_def)
qed

section \<open>Properties\<close>




text \<open>
  C7: If the process dies while a put takes a snapshot that is not the first one, just after the
  index file has been created, the database cannot be opened again: the empty file is read as the
  index of segment 0, which exists already. The attempt also empties the log, so that the writes
  of the memtable are gone for good. The writes meet \<open>op_ok\<close> and the 32-bit bounds.
\<close>

theorem snapshot_crash_ruins_database:
  assumes "empty_directory fs dir" "createHasher (opt_hashType opts) = Some h" "wf_options opts"
    "0 < p_filterSize P" "p_filterSize P < 2 ^ 64" "map_order_contract x"
    "c = createCompressor (opt_compressionType opts)" "\<forall>op \<in> set (ops @ [Op_put k v]). op_ok x c op"
    "length ops + 1 < 2 ^ 32" "sum_list (map (op_bytes x c) (ops @ [Op_put k v])) < 2 ^ 32"
  shows "\<exists>e0 fs0 e fs1. Database_open x P dir opts (new_engine P) fs = (Inr (), e0, fs0) \<and>
    se_run x P ops e0 fs0 = (Inr (), e, fs1) \<and>
    (\<forall>fsC. put_at x P k v e fs1 Index_created = Some fsC \<and> e_segmentId e \<noteq> 0 \<longrightarrow>
       (\<exists>e' fs2. Database_open x P dir opts' (new_engine P) fsC =
          (Inl (Runtime_error ''file id is already indexed''), e', fs2) \<and>
          file_content fs2 (dir @ [''wal.bin'']) = Some []))"
proof -
  obtain e0 fs0 e fs1 e1 m1 segs rows where run:
    "Database_open x P dir opts (new_engine P) fs = (Inr (), e0, fs0)" "se_run x P ops e0 fs0 = (Inr (), e, fs1)"
    "\<forall>st fsC. put_at x P k v e fs1 st = Some fsC \<longrightarrow> fsC = snapshot_at x P e1 m1 fs1 st"
    and s: "snapshotting x P c h (ops @ [Op_put k v]) e1 fs1 m1 segs rows" and dir: "e_dir e1 = dir"
    and e1: "e_segmentId e1 = e_segmentId e" "e_walFileName e1 = dir @ [''wal.bin'']" "has_zero e1"
    by (rule run_put_at [OF assms])
  have "\<exists>e' fs2. Database_open x P dir opts' (new_engine P) (snapshot_at x P e1 m1 fs1 Index_created) =
      (Inl (Runtime_error ''file id is already indexed''), e', fs2) \<and> file_content fs2 (dir @ [''wal.bin'']) = Some []"
    if "e_segmentId e \<noteq> 0"
  proof -
    obtain ix where "e_index e1 = Some ix" using se_invD(4) [OF snapshottingD(1) [OF s]] by (auto simp: disk_ok_def)
    moreover from this have "0 \<in> set (ix_ids ix)" using that e1(1,3) by (simp add: has_zero_def)
    ultimately show ?thesis
      using created_index_fails [OF s, of ix opts'] dir e1(2) by (simp add: Database_open_def)
  qed
  with run show ?thesis by metis
qed

theorem snapshot_crash_ruins_database_witness:
  "\<exists>e0 fs0 e fs1 fsC e' fs2. Database_open plain_externals small_params [''db''] small_options (new_engine small_params) small_fs = (Inr (), e0, fs0) \<and>
    se_run plain_externals small_params [Op_put (Key 1) [7]] e0 fs0 = (Inr (), e, fs1) \<and>
    put_at plain_externals small_params (Key 2) [8] e fs1 Index_created = Some fsC \<and>
    Database_open plain_externals small_params [''db''] default_options (new_engine small_params) fsC =
      (Inl (Runtime_error ''file id is already indexed''), e', fs2)"
proof -
  let ?ops = "[Op_put (Key 1) [7]] @ [Op_put (Key 2) [8]]"
  have ops: "\<forall>op \<in> set ?ops. op_ok plain_externals NoCompression op"
    "sum_list (map (op_bytes plain_externals NoCompression) ?ops) < 2 ^ 32"
    by (simp_all add: op_ok_def op_bytes_def npos_def no_compress_def)
  have len: "length [Op_put (Key 1) [7]] + 1 < 2 ^ 32" by simp
  have opts: "createHasher (opt_hashType small_options) = Some CityHash128Adapter" "wf_options small_options"
    "NoCompression = createCompressor (opt_compressionType small_options)"
    by (simp_all add: small_options_def wf_options_def compression_byte_def compression_of_byte_def
        hash_type_byte_def hash_type_of_byte_def)
  have P: "0 < p_filterSize small_params" "p_filterSize small_params < 2 ^ 64"
    by (simp_all add: small_params_def)
  have taken: "case Database_open plain_externals small_params [''db''] small_options (new_engine small_params) small_fs of
      (r, e0, fs0) \<Rightarrow> (case se_run plain_externals small_params [Op_put (Key 1) [7]] e0 fs0 of
        (r1, e, fs1) \<Rightarrow> e_segmentId e \<noteq> 0 \<and> put_at plain_externals small_params (Key 2) [8] e fs1 Index_created \<noteq> None)"
    by code_simp
  from snapshot_crash_ruins_database [OF small_fs_empty opts(1,2) P(1,2) plain_map_order_contract opts(3) ops(1) len ops(2),
      of default_options]
  obtain e0 fs0 e fs1 where start: "Database_open plain_externals small_params [''db''] small_options (new_engine small_params) small_fs = (Inr (), e0, fs0)"
    "se_run plain_externals small_params [Op_put (Key 1) [7]] e0 fs0 = (Inr (), e, fs1)"
    and crash: "\<forall>fsC. put_at plain_externals small_params (Key 2) [8] e fs1 Index_created = Some fsC \<and> e_segmentId e \<noteq> 0 \<longrightarrow>
       (\<exists>e' fs2. Database_open plain_externals small_params [''db''] default_options (new_engine small_params) fsC =
          (Inl (Runtime_error ''file id is already indexed''), e', fs2) \<and>
          file_content fs2 ([''db''] @ [''wal.bin'']) = Some [])" by blast
  from taken start obtain fsC where fsC: "put_at plain_externals small_params (Key 2) [8] e fs1 Index_created = Some fsC"
    "e_segmentId e \<noteq> 0" by (auto simp del: se_run.simps)
  with crash start show ?thesis by blast
qed

end
