(* ===== verification/HandleConcurrent.thy ===== *)
theory HandleConcurrent
  imports EngineConcurrent
begin

text \<open>
  Requests that several threads pass to \<open>StorageEngine::handle\<close> at the same time. Every request is
  one call of \<open>EngineConcurrent\<close>, between the switch on its type and the translation of its outcome
  into a response. The calls and returns of \<open>handle\<close> make up a history, and a database is shown to
  be linearizable in the sense of Herlihy and Wing: there is one sequence of the requests,
  compatible with the order in which calls followed returns, that gives the same responses when
  they are handled one after the other.
\<close>

section \<open>Histories\<close>

datatype event = Called nat request | Returned nat response

text \<open>The \<open>j\<close>th request had its response before the \<open>i\<close>th was passed to the database.\<close>

definition precedes :: "event list \<Rightarrow> nat \<Rightarrow> nat \<Rightarrow> bool" where
  "precedes h j i \<longleftrightarrow> (\<exists>h1 h2 r q. h = h1 @ h2 \<and> Returned j r \<in> set h1 \<and> Called i q \<in> set h2)"

text \<open>
  A history of a database that has gone from one state to another. The sequence may have requests
  that have not returned yet but have had their effect.
\<close>

definition linearizable ::
    "externals \<Rightarrow> filter_params \<Rightarrow> event list \<Rightarrow> engine \<Rightarrow> fsys \<Rightarrow> engine \<Rightarrow> fsys \<Rightarrow> bool" where
  "linearizable x P h e0 fs0 e fs \<longleftrightarrow> (\<exists>order :: (nat \<times> request \<times> response result) list.
     distinct (map fst order) \<and>
     handle_run x P (map (\<lambda>(i, q, r). q) order) e0 fs0 = (map (\<lambda>(i, q, r). r) order, e, fs) \<and>
     (\<forall>(i, q, r) \<in> set order. Called i q \<in> set h) \<and>
     (\<forall>i r. Returned i r \<in> set h \<longrightarrow> (\<exists>q. (i, q, Inr r) \<in> set order)) \<and>
     (\<forall>i j. precedes h j i \<longrightarrow> i \<in> fst ` set order \<longrightarrow> j \<in> set (takeWhile (\<lambda>k. k \<noteq> i) (map fst order))))"

lemma precedes_snoc:
  assumes "precedes (h @ [ev]) j i"
  shows "precedes h j i \<or> (\<exists>r. Returned j r \<in> set h) \<and> (\<exists>q. ev = Called i q)"
proof -
  from assms obtain h1 h2 r q where a: "h @ [ev] = h1 @ h2" "Returned j r \<in> set h1" "Called i q \<in> set h2"
    by (auto simp: precedes_def)
  show ?thesis
  proof (cases h2 rule: rev_cases)
    case (snoc h3 y)
    with a(1) have "h = h1 @ h3" "y = ev" by auto
    with a(2,3) snoc show ?thesis by (auto simp: precedes_def)
  qed (use a in simp)
qed

lemma precedes_in: "precedes h j i \<Longrightarrow> (\<exists>r. Returned j r \<in> set h) \<and> (\<exists>q. Called i q \<in> set h)"
  by (auto simp: precedes_def)

section \<open>Requests under way\<close>

text \<open>The call of the engine that the switch on the type selects; none for a type it does not know.\<close>

definition handle_call :: "request \<Rightarrow> activity option" where
  "handle_call q = (case rq_type q of
       RequestType_Get \<Rightarrow> Some (Get_called (rq_key q))
     | RequestType_Put \<Rightarrow> Some (Put_called (rq_key q) (rq_value q))
     | RequestType_Delete \<Rightarrow> Some (Remove_called (rq_key q))
     | RequestType_other _ \<Rightarrow> None)"

text \<open>What is returned once the call is over, an exception caught.\<close>

definition caught_response :: "response result \<Rightarrow> response result" where
  "caught_response r = (case r of
       Inl err \<Rightarrow> if is_std_exception err then Inr (Response ResponseStatus_UnknownError []) else Inl err
     | Inr resp \<Rightarrow> Inr resp)"

definition found_response :: "bytes option \<Rightarrow> response" where
  "found_response r = (case r of
       Some value \<Rightarrow> Response ResponseStatus_Ok value
     | None \<Rightarrow> Response ResponseStatus_NotFound [])"

fun handle_result :: "activity option \<Rightarrow> response result option" where
  "handle_result None = Some (Inr (Response ResponseStatus_InvalidRequestType []))"
| "handle_result (Some (Wrote op r)) = Some (caught_response (rmap (\<lambda>_. Response ResponseStatus_Ok []) r))"
| "handle_result (Some (Got k r)) = Some (caught_response (rmap found_response r))"
| "handle_result (Some _) = None"

record handler =
  hd_request :: request
  hd_activity :: "activity option"
  hd_start :: nat
  hd_returned :: bool

record handle_system =
  hs_engine :: engine
  hs_fs :: fsys
  hs_log :: "db_op list"
  hs_handlers :: "handler list"
  hs_history :: "event list"

definition new_handle_system :: "engine \<Rightarrow> fsys \<Rightarrow> handle_system" where
  "new_handle_system e fs = \<lparr>hs_engine = e, hs_fs = fs, hs_log = [], hs_handlers = [], hs_history = []\<rparr>"

inductive handle_step :: "externals \<Rightarrow> filter_params \<Rightarrow> handle_system \<Rightarrow> handle_system \<Rightarrow> bool" for x P where
  handle_called:
    "handle_step x P s (s\<lparr>
       hs_handlers := hs_handlers s @ [\<lparr>hd_request = q, hd_activity = handle_call q,
         hd_start = length (hs_log s), hd_returned = False\<rparr>],
       hs_history := hs_history s @ [Called (length (hs_handlers s)) q]\<rparr>)"
| handle_section:
    "i < length (hs_handlers s) \<Longrightarrow> hd_activity (hs_handlers s ! i) = Some a \<Longrightarrow>
     next_section x P a (hs_engine s) (hs_fs s) = (a', e, fs, ops) \<Longrightarrow>
     handle_step x P s (s\<lparr>hs_engine := e, hs_fs := fs, hs_log := hs_log s @ ops,
       hs_handlers := (hs_handlers s)[i := (hs_handlers s ! i)\<lparr>hd_activity := Some a'\<rparr>]\<rparr>)"
| handle_returned:
    "i < length (hs_handlers s) \<Longrightarrow> \<not> hd_returned (hs_handlers s ! i) \<Longrightarrow>
     handle_result (hd_activity (hs_handlers s ! i)) = Some (Inr r) \<Longrightarrow>
     handle_step x P s (s\<lparr>
       hs_handlers := (hs_handlers s)[i := (hs_handlers s ! i)\<lparr>hd_returned := True\<rparr>],
       hs_history := hs_history s @ [Returned i r]\<rparr>)"

inductive_cases handle_stepE: "handle_step x P s t"

text \<open>Without other threads, the sections of a request are \<open>handle\<close>.\<close>

lemma Database_handle_cases:
  "Database_handle x P q e fs = (case rq_type q of
       RequestType_Get \<Rightarrow> (caught_response (rmap found_response (se_get x P (rq_key q) e fs)), e, fs)
     | RequestType_Put \<Rightarrow> (case se_put x P (rq_key q) (rq_value q) e fs of
         (r, e', fs') \<Rightarrow> (caught_response (rmap (\<lambda>_. Response ResponseStatus_Ok []) r), e', fs'))
     | RequestType_Delete \<Rightarrow> (case se_remove (rq_key q) e fs of
         (r, e', fs') \<Rightarrow> (caught_response (rmap (\<lambda>_. Response ResponseStatus_Ok []) r), e', fs'))
     | RequestType_other _ \<Rightarrow> (Inr (Response ResponseStatus_InvalidRequestType []), e, fs))"
  by (auto simp: Database_handle_def se_handle_def caught_def caught_response_def found_response_def [abs_def]
      split: request_type.splits sum.splits prod.splits)

section \<open>Orders of the requests\<close>

text \<open>What the \<open>i\<close>th request has written, and a sequence of requests that are over.\<close>

definition handler_writes :: "handler list \<Rightarrow> nat \<Rightarrow> db_op list" where
  "handler_writes ts i = (case hd_activity (ts ! i) of Some a \<Rightarrow> committed a | None \<Rightarrow> [])"

definition order_writes :: "handler list \<Rightarrow> nat list \<Rightarrow> db_op list" where
  "order_writes ts order = concat (map (handler_writes ts) order)"

definition handler_result :: "handler list \<Rightarrow> nat \<Rightarrow> response result" where
  "handler_result ts i = the (handle_result (hd_activity (ts ! i)))"

fun legal ::
    "externals \<Rightarrow> filter_params \<Rightarrow> handler list \<Rightarrow> nat list \<Rightarrow> engine \<Rightarrow> fsys \<Rightarrow> engine \<Rightarrow> fsys \<Rightarrow> bool" where
  "legal x P ts [] e fs e' fs' \<longleftrightarrow> e' = e \<and> fs' = fs"
| "legal x P ts (i # order) e fs e' fs' \<longleftrightarrow> (\<exists>e1 fs1.
     Database_handle x P (hd_request (ts ! i)) e fs = (handler_result ts i, e1, fs1) \<and>
     se_run x P (handler_writes ts i) e fs = (Inr (), e1, fs1) \<and> legal x P ts order e1 fs1 e' fs')"

lemma order_writes_simps [simp]:
  "order_writes ts [] = []"
  "order_writes ts (i # order) = handler_writes ts i @ order_writes ts order"
  "order_writes ts (xs @ ys) = order_writes ts xs @ order_writes ts ys"
  by (simp_all add: order_writes_def)

lemma legal_append:
  "legal x P ts (xs @ ys) e fs e' fs' \<longleftrightarrow>
   (\<exists>e1 fs1. legal x P ts xs e fs e1 fs1 \<and> legal x P ts ys e1 fs1 e' fs')"
  by (induction xs arbitrary: e fs) auto

lemma legal_handle_run:
  "legal x P ts order e fs e' fs' \<Longrightarrow>
   handle_run x P (map (\<lambda>i. hd_request (ts ! i)) order) e fs = (map (handler_result ts) order, e', fs')"
  by (induction order arbitrary: e fs) auto

lemma legal_se_run:
  "legal x P ts order e fs e' fs' \<Longrightarrow> se_run x P (order_writes ts order) e fs = (Inr (), e', fs')"
  by (induction order arbitrary: e fs) (auto simp: se_run_append)

text \<open>A request that is not in the order is of no importance for it.\<close>

lemma handler_update:
  "j \<noteq> i \<Longrightarrow> handler_writes (ts[i := t]) j = handler_writes ts j"
  "j \<noteq> i \<Longrightarrow> handler_result (ts[i := t]) j = handler_result ts j"
  "j < length ts \<Longrightarrow> handler_writes (ts @ [t]) j = handler_writes ts j"
  "j < length ts \<Longrightarrow> handler_result (ts @ [t]) j = handler_result ts j"
  by (simp_all add: handler_writes_def handler_result_def nth_append)

lemma order_update:
  assumes "\<forall>j \<in> set order. handler_writes us j = handler_writes ts j"
  shows "order_writes us order = order_writes ts order"
  using assms by (induction order) auto

lemma legal_update:
  assumes "\<forall>j \<in> set order. handler_writes us j = handler_writes ts j \<and> handler_result us j = handler_result ts j \<and>
    hd_request (us ! j) = hd_request (ts ! j)"
  shows "legal x P us order e fs e' fs' = legal x P ts order e fs e' fs'"
  using assms by (induction order arbitrary: e fs) auto

text \<open>The place in an order for a request that read the database after \<open>m\<close> writes.\<close>

lemma handler_writes_length: "length (handler_writes ts i) \<le> 1"
proof (cases "hd_activity (ts ! i)")
  case (Some a)
  then show ?thesis by (cases a rule: committed.cases) (simp_all add: handler_writes_def)
qed (simp add: handler_writes_def)

lemma order_split:
  "m \<le> length (order_writes ts order) \<Longrightarrow> \<exists>xs ys. order = xs @ ys \<and> length (order_writes ts xs) = m \<and>
     (ys \<noteq> [] \<longrightarrow> handler_writes ts (hd ys) \<noteq> [])"
proof (induction order arbitrary: m)
  case (Cons i order)
  show ?case
  proof (cases "m = 0 \<and> handler_writes ts i \<noteq> []")
    case True
    then show ?thesis by (intro exI [of _ "[]"] exI [of _ "i # order"]) simp
  next
    case False
    let ?n = "length (handler_writes ts i)"
    have n: "?n \<le> m" using False handler_writes_length [of ts i] by (cases "?n") auto
    have "m - ?n \<le> length (order_writes ts order)" using Cons.prems by simp
    from Cons.IH [OF this] obtain xs ys where
      "order = xs @ ys" "length (order_writes ts xs) = m - ?n" "ys \<noteq> [] \<longrightarrow> handler_writes ts (hd ys) \<noteq> []" by blast
    with n show ?thesis by (intro exI [of _ "i # xs"] exI [of _ ys]) simp
  qed
qed simp

lemma takeWhile_late: "j \<notin> set xs \<Longrightarrow> takeWhile (\<lambda>k. k \<noteq> j) (xs @ ys) = xs @ takeWhile (\<lambda>k. k \<noteq> j) ys"
  by (induction xs) auto

text \<open>How much has been written up to a request, itself included.\<close>

definition written_through :: "handler list \<Rightarrow> nat list \<Rightarrow> nat \<Rightarrow> nat" where
  "written_through ts order j = length (order_writes ts (takeWhile (\<lambda>k. k \<noteq> j) order @ [j]))"

lemma written_through_early:
  assumes "j \<in> set (xs @ ys)" "written_through ts (xs @ ys) j \<le> length (order_writes ts xs)"
    "ys \<noteq> [] \<longrightarrow> handler_writes ts (hd ys) \<noteq> []"
  shows "j \<in> set xs"
proof (rule ccontr)
  assume no: "j \<notin> set xs"
  with assms(1) obtain y zs where ys: "ys = y # zs" by (cases ys) auto
  with no have "written_through ts (xs @ ys) j > length (order_writes ts xs)"
    using assms(3) by (auto simp: written_through_def takeWhile_late)
  with assms(2) show False by simp
qed

lemma written_through_bound: "j \<in> set order \<Longrightarrow> written_through ts order j \<le> length (order_writes ts order)"
proof -
  assume "j \<in> set order"
  then obtain xs ys where "order = xs @ j # ys" "j \<notin> set xs" by (metis split_list_first)
  then show ?thesis by (simp add: written_through_def takeWhile_late)
qed

text \<open>A new request that wrote nothing, or is last, leaves the others where they are.\<close>

lemma written_through_insert:
  assumes "j \<in> set (xs @ ys)" "i \<notin> set (xs @ ys)" "handler_writes ts i = [] \<or> ys = []"
  shows "written_through ts (xs @ i # ys) j = written_through ts (xs @ ys) j"
  using assms by (cases "j \<in> set xs") (auto simp: written_through_def takeWhile_append1 takeWhile_late)

lemma before_insert:
  assumes "k \<noteq> i" "j \<in> set (takeWhile (\<lambda>l. l \<noteq> k) (xs @ ys))"
  shows "j \<in> set (takeWhile (\<lambda>l. l \<noteq> k) (xs @ i # ys))"
  using assms by (cases "k \<in> set xs") (auto simp: takeWhile_append1 takeWhile_late)

lemma before_new: "i \<notin> set xs \<Longrightarrow> takeWhile (\<lambda>l. l \<noteq> i) (xs @ i # ys) = xs"
  by (induction xs) auto

text \<open>An order that keeps what came after a return behind it.\<close>

definition in_order :: "handler list \<Rightarrow> event list \<Rightarrow> nat list \<Rightarrow> bool" where
  "in_order ts h order \<longleftrightarrow> (\<forall>i j. precedes h j i \<longrightarrow> j \<in> set order \<and>
     written_through ts order j \<le> hd_start (ts ! i) \<and>
     (i \<in> set order \<longrightarrow> j \<in> set (takeWhile (\<lambda>k. k \<noteq> i) order)))"

lemma in_order_insert:
  assumes "in_order ts h (xs @ ys)" "i \<notin> set (xs @ ys)" "handler_writes ts i = [] \<or> ys = []"
    "\<forall>j. precedes h j i \<longrightarrow> j \<in> set xs"
  shows "in_order ts h (xs @ i # ys)"
  unfolding in_order_def
proof (intro allI impI)
  fix k j
  assume "precedes h j k"
  with assms(1) have j: "j \<in> set (xs @ ys)" "written_through ts (xs @ ys) j \<le> hd_start (ts ! k)"
    "k \<in> set (xs @ ys) \<longrightarrow> j \<in> set (takeWhile (\<lambda>l. l \<noteq> k) (xs @ ys))" by (auto simp: in_order_def)
  have "j \<in> set (takeWhile (\<lambda>l. l \<noteq> k) (xs @ i # ys))" if "k \<in> set (xs @ i # ys)"
  proof (cases "k = i")
    case True
    with assms(2,4) \<open>precedes h j k\<close> show ?thesis by (auto simp: before_new)
  next
    case False
    with that j(3) before_insert [OF False, of j xs ys] show ?thesis by auto
  qed
  with j(1,2) written_through_insert [OF j(1) assms(2,3)]
  show "j \<in> set (xs @ i # ys) \<and> written_through ts (xs @ i # ys) j \<le> hd_start (ts ! k) \<and>
      (k \<in> set (xs @ i # ys) \<longrightarrow> j \<in> set (takeWhile (\<lambda>l. l \<noteq> k) (xs @ i # ys)))" by auto
qed

lemma written_through_update:
  assumes "\<forall>j \<in> set order. handler_writes us j = handler_writes ts j" "j \<in> set order"
  shows "written_through us order j = written_through ts order j"
  unfolding written_through_def
  using assms by (subst order_update [of _ us ts]) (auto dest: set_takeWhileD)

lemma in_order_update:
  assumes "in_order ts h order" "\<forall>j \<in> set order. handler_writes us j = handler_writes ts j"
    "\<forall>i j. precedes h j i \<longrightarrow> hd_start (us ! i) = hd_start (ts ! i)"
  shows "in_order us h order"
  using assms written_through_update [OF assms(2)] by (fastforce simp: in_order_def)

text \<open>The new events.\<close>

lemma in_order_returned: "in_order ts h order \<Longrightarrow> in_order ts (h @ [Returned i r]) order"
  by (auto simp: in_order_def dest!: precedes_snoc)

lemma in_order_called:
  assumes "in_order ts h order" "\<forall>j r. Returned j r \<in> set h \<longrightarrow> j \<in> set order" "i \<notin> set order"
    "length (order_writes ts order) \<le> hd_start (ts ! i)"
  shows "in_order ts (h @ [Called i q]) order"
  unfolding in_order_def
proof (intro allI impI)
  fix k j
  assume "precedes (h @ [Called i q]) j k"
  then consider "precedes h j k" | r where "Returned j r \<in> set h" "k = i" by (auto dest!: precedes_snoc)
  then show "j \<in> set order \<and> written_through ts order j \<le> hd_start (ts ! k) \<and>
      (k \<in> set order \<longrightarrow> j \<in> set (takeWhile (\<lambda>l. l \<noteq> k) order))"
  proof cases
    case 1
    then show ?thesis using assms(1) by (auto simp: in_order_def)
  next
    case 2
    with assms(2-4) written_through_bound [of j order ts] show ?thesis by fastforce
  qed
qed

section \<open>The invariant\<close>

text \<open>What a thread does is what its request asks for.\<close>

fun of_request :: "request \<Rightarrow> activity \<Rightarrow> bool" where
  "of_request q (Put_called k v) \<longleftrightarrow> rq_type q = RequestType_Put \<and> rq_key q = k \<and> rq_value q = v"
| "of_request q (Put_prepared k v _ _) \<longleftrightarrow> rq_type q = RequestType_Put \<and> rq_key q = k \<and> rq_value q = v"
| "of_request q (Remove_called k) \<longleftrightarrow> rq_type q = RequestType_Delete \<and> rq_key q = k"
| "of_request q (Get_called k) \<longleftrightarrow> rq_type q = RequestType_Get \<and> rq_key q = k"
| "of_request q (Get_missed k) \<longleftrightarrow> rq_type q = RequestType_Get \<and> rq_key q = k"
| "of_request q (Get_filtered k) \<longleftrightarrow> rq_type q = RequestType_Get \<and> rq_key q = k"
| "of_request q (Get_hinted k _) \<longleftrightarrow> rq_type q = RequestType_Get \<and> rq_key q = k"
| "of_request q (Get_found k _ _) \<longleftrightarrow> rq_type q = RequestType_Get \<and> rq_key q = k"
| "of_request q (Wrote op _) \<longleftrightarrow> op = Op_put (rq_key q) (rq_value q) \<and> rq_type q = RequestType_Put \<or>
     op = Op_remove (rq_key q) \<and> rq_type q = RequestType_Delete"
| "of_request q (Got k _) \<longleftrightarrow> rq_type q = RequestType_Get \<and> rq_key q = k"

lemma next_section_request:
  "next_section x P a e fs = (a', e', fs', ops) \<Longrightarrow> of_request q a \<Longrightarrow> of_request q a'"
  by (cases a) (auto split: sum.splits prod.splits option.splits if_splits)

definition serves :: "request \<Rightarrow> activity option \<Rightarrow> bool" where
  "serves q ao = (case ao of Some a \<Rightarrow> of_request q a | None \<Rightarrow> (\<exists>b. rq_type q = RequestType_other b))"

lemma serves_call: "serves q (handle_call q)"
  by (auto simp: serves_def handle_call_def split: request_type.splits)

definition history_ok :: "handle_system \<Rightarrow> bool" where
  "history_ok s \<longleftrightarrow>
     (\<forall>i q. Called i q \<in> set (hs_history s) \<longleftrightarrow> i < length (hs_handlers s) \<and> q = hd_request (hs_handlers s ! i)) \<and>
     (\<forall>i r. Returned i r \<in> set (hs_history s) \<longrightarrow> i < length (hs_handlers s) \<and>
        handle_result (hd_activity (hs_handlers s ! i)) = Some (Inr r)) \<and>
     (\<forall>i < length (hs_handlers s). serves (hd_request (hs_handlers s ! i)) (hd_activity (hs_handlers s ! i)))"

lemma handle_result_kept:
  "handle_result (Some a) = Some r \<Longrightarrow> next_section x P a e fs = (a', e', fs', ops) \<Longrightarrow>
   a' = a \<and> e' = e \<and> fs' = fs \<and> ops = []"
  by (cases a) auto

lemma history_ok_step:
  assumes "history_ok s" "handle_step x P s t"
  shows "history_ok t"
  using assms(2)
proof (rule handle_stepE)
  fix q
  assume "t = s\<lparr>hs_handlers := hs_handlers s @ [\<lparr>hd_request = q, hd_activity = handle_call q,
         hd_start = length (hs_log s), hd_returned = False\<rparr>],
       hs_history := hs_history s @ [Called (length (hs_handlers s)) q]\<rparr>"
  then show ?thesis using assms(1) serves_call [of q]
    by (auto simp: history_ok_def nth_append less_Suc_eq)
next
  fix i a a' e fs ops
  assume "t = s\<lparr>hs_engine := e, hs_fs := fs, hs_log := hs_log s @ ops,
       hs_handlers := (hs_handlers s)[i := (hs_handlers s ! i)\<lparr>hd_activity := Some a'\<rparr>]\<rparr>"
    and a: "i < length (hs_handlers s)" "hd_activity (hs_handlers s ! i) = Some a"
      "next_section x P a (hs_engine s) (hs_fs s) = (a', e, fs, ops)"
  moreover have "serves (hd_request (hs_handlers s ! i)) (Some a')"
    using assms(1) a next_section_request [OF a(3)] by (auto simp: history_ok_def serves_def)
  moreover have "handle_result (Some a') = Some (Inr r)" if "Returned i r \<in> set (hs_history s)" for r
  proof -
    have "handle_result (Some a) = Some (Inr r)" using assms(1) that unfolding a(2) [symmetric] by (simp add: history_ok_def)
    with handle_result_kept [OF this a(3)] show ?thesis by simp
  qed
  ultimately show ?thesis using assms(1) by (auto simp: history_ok_def nth_list_update)
next
  fix i r
  assume "t = s\<lparr>hs_handlers := (hs_handlers s)[i := (hs_handlers s ! i)\<lparr>hd_returned := True\<rparr>],
       hs_history := hs_history s @ [Returned i r]\<rparr>"
    "i < length (hs_handlers s)" "handle_result (hd_activity (hs_handlers s ! i)) = Some (Inr r)"
  then show ?thesis using assms(1) by (auto simp: history_ok_def nth_list_update)
qed

text \<open>The requests as calls of the engine; one of unknown type is a call that never gets on.\<close>

definition handler_call :: "handler \<Rightarrow> activity \<times> nat" where
  "handler_call t = (case hd_activity t of
       Some a \<Rightarrow> (a, hd_start t) | None \<Rightarrow> (Get_called (rq_key (hd_request t)), hd_start t))"

definition calls_of :: "handle_system \<Rightarrow> system" where
  "calls_of s = \<lparr>sy_engine = hs_engine s, sy_fs = hs_fs s, sy_log = hs_log s,
     sy_threads = map handler_call (hs_handlers s)\<rparr>"

lemma handler_call_returned [simp]: "handler_call (t\<lparr>hd_returned := b\<rparr>) = handler_call t"
  by (simp add: handler_call_def split: option.split)

lemma handle_step_system: "handle_step x P s t \<Longrightarrow> reach (system_step x P) (calls_of s) (calls_of t)"
proof (erule handle_stepE)
  fix q
  let ?t = "\<lparr>hd_request = q, hd_activity = handle_call q, hd_start = length (hs_log s), hd_returned = False\<rparr>"
  assume t: "t = s\<lparr>hs_handlers := hs_handlers s @ [?t], hs_history := hs_history s @ [Called (length (hs_handlers s)) q]\<rparr>"
  obtain a where "handler_call ?t = (a, length (hs_log s))" "is_call a"
    by (cases "rq_type q") (auto simp: handler_call_def handle_call_def)
  with system_step.called [of a x P "calls_of s"] show ?thesis
    unfolding t by (intro reach_one) (simp add: calls_of_def)
next
  fix i a a' e fs ops
  assume "t = s\<lparr>hs_engine := e, hs_fs := fs, hs_log := hs_log s @ ops,
       hs_handlers := (hs_handlers s)[i := (hs_handlers s ! i)\<lparr>hd_activity := Some a'\<rparr>]\<rparr>"
    "i < length (hs_handlers s)" "hd_activity (hs_handlers s ! i) = Some a"
    "next_section x P a (hs_engine s) (hs_fs s) = (a', e, fs, ops)"
  with system_step.ran [of i "calls_of s" a "hd_start (hs_handlers s ! i)" x P a' e fs ops] show ?thesis
    by (intro reach_one) (simp add: calls_of_def map_update handler_call_def)
next
  fix i r
  assume t: "t = s\<lparr>hs_handlers := (hs_handlers s)[i := (hs_handlers s ! i)\<lparr>hd_returned := True\<rparr>],
       hs_history := hs_history s @ [Returned i r]\<rparr>" and i: "i < length (hs_handlers s)"
  have "calls_of t = calls_of s"
    unfolding t using i by (simp add: calls_of_def map_update list_update_same_conv)
  then show ?thesis by (simp add: reach_refl)
qed

interpretation calls: simulation "handle_step x P" "system_step x P" calls_of for x P
  by unfold_locales (rule handle_step_system)

definition order_ok :: "externals \<Rightarrow> filter_params \<Rightarrow> engine \<Rightarrow> fsys \<Rightarrow> handle_system \<Rightarrow> nat list \<Rightarrow> bool" where
  "order_ok x P e0 fs0 s order \<longleftrightarrow> distinct order \<and>
     set order = {i. i < length (hs_handlers s) \<and> handle_result (hd_activity (hs_handlers s ! i)) \<noteq> None} \<and>
     legal x P (hs_handlers s) order e0 fs0 (hs_engine s) (hs_fs s) \<and>
     order_writes (hs_handlers s) order = hs_log s \<and>
     in_order (hs_handlers s) (hs_history s) order"

lemma next_section_silent: "next_section x P a e fs = (a', e', fs', []) \<Longrightarrow> e' = e \<and> fs' = fs"
  by (cases a) (auto split: sum.splits prod.splits option.splits if_splits)

text \<open>The section in which a request gets its result: a write of its own, or an answer.\<close>

lemma section_finishes:
  assumes sec: "next_section x P a e fs = (a', e', fs', ops)" and q: "of_request q a"
    and ok: "activity_ok x P e0 fs0 log e fs start a"
    and w: "\<forall>op \<in> set ops. se_step x P op e fs = (Inr (), e', fs')"
    and res: "handle_result (Some a) = None" "handle_result (Some a') = Some r"
  shows "committed a' = ops \<and> Database_handle x P q e fs = (r, e', fs') \<and> se_run x P ops e fs = (Inr (), e', fs') \<or>
    (\<exists>answer. a' = Got (rq_key q) answer \<and> ops = [])"
  using assms
  by (cases a) (auto simp: Database_handle_cases se_put_sections Database_put_def Database_remove_def
      split: sum.splits prod.splits option.splits if_splits)

lemma answered_handle:
  assumes "answered x P e0 fs0 log start (rq_key q) answer" "of_request q (Got (rq_key q) answer)"
    "handle_result (Some (Got (rq_key q) answer)) = Some r"
  shows "\<exists>m e fs. start \<le> m \<and> m \<le> length log \<and> se_run x P (take m log) e0 fs0 = (Inr (), e, fs) \<and>
    Database_handle x P q e fs = (r, e, fs)"
  using assms unfolding answered_def by (fastforce simp: Database_handle_cases)

text \<open>A request that gets its result takes its place in the order.\<close>

lemma order_ok_insert:
  assumes ok: "order_ok x P e0 fs0 s (xs @ ys)" and i: "i < length ts" "handle_result (hd_activity (hs_handlers s ! i)) = None"
    and ts: "ts = hs_handlers s"
    and t: "t = s\<lparr>hs_engine := e, hs_fs := fs, hs_log := hs_log s @ ops, hs_handlers := ts[i := (ts ! i)\<lparr>hd_activity := Some a'\<rparr>]\<rparr>"
    and a': "handle_result (Some a') = Some r" "committed a' = ops"
    and e1: "legal x P ts xs e0 fs0 e1 fs1" "Database_handle x P (hd_request (ts ! i)) e1 fs1 = (r, e2, fs2)"
      "se_run x P ops e1 fs1 = (Inr (), e2, fs2)" "legal x P ts ys e2 fs2 e fs"
    and place: "ops = [] \<or> ys = []" "\<forall>j. precedes (hs_history s) j i \<longrightarrow> j \<in> set xs"
  shows "order_ok x P e0 fs0 t (xs @ i # ys)"
proof -
  let ?us = "ts[i := (ts ! i)\<lparr>hd_activity := Some a'\<rparr>]"
  have new: "i \<notin> set (xs @ ys)" using ok i ts by (auto simp: order_ok_def)
  have us: "hd_request (?us ! j) = hd_request (ts ! j)" "hd_start (?us ! j) = hd_start (ts ! j)" for j
    using i(1) by (cases "j = i"; simp)+
  have self: "handler_writes ?us i = ops" "handler_result ?us i = r"
    using i(1) a' by (simp_all add: handler_writes_def handler_result_def)
  have keep: "legal x P ?us zs d gs d' gs' = legal x P ts zs d gs d' gs'" "order_writes ?us zs = order_writes ts zs"
    if "i \<notin> set zs" for zs d gs d' gs'
    using that us(1) by (auto intro!: legal_update order_update handler_update)
  have "legal x P ?us (xs @ i # ys) e0 fs0 e fs"
    unfolding legal_append legal.simps self us(1) using e1 keep(1) [of xs] keep(1) [of ys] new by auto
  moreover have "order_writes ?us (xs @ i # ys) = order_writes ts xs @ ops @ order_writes ts ys"
    using new keep(2) [of xs] keep(2) [of ys] self(1) by simp
  then have "order_writes ?us (xs @ i # ys) = hs_log s @ ops"
    using ok place(1) ts by (auto simp: order_ok_def)
  moreover have "in_order ts (hs_history s) (xs @ ys)" using ok ts by (simp add: order_ok_def)
  then have "in_order ?us (hs_history s) (xs @ ys)"
  proof (rule in_order_update)
    show "\<forall>j \<in> set (xs @ ys). handler_writes ?us j = handler_writes ts j"
      using new by (intro ballI handler_update) blast
    show "\<forall>k j. precedes (hs_history s) j k \<longrightarrow> hd_start (?us ! k) = hd_start (ts ! k)"
      using us(2) by blast
  qed
  from in_order_insert [OF this new _ place(2)] have "in_order ?us (hs_history s) (xs @ i # ys)"
    using self(1) place(1) by blast
  moreover have "set (xs @ i # ys) = {j. j < length ?us \<and> handle_result (hd_activity (?us ! j)) \<noteq> None}"
    using ok i ts a'(1) by (auto simp: order_ok_def nth_list_update split: if_splits)
  moreover from ok have "distinct (xs @ ys)" by (simp only: order_ok_def)
  with new have "distinct (xs @ i # ys)" by simp
  ultimately show ?thesis
    unfolding order_ok_def t by simp
qed

text \<open>The order after a step.\<close>

lemma order_ok_called:
  assumes ok: "order_ok x P e0 fs0 s order" and h: "history_ok s"
    and t: "t = s\<lparr>hs_handlers := hs_handlers s @ [\<lparr>hd_request = q, hd_activity = handle_call q,
         hd_start = length (hs_log s), hd_returned = False\<rparr>],
       hs_history := hs_history s @ [Called (length (hs_handlers s)) q]\<rparr>"
  shows "\<exists>order. order_ok x P e0 fs0 t order"
proof -
  let ?ts = "hs_handlers s" and ?us = "hs_handlers t"
  let ?i = "length ?ts"
  from ok have ord: "distinct order" "set order = {i. i < ?i \<and> handle_result (hd_activity (?ts ! i)) \<noteq> None}"
    "legal x P ?ts order e0 fs0 (hs_engine s) (hs_fs s)" "order_writes ?ts order = hs_log s"
    "in_order ?ts (hs_history s) order" by (simp_all add: order_ok_def)
  then have new: "?i \<notin> set order" and old: "\<forall>j \<in> set order. j < ?i" by auto
  have us: "length ?us = Suc ?i" "hd_request (?us ! ?i) = q" "hd_activity (?us ! ?i) = handle_call q"
      "hd_start (?us ! ?i) = length (hs_log s)" and same: "j < ?i \<Longrightarrow> ?us ! j = ?ts ! j" for j
    unfolding t by (simp_all add: nth_append)
  have keep: "order_writes ?us order = hs_log s" "legal x P ?us order e0 fs0 (hs_engine s) (hs_fs s)"
    using old same ord(3,4) order_update [of order ?us ?ts] legal_update [of order ?us ?ts]
    by (simp_all add: handler_writes_def handler_result_def)
  have "\<forall>i j. precedes (hs_history s) j i \<longrightarrow> hd_start (?us ! i) = hd_start (?ts ! i)"
  proof (intro allI impI)
    fix i j
    assume "precedes (hs_history s) j i"
    with h have "i < ?i" by (auto simp: history_ok_def dest: precedes_in)
    with same show "hd_start (?us ! i) = hd_start (?ts ! i)" by simp
  qed
  with ord(5) old same have "in_order ?us (hs_history s) order"
    by (intro in_order_update [of ?ts "hs_history s" order ?us]) (auto simp: handler_writes_def)
  moreover have "\<forall>j r. Returned j r \<in> set (hs_history s) \<longrightarrow> j \<in> set order"
    using h by (auto simp: history_ok_def ord(2))
  ultimately have order: "in_order ?us (hs_history t) order"
    using in_order_called [of ?us "hs_history s" order ?i q] new keep(1) us(4) unfolding t by simp
  have finished: "{j. j < length ?us \<and> handle_result (hd_activity (?us ! j)) \<noteq> None} =
      (if handle_result (handle_call q) = None then set order else insert ?i (set order))"
    using same us(1,3) by (auto simp: ord(2) less_Suc_eq)
  show ?thesis
  proof (cases "handle_call q")
    case None
    then have q: "handler_writes ?us ?i = []" "handler_result ?us ?i = Inr (Response ResponseStatus_InvalidRequestType [])"
      "\<exists>b. rq_type q = RequestType_other b"
      using us(3) by (auto simp: handler_writes_def handler_result_def handle_call_def split: request_type.splits)
    have "\<forall>j. precedes (hs_history t) j ?i \<longrightarrow> j \<in> set order" using order by (simp add: in_order_def)
    with in_order_insert [of ?us "hs_history t" order "[]" ?i] order new q(1)
    have "in_order ?us (hs_history t) (order @ [?i])" by simp
    moreover have "legal x P ?us (order @ [?i]) e0 fs0 (hs_engine t) (hs_fs t)"
      using keep(2) q us(2) unfolding t by (auto simp: legal_append Database_handle_cases)
    ultimately have "order_ok x P e0 fs0 t (order @ [?i])"
      unfolding order_ok_def finished using ord(1) new keep(1) q(1) None by (simp add: t)
    then show ?thesis by blast
  next
    case (Some a)
    then have "handle_result (handle_call q) = None" by (auto simp: handle_call_def split: request_type.splits)
    with ord(1) keep order have "order_ok x P e0 fs0 t order"
      unfolding order_ok_def finished by (simp add: t)
    then show ?thesis by blast
  qed
qed

lemma order_ok_returned:
  assumes ok: "order_ok x P e0 fs0 s order" and i: "i < length (hs_handlers s)"
    and t: "t = s\<lparr>hs_handlers := (hs_handlers s)[i := (hs_handlers s ! i)\<lparr>hd_returned := True\<rparr>],
       hs_history := hs_history s @ [Returned i r]\<rparr>"
  shows "order_ok x P e0 fs0 t order"
proof -
  let ?ts = "hs_handlers s" and ?us = "hs_handlers t"
  have us: "hd_request (?us ! j) = hd_request (?ts ! j)" "hd_activity (?us ! j) = hd_activity (?ts ! j)"
    "hd_start (?us ! j) = hd_start (?ts ! j)" for j
    unfolding t using i by (cases "j = i"; simp)+
  have "handler_writes ?us = handler_writes ?ts" "handler_result ?us = handler_result ?ts"
    by (rule ext, simp add: handler_writes_def handler_result_def us)+
  then have "legal x P ?us order d gs d' gs' = legal x P ?ts order d gs d' gs'"
    "order_writes ?us order = order_writes ?ts order" "in_order ?us h order = in_order ?ts h order" for d gs d' gs' h
    using us legal_update [of order ?us ?ts] order_update [of order ?us ?ts]
    by (auto simp: in_order_def written_through_def order_writes_def)
  moreover have "in_order ?ts (hs_history t) order"
    unfolding t using ok by (simp add: order_ok_def in_order_returned)
  ultimately show ?thesis using ok us(2) unfolding order_ok_def by (simp add: t)
qed

text \<open>A section that leaves a request unfinished.\<close>

lemma order_ok_unfinished:
  assumes ok: "order_ok x P e0 fs0 s order" and i: "i < length (hs_handlers s)"
    and unfinished: "handle_result (hd_activity (hs_handlers s ! i)) = None" "handle_result (Some a') = None"
    and t: "t = s\<lparr>hs_handlers := (hs_handlers s)[i := (hs_handlers s ! i)\<lparr>hd_activity := Some a'\<rparr>]\<rparr>"
  shows "order_ok x P e0 fs0 t order"
proof -
  let ?ts = "hs_handlers s" and ?us = "hs_handlers t"
  from ok have ord: "distinct order" "set order = {i. i < length ?ts \<and> handle_result (hd_activity (?ts ! i)) \<noteq> None}"
    "legal x P ?ts order e0 fs0 (hs_engine s) (hs_fs s)" "order_writes ?ts order = hs_log s"
    "in_order ?ts (hs_history s) order" by (simp_all add: order_ok_def)
  then have new: "i \<notin> set order" using unfinished(1) by auto
  have us: "hd_request (?us ! j) = hd_request (?ts ! j)" "hd_start (?us ! j) = hd_start (?ts ! j)"
    "handle_result (hd_activity (?us ! j)) = handle_result (hd_activity (?ts ! j))" for j
    unfolding t using i unfinished by (cases "j = i"; simp)+
  have same: "\<forall>j \<in> set order. handler_writes ?us j = handler_writes ?ts j \<and> handler_result ?us j = handler_result ?ts j \<and>
      hd_request (?us ! j) = hd_request (?ts ! j)"
    using new us(1) unfolding t by (auto intro!: handler_update)
  have "in_order ?us (hs_history s) order"
    using in_order_update [OF ord(5), of ?us] same us(2) by blast
  moreover have "length ?us = length ?ts" by (simp add: t)
  ultimately show ?thesis
    unfolding order_ok_def using legal_update [OF same] order_update [of order ?us ?ts] same ord(1-4) us(3)
    by (simp add: t)
qed

text \<open>A get takes its place among the writes: after as many as it has seen.\<close>

lemma order_ok_answer:
  assumes ok: "order_ok x P e0 fs0 s order" and i: "i < length (hs_handlers s)" "handle_result (hd_activity (hs_handlers s ! i)) = None"
    and t: "t = s\<lparr>hs_handlers := (hs_handlers s)[i := (hs_handlers s ! i)\<lparr>hd_activity := Some (Got k answer)\<rparr>]\<rparr>"
    and r: "handle_result (Some (Got k answer)) = Some r"
    and m: "hd_start (hs_handlers s ! i) \<le> m" "m \<le> length (hs_log s)"
      "se_run x P (take m (hs_log s)) e0 fs0 = (Inr (), e1, fs1)"
      "Database_handle x P (hd_request (hs_handlers s ! i)) e1 fs1 = (r, e1, fs1)"
  shows "\<exists>order. order_ok x P e0 fs0 t order"
proof -
  let ?ts = "hs_handlers s"
  from ok have ord: "legal x P ?ts order e0 fs0 (hs_engine s) (hs_fs s)" "order_writes ?ts order = hs_log s"
    "in_order ?ts (hs_history s) order" by (simp_all add: order_ok_def)
  from order_split [of m ?ts order] m(2) ord(2) obtain xs ys where split: "order = xs @ ys"
    "length (order_writes ?ts xs) = m" "ys \<noteq> [] \<longrightarrow> handler_writes ?ts (hd ys) \<noteq> []" by auto
  from ord(2) split(1) have "hs_log s = order_writes ?ts xs @ order_writes ?ts ys" by simp
  with split(2) have xs: "order_writes ?ts xs = take m (hs_log s)" by simp
  from ord(1) split(1) obtain e2 fs2 where "legal x P ?ts xs e0 fs0 e2 fs2"
    "legal x P ?ts ys e2 fs2 (hs_engine s) (hs_fs s)" by (auto simp: legal_append)
  moreover with legal_se_run [of x P ?ts xs] xs m(3) have "e2 = e1" "fs2 = fs1" by auto
  ultimately have seq: "legal x P ?ts xs e0 fs0 e1 fs1" "legal x P ?ts ys e1 fs1 (hs_engine s) (hs_fs s)" by simp_all
  have "j \<in> set xs" if "precedes (hs_history s) j i" for j
  proof -
    from ord(3) that have "j \<in> set order" "written_through ?ts order j \<le> hd_start (?ts ! i)"
      by (auto simp: in_order_def)
    then show ?thesis using written_through_early [of j xs ys ?ts] split m(1) by auto
  qed
  then have place: "\<forall>j. precedes (hs_history s) j i \<longrightarrow> j \<in> set xs" by blast
  have "t = s\<lparr>hs_engine := hs_engine s, hs_fs := hs_fs s, hs_log := hs_log s @ [],
      hs_handlers := ?ts[i := (?ts ! i)\<lparr>hd_activity := Some (Got k answer)\<rparr>]\<rparr>" by (simp add: t)
  from order_ok_insert [OF ok [unfolded split(1)] i refl this r _ seq(1) m(4) _ seq(2) _ place]
  have "order_ok x P e0 fs0 t (xs @ i # ys)" by simp
  then show ?thesis by blast
qed

text \<open>A section of a thread, with what the invariant of the engine says of the database.\<close>

lemma order_ok_section:
  assumes ok: "order_ok x P e0 fs0 s order" and h: "history_ok s"
    and i: "i < length (hs_handlers s)" "hd_activity (hs_handlers s ! i) = Some a"
    and sec: "next_section x P a (hs_engine s) (hs_fs s) = (a', e, fs, ops)"
    and t: "t = s\<lparr>hs_engine := e, hs_fs := fs, hs_log := hs_log s @ ops,
         hs_handlers := (hs_handlers s)[i := (hs_handlers s ! i)\<lparr>hd_activity := Some a'\<rparr>]\<rparr>"
    and act: "activity_ok x P e0 fs0 (hs_log s) (hs_engine s) (hs_fs s) (hd_start (hs_handlers s ! i)) a"
      "activity_ok x P e0 fs0 (hs_log t) e fs (hd_start (hs_handlers s ! i)) a'"
    and w: "\<forall>op \<in> set ops. se_step x P op (hs_engine s) (hs_fs s) = (Inr (), e, fs)"
  shows "\<exists>order. order_ok x P e0 fs0 t order"
proof -
  let ?ts = "hs_handlers s"
  let ?q = "hd_request (?ts ! i)" and ?start = "hd_start (?ts ! i)"
  have q: "of_request ?q a" using h i by (auto simp: history_ok_def serves_def split: option.splits)
  have quiet: "e = hs_engine s" "fs = hs_fs s" if "ops = []"
    using next_section_silent [OF sec [unfolded that]] by simp_all
  consider (idle) r where "handle_result (Some a) = Some r"
    | (going) "handle_result (Some a) = None" "handle_result (Some a') = None"
    | (ended) r where "handle_result (Some a) = None" "handle_result (Some a') = Some r"
    by (cases "handle_result (Some a)"; cases "handle_result (Some a')") auto
  then show ?thesis
  proof cases
    case (idle r)
    from handle_result_kept [OF this sec] have "a' = a" "e = hs_engine s" "fs = hs_fs s" "ops = []" by simp_all
    moreover have "?ts[i := (?ts ! i)\<lparr>hd_activity := Some a\<rparr>] = ?ts"
      using i by (intro list_update_same_conv [THEN iffD2]) simp_all
    ultimately have "t = s" unfolding t by simp
    with ok show ?thesis by blast
  next
    case going
    then have "ops = []" using sec by (cases a) (auto split: sum.splits prod.splits option.splits if_splits)
    with quiet t order_ok_unfinished [OF ok i(1) _ going(2)] going(1) i(2) show ?thesis by auto
  next
    case (ended r)
    with i(2) have old: "handle_result (hd_activity (?ts ! i)) = None" by simp
    from section_finishes [OF sec q act(1) w ended] consider
      "committed a' = ops" "Database_handle x P ?q (hs_engine s) (hs_fs s) = (r, e, fs)"
        "se_run x P ops (hs_engine s) (hs_fs s) = (Inr (), e, fs)" |
      answer where "a' = Got (rq_key ?q) answer" "ops = []" by blast
    then show ?thesis
    proof cases
      case 1
      have "\<forall>j. precedes (hs_history s) j i \<longrightarrow> j \<in> set order" "legal x P ?ts order e0 fs0 (hs_engine s) (hs_fs s)"
        using ok by (auto simp: order_ok_def in_order_def)
      with order_ok_insert [of x P e0 fs0 s order "[]", OF _ i(1) old refl t ended(2)] ok 1 show ?thesis by fastforce
    next
      case 2
      have "answered x P e0 fs0 (hs_log s) ?start (rq_key ?q) answer" "of_request ?q (Got (rq_key ?q) answer)"
        using act(2) 2 t next_section_request [OF sec q] by simp_all
      from answered_handle [OF this ended(2) [unfolded 2(1)]] obtain m e1 fs1 where "?start \<le> m" "m \<le> length (hs_log s)"
        "se_run x P (take m (hs_log s)) e0 fs0 = (Inr (), e1, fs1)" "Database_handle x P ?q e1 fs1 = (r, e1, fs1)" by blast
      from order_ok_answer [OF ok i(1) old _ ended(2) [unfolded 2(1)] this, of t] show ?thesis
        using t quiet 2 by simp
    qed
  qed
qed

definition handle_inv ::
    "externals \<Rightarrow> filter_params \<Rightarrow> compressor \<Rightarrow> nat \<Rightarrow> nat \<Rightarrow> engine \<Rightarrow> fsys \<Rightarrow> handle_system \<Rightarrow> bool" where
  "handle_inv x P c n b e0 fs0 s \<longleftrightarrow> concurrent_inv x P c n b e0 fs0 (calls_of s) \<and> history_ok s \<and>
     (within x c n b (hs_log s) \<longrightarrow> (\<exists>order. order_ok x P e0 fs0 s order))"

lemma calls_of_inv:
  assumes "concurrent_inv x P c n b e0 fs0 (calls_of s)" "within x c n b (hs_log s)"
  shows "se_run x P (hs_log s) e0 fs0 = (Inr (), hs_engine s, hs_fs s)"
    "i < length (hs_handlers s) \<Longrightarrow> hd_activity (hs_handlers s ! i) = Some a \<Longrightarrow>
     activity_ok x P e0 fs0 (hs_log s) (hs_engine s) (hs_fs s) (hd_start (hs_handlers s ! i)) a"
proof -
  from assms have inv: "se_run x P (hs_log s) e0 fs0 = (Inr (), hs_engine s, hs_fs s)"
    "\<forall>(a, start) \<in> set (map handler_call (hs_handlers s)).
       activity_ok x P e0 fs0 (hs_log s) (hs_engine s) (hs_fs s) start a"
    by (auto simp: concurrent_inv_def system_inv_def calls_of_def)
  show "se_run x P (hs_log s) e0 fs0 = (Inr (), hs_engine s, hs_fs s)" by (rule inv(1))
  assume i: "i < length (hs_handlers s)" "hd_activity (hs_handlers s ! i) = Some a"
  then have "(a, hd_start (hs_handlers s ! i)) \<in> set (map handler_call (hs_handlers s))"
    by (auto simp: handler_call_def intro!: image_eqI [of _ _ "hs_handlers s ! i"])
  with inv(2) show "activity_ok x P e0 fs0 (hs_log s) (hs_engine s) (hs_fs s) (hd_start (hs_handlers s ! i)) a"
    by blast
qed

text \<open>A section commits at most one write.\<close>

lemma next_section_one: "next_section x P a e fs = (a', e', fs', ops) \<Longrightarrow> ops = [] \<or> (\<exists>op. ops = [op])"
  by (cases a) (auto split: sum.splits prod.splits option.splits if_splits)

lemma handle_inv_step:
  assumes inv: "handle_inv x P c n b e0 fs0 s" and step: "handle_step x P s t"
  shows "handle_inv x P c n b e0 fs0 t"
proof -
  from inv have sys: "concurrent_inv x P c n b e0 fs0 (calls_of s)" and h: "history_ok s"
    by (simp_all add: handle_inv_def)
  from concurrent.inv_reach [OF calls.step_simulated [OF step] sys]
  have sys': "concurrent_inv x P c n b e0 fs0 (calls_of t)" .
  have "\<exists>order. order_ok x P e0 fs0 t order" if log: "within x c n b (hs_log t)"
    using step
  proof (rule handle_stepE)
    fix q
    assume t: "t = s\<lparr>hs_handlers := hs_handlers s @ [\<lparr>hd_request = q, hd_activity = handle_call q,
         hd_start = length (hs_log s), hd_returned = False\<rparr>],
       hs_history := hs_history s @ [Called (length (hs_handlers s)) q]\<rparr>"
    with inv log order_ok_called [OF _ h t] show ?thesis by (auto simp: handle_inv_def)
  next
    fix i a a' e fs ops
    assume t: "t = s\<lparr>hs_engine := e, hs_fs := fs, hs_log := hs_log s @ ops,
         hs_handlers := (hs_handlers s)[i := (hs_handlers s ! i)\<lparr>hd_activity := Some a'\<rparr>]\<rparr>"
      and i: "i < length (hs_handlers s)" "hd_activity (hs_handlers s ! i) = Some a"
      and sec: "next_section x P a (hs_engine s) (hs_fs s) = (a', e, fs, ops)"
    from log have log0: "within x c n b (hs_log s)" unfolding t by (simp add: within_append)
    with inv obtain order where ok: "order_ok x P e0 fs0 s order" by (auto simp: handle_inv_def)
    have "hd_activity (hs_handlers t ! i) = Some a'" "i < length (hs_handlers t)" using i by (simp_all add: t)
    from calls_of_inv(2) [OF sys' log this(2,1)] have act:
      "activity_ok x P e0 fs0 (hs_log t) e fs (hd_start (hs_handlers s ! i)) a'" using i by (simp add: t)
    have "\<forall>op \<in> set ops. se_step x P op (hs_engine s) (hs_fs s) = (Inr (), e, fs)"
      using next_section_one [OF sec] calls_of_inv(1) [OF sys log0] calls_of_inv(1) [OF sys' log]
      by (auto simp: t se_run_snoc split: sum.splits)
    from order_ok_section [OF ok h i sec t calls_of_inv(2) [OF sys log0 i] act this] show ?thesis .
  next
    fix i r
    assume "t = s\<lparr>hs_handlers := (hs_handlers s)[i := (hs_handlers s ! i)\<lparr>hd_returned := True\<rparr>],
       hs_history := hs_history s @ [Returned i r]\<rparr>" "i < length (hs_handlers s)"
    with inv log order_ok_returned show ?thesis by (fastforce simp: handle_inv_def)
  qed
  with sys' history_ok_step [OF h step] show ?thesis by (simp add: handle_inv_def)
qed

interpretation handling: invariant_system "handle_step x P" "handle_inv x P c n b e0 fs0"
  for x P c n b e0 fs0
  by unfold_locales (rule handle_inv_step)

lemma order_ok_linearizable:
  assumes ok: "order_ok x P e0 fs0 s order" and h: "history_ok s"
  shows "linearizable x P (hs_history s) e0 fs0 (hs_engine s) (hs_fs s)"
proof -
  let ?ts = "hs_handlers s"
  let ?order = "map (\<lambda>i. (i, hd_request (?ts ! i), handler_result ?ts i)) order"
  from ok have ord: "distinct order" "set order = {i. i < length ?ts \<and> handle_result (hd_activity (?ts ! i)) \<noteq> None}"
    "legal x P ?ts order e0 fs0 (hs_engine s) (hs_fs s)" "in_order ?ts (hs_history s) order"
    by (simp_all add: order_ok_def)
  have fst: "map fst ?order = order" by (simp add: comp_def)
  moreover have "handle_run x P (map (\<lambda>(i, q, r). q) ?order) e0 fs0 =
      (map (\<lambda>(i, q, r). r) ?order, hs_engine s, hs_fs s)"
    using legal_handle_run [OF ord(3)] by (simp add: comp_def)
  moreover have "\<forall>(i, q, r) \<in> set ?order. Called i q \<in> set (hs_history s)"
    using h ord(2) by (auto simp: history_ok_def)
  moreover have "\<exists>q. (i, q, Inr r) \<in> set ?order" if "Returned i r \<in> set (hs_history s)" for i r
  proof -
    from h that have "i < length ?ts" "handle_result (hd_activity (?ts ! i)) = Some (Inr r)"
      by (auto simp: history_ok_def)
    then have "i \<in> set order" "handler_result ?ts i = Inr r" by (simp_all add: ord(2) handler_result_def)
    then show ?thesis by force
  qed
  moreover have "fst ` set ?order = set order" by (metis fst set_map)
  ultimately show ?thesis
    using ord(1,4) unfolding linearizable_def in_order_def by (intro exI [of _ ?order]) simp
qed

text \<open>What is reached from a database that has just been opened.\<close>

lemma handle_reach_linearizable:
  assumes "concurrent_inv x P c n b e0 fs0 (new_system e0 fs0)"
    "reach (handle_step x P) (new_handle_system e0 fs0) s" "within x c n b (hs_log s)"
  shows "linearizable x P (hs_history s) e0 fs0 (hs_engine s) (hs_fs s)"
    "se_run x P (hs_log s) e0 fs0 = (Inr (), hs_engine s, hs_fs s)"
proof -
  have "calls_of (new_handle_system e0 fs0) = new_system e0 fs0"
    by (simp add: calls_of_def new_handle_system_def new_system_def)
  with assms(1) have "handle_inv x P c n b e0 fs0 (new_handle_system e0 fs0)"
    by (auto simp: handle_inv_def history_ok_def order_ok_def in_order_def precedes_def new_handle_system_def
        intro!: exI [of _ "[]"])
  from handling.inv_reach [OF assms(2) this] have inv: "handle_inv x P c n b e0 fs0 s" .
  with assms(3) show "linearizable x P (hs_history s) e0 fs0 (hs_engine s) (hs_fs s)"
    using order_ok_linearizable by (auto simp: handle_inv_def)
  from inv assms(3) show "se_run x P (hs_log s) e0 fs0 = (Inr (), hs_engine s, hs_fs s)"
    by (auto simp: handle_inv_def dest: calls_of_inv(1))
qed

section \<open>Schedules\<close>

text \<open>The steps as a function: what the next step is, and to which thread it belongs.\<close>

datatype action = Call request | Run nat | Return nat

fun handle_exec :: "externals \<Rightarrow> filter_params \<Rightarrow> action \<Rightarrow> handle_system \<Rightarrow> handle_system option" where
  "handle_exec x P (Call q) s = Some (s\<lparr>
     hs_handlers := hs_handlers s @ [\<lparr>hd_request = q, hd_activity = handle_call q,
       hd_start = length (hs_log s), hd_returned = False\<rparr>],
     hs_history := hs_history s @ [Called (length (hs_handlers s)) q]\<rparr>)"
| "handle_exec x P (Run i) s =
     (if i < length (hs_handlers s) then
        (case hd_activity (hs_handlers s ! i) of
           None \<Rightarrow> None
         | Some a \<Rightarrow>
             (case next_section x P a (hs_engine s) (hs_fs s) of
                (a', e, fs, ops) \<Rightarrow> Some (s\<lparr>hs_engine := e, hs_fs := fs, hs_log := hs_log s @ ops,
                  hs_handlers := (hs_handlers s)[i := (hs_handlers s ! i)\<lparr>hd_activity := Some a'\<rparr>]\<rparr>)))
      else None)"
| "handle_exec x P (Return i) s =
     (if i < length (hs_handlers s) \<and> \<not> hd_returned (hs_handlers s ! i) then
        (case handle_result (hd_activity (hs_handlers s ! i)) of
           Some (Inr r) \<Rightarrow> Some (s\<lparr>
             hs_handlers := (hs_handlers s)[i := (hs_handlers s ! i)\<lparr>hd_returned := True\<rparr>],
             hs_history := hs_history s @ [Returned i r]\<rparr>)
         | _ \<Rightarrow> None)
      else None)"

lemma handle_exec_step: "handle_exec x P act s = Some t \<Longrightarrow> handle_step x P s t"
  by (cases act) (auto split: if_splits option.splits sum.splits prod.splits intro: handle_step.intros)

lemma handle_step_exec: "handle_step x P s t \<Longrightarrow> \<exists>act. handle_exec x P act s = Some t"
proof (erule handle_stepE)
  fix q
  assume "t = s\<lparr>hs_handlers := hs_handlers s @ [\<lparr>hd_request = q, hd_activity = handle_call q,
         hd_start = length (hs_log s), hd_returned = False\<rparr>],
       hs_history := hs_history s @ [Called (length (hs_handlers s)) q]\<rparr>"
  then show ?thesis by (intro exI [of _ "Call q"]) simp
next
  fix i a a' e fs ops
  assume "t = s\<lparr>hs_engine := e, hs_fs := fs, hs_log := hs_log s @ ops,
       hs_handlers := (hs_handlers s)[i := (hs_handlers s ! i)\<lparr>hd_activity := Some a'\<rparr>]\<rparr>"
    "i < length (hs_handlers s)" "hd_activity (hs_handlers s ! i) = Some a"
    "next_section x P a (hs_engine s) (hs_fs s) = (a', e, fs, ops)"
  then show ?thesis by (intro exI [of _ "Run i"]) simp
next
  fix i r
  assume "t = s\<lparr>hs_handlers := (hs_handlers s)[i := (hs_handlers s ! i)\<lparr>hd_returned := True\<rparr>],
       hs_history := hs_history s @ [Returned i r]\<rparr>" "i < length (hs_handlers s)"
    "\<not> hd_returned (hs_handlers s ! i)" "handle_result (hd_activity (hs_handlers s ! i)) = Some (Inr r)"
  then show ?thesis by (intro exI [of _ "Return i"]) simp
qed

fun handle_schedule :: "externals \<Rightarrow> filter_params \<Rightarrow> action list \<Rightarrow> handle_system \<Rightarrow> handle_system option" where
  "handle_schedule x P [] s = Some s"
| "handle_schedule x P (act # acts) s =
     (case handle_exec x P act s of None \<Rightarrow> None | Some t \<Rightarrow> handle_schedule x P acts t)"

lemma handle_schedule_reach: "handle_schedule x P acts s = Some t \<Longrightarrow> reach (handle_step x P) s t"
  by (induction acts arbitrary: s) (auto split: option.splits intro: reach_refl reach_first dest: handle_exec_step)

section \<open>Property\<close>

text \<open>
  C3: The database is linearizable. Whatever requests the threads pass to \<open>handle\<close> on a freshly
  opened database, as long as the writes meet \<open>op_ok\<close> (no key \<open>2\<^sup>6\<^sup>4 - 1\<close>, values in the domain of
  the codec) and the 32-bit bounds, and however the sections of the requests are interleaved,
  although a get takes the lock twice and reads the filter and the segments without it: there is one sequence of the
  requests that have returned, and of some that are still under way, in which a request comes
  before every one that was called after it had returned, and which, handled request by request,
  gives every request the response it was given and brings the database where it is.
\<close>

theorem database_is_linearizable:
  assumes "empty_directory fs dir" "createHasher (opt_hashType opts) = Some h"
    "0 < p_filterSize P" "p_filterSize P < 2 ^ 64" "c = createCompressor (opt_compressionType opts)"
    "Database_open x P dir opts (new_engine P) fs = (Inr (), e0, fs0)"
    "reach (handle_step x P) (new_handle_system e0 fs0) s"
    "\<forall>op \<in> set (hs_log s). op_ok x c op" "length (hs_log s) < 2 ^ 32"
    "sum_list (map (op_bytes x c) (hs_log s)) < 2 ^ 32"
  shows "linearizable x P (hs_history s) e0 fs0 (hs_engine s) (hs_fs s)"
proof -
  let ?n = "length (hs_log s)" and ?b = "sum_list (map (op_bytes x c) (hs_log s))"
  have "within x c ?n ?b (hs_log s)" using assms(8) by (simp add: within_def)
  with handle_reach_linearizable(1) [OF concurrent_inv_open [OF assms(1-6,9,10)] assms(7)] show ?thesis .
qed

text \<open>A get that misses its key in memory, and finds it in the segment that a put makes meanwhile.\<close>

definition small_schedule :: "action list" where
  "small_schedule = [Call (Request RequestType_Get (Key 1) []), Run 0, Call (Request RequestType_Put (Key 1) [7]),
     Run 1, Run 1, Return 1, Run 0, Run 0, Run 0, Run 0, Return 0]"

theorem database_is_linearizable_witness:
  "\<exists>e0 fs0 e fs. linearizable plain_externals small_params
    [Called 0 (Request RequestType_Get (Key 1) []), Called 1 (Request RequestType_Put (Key 1) [7]),
     Returned 1 (Response ResponseStatus_Ok []), Returned 0 (Response ResponseStatus_Ok [7])] e0 fs0 e fs"
proof -
  let ?open = "Database_open plain_externals small_params [''db''] small_options (new_engine small_params) small_fs"
  have run: "case ?open of (r, e0, fs0) \<Rightarrow> r = Inr () \<and>
      (case handle_schedule plain_externals small_params small_schedule (new_handle_system e0 fs0) of
         None \<Rightarrow> False
       | Some s \<Rightarrow> hs_log s = [Op_put (Key 1) [7]] \<and>
           hs_history s = [Called 0 (Request RequestType_Get (Key 1) []), Called 1 (Request RequestType_Put (Key 1) [7]),
             Returned 1 (Response ResponseStatus_Ok []), Returned 0 (Response ResponseStatus_Ok [7])])" by code_simp
  obtain r e0 fs0 where o: "?open = (r, e0, fs0)" by (cases ?open)
  with run obtain s where s: "r = Inr ()"
    "handle_schedule plain_externals small_params small_schedule (new_handle_system e0 fs0) = Some s"
    "hs_log s = [Op_put (Key 1) [7]]"
    "hs_history s = [Called 0 (Request RequestType_Get (Key 1) []), Called 1 (Request RequestType_Put (Key 1) [7]),
       Returned 1 (Response ResponseStatus_Ok []), Returned 0 (Response ResponseStatus_Ok [7])]"
    by (auto split: option.splits)
  have "createHasher (opt_hashType small_options) = Some CityHash128Adapter"
    "0 < p_filterSize small_params" "p_filterSize small_params < 2 ^ 64"
    by (simp_all add: small_options_def small_params_def)
  from database_is_linearizable [OF small_fs_empty this refl o [unfolded s(1)] handle_schedule_reach [OF s(2)]] s(3,4)
  show ?thesis by (auto simp: op_ok_def op_bytes_def npos_def no_compress_def small_options_def)
qed

end
