(* ===== verification/ThreadedServer.thy ===== *)
theory ThreadedServer
  imports HandleConcurrent NetworkProperties
begin

text \<open>
  The server on several threads (src/Networking/ServerBase.cpp, ServerSession.cpp). All threads
  run the same \<open>io_service\<close>, so the callbacks of different sessions run at the same time. What they
  share is the database: \<open>onRequestReceived\<close>, which passes a request to it, is split here at the call
  of \<open>handle\<close>, whose sections are those of \<open>HandleConcurrent\<close>. The other callbacks touch only their
  own session, which has one operation under way at most, and remain one step.
\<close>

section \<open>A request received\<close>

text \<open>\<open>onRequestReceived\<close> before and after the call of \<open>handle\<close>.\<close>

definition ServerSession_takeRequest :: "server_session \<Rightarrow> request result \<times> server_session" where
  "ServerSession_takeRequest ss =
     (request_deserialize (ss_requestBuffer ss) default_request, ss\<lparr>ss_requestBuffer := []\<rparr>)"

definition ServerSession_respond :: "response \<Rightarrow> server_session \<Rightarrow> server_session" where
  "ServerSession_respond response ss = ss\<lparr>ss_pending := Some (Write_response (response_serialize response))\<rparr>"

lemma onRequestReceived_split:
  "ServerSession_onRequestReceived x P None n ss e fs =
     (case ServerSession_takeRequest ss of
        (Inl err, ss') \<Rightarrow> (Inl err, e, fs)
      | (Inr q, ss') \<Rightarrow>
          (case Database_handle x P q e fs of
             (r, e', fs') \<Rightarrow> (rmap (\<lambda>response. ServerSession_respond response ss') r, e', fs')))"
  by (auto simp: ServerSession_onRequestReceived_def ServerSession_processRequest_def ServerSession_takeRequest_def
      ServerSession_respond_def Let_def split: sum.splits prod.splits)

section \<open>The server\<close>

text \<open>
  The server, the requests under way in its database, and the session that each of them belongs to.
\<close>

type_synonym threaded_server = "server \<times> handle_system \<times> nat list"

definition with_database :: "handle_system \<Rightarrow> server \<Rightarrow> server" where
  "with_database hs sv = sv\<lparr>sv_engine := hs_engine hs, sv_fs := hs_fs hs\<rparr>"

inductive threaded_step ::
    "externals \<Rightarrow> filter_params \<Rightarrow> (bytes \<Rightarrow> nat \<Rightarrow> bool) \<Rightarrow> (string \<Rightarrow> bool) \<Rightarrow>
     threaded_server \<Rightarrow> threaded_server \<Rightarrow> bool"
  for x P accepts faults where
  threaded_network:
    "server_step x P accepts faults (sv, []) (sv', []) \<Longrightarrow>
     threaded_step x P accepts faults (sv, hs, owners) (sv', hs, owners)"
| threaded_request:
    "i < length (sv_conns sv) \<Longrightarrow> c = sv_conns sv ! i \<Longrightarrow>
     ss_pending (cn_session c) = Some (Read_request n) \<Longrightarrow> n \<le> length (cn_in c) \<Longrightarrow>
     ServerSession_takeRequest (received (take n (cn_in c)) (cn_session c)) = (Inr q, ss) \<Longrightarrow>
     handle_exec x P (Call q) hs = Some hs' \<Longrightarrow>
     threaded_step x P accepts faults (sv, hs, owners)
       (sv\<lparr>sv_conns := (sv_conns sv)[i := put_session n [] c ss]\<rparr>, hs', owners @ [i])"
| threaded_section:
    "handle_exec x P (Run j) hs = Some hs' \<Longrightarrow>
     threaded_step x P accepts faults (sv, hs, owners) (with_database hs' sv, hs', owners)"
| threaded_response:
    "handle_exec x P (Return j) hs = Some hs' \<Longrightarrow> hs_history hs' = hs_history hs @ [Returned j r] \<Longrightarrow>
     i = owners ! j \<Longrightarrow> c = sv_conns sv ! i \<Longrightarrow>
     threaded_step x P accepts faults (sv, hs, owners)
       (sv\<lparr>sv_conns := (sv_conns sv)[i := put_session 0 [] c (ServerSession_respond r (cn_session c))]\<rparr>, hs', owners)"

interpretation threads: simulation "threaded_step x P accepts faults" "handle_step x P" "\<lambda>(sv, hs, owners). hs"
  for x P accepts faults
proof
  show "reach (handle_step x P) (case s of (sv, hs, owners) \<Rightarrow> hs) (case t of (sv, hs, owners) \<Rightarrow> hs)"
    if "threaded_step x P accepts faults s t" for s t
    using that by cases (auto intro: reach_refl reach_one dest!: handle_exec_step simp del: handle_exec.simps)
qed

section \<open>Every session writes the response to its request\<close>

text \<open>
  A session without a request behaves as in \<open>DatabaseServer\<close>; while its request is under way it
  waits for nothing and has written nothing; then its response is what it writes.
\<close>

definition threaded_conn :: "(bytes \<Rightarrow> nat \<Rightarrow> bool) \<Rightarrow> (string \<Rightarrow> bool) \<Rightarrow> handle_system \<Rightarrow> nat list \<Rightarrow> nat \<Rightarrow> connection \<Rightarrow> bool" where
  "threaded_conn accepts faults hs owners i c \<longleftrightarrow> session_ok c \<and>
     (i \<notin> set owners \<longrightarrow> conn_rel accepts faults [] c) \<and>
     (\<forall>j < length owners. owners ! j = i \<longrightarrow>
        (if hd_returned (hs_handlers hs ! j)
         then \<exists>r. Returned j r \<in> set (hs_history hs) \<and> conn_rel accepts faults [(i, hd_request (hs_handlers hs ! j), r)] c
         else ss_pending (cn_session c) = None \<and> cn_out c = []))"

definition threaded_inv :: "(bytes \<Rightarrow> nat \<Rightarrow> bool) \<Rightarrow> (string \<Rightarrow> bool) \<Rightarrow> threaded_server \<Rightarrow> bool" where
  "threaded_inv accepts faults = (\<lambda>(sv, hs, owners).
     sv_engine sv = hs_engine hs \<and> sv_fs sv = hs_fs hs \<and> length owners = length (hs_handlers hs) \<and>
     distinct owners \<and> (\<forall>i \<in> set owners. i < length (sv_conns sv)) \<and>
     (\<forall>i < length (sv_conns sv). threaded_conn accepts faults hs owners i (sv_conns sv ! i)))"

text \<open>A callback of a session that does not concern the database.\<close>

lemma threaded_conn_silent:
  assumes conn: "threaded_conn accepts faults hs owners i c"
    and step: "session_step x P accepts faults (c, e, fs) None (Inr c', e', fs')"
  shows "threaded_conn accepts faults hs owners i c'"
proof -
  have ok: "session_ok c" and busy: "ss_pending (cn_session c) \<noteq> None"
    using conn step by (auto simp: threaded_conn_def elim: session_silentE)
  from session_step_silent [OF ok step] have "session_ok c'" by simp
  with conn busy conn_rel_silent [OF ok _ step] show ?thesis
    by (fastforce simp: threaded_conn_def)
qed

lemma threaded_conn_arrived: "threaded_conn accepts faults hs owners i c \<Longrightarrow> threaded_conn accepts faults hs owners i (c\<lparr>cn_in := bs\<rparr>)"
  by (simp add: threaded_conn_def)

lemma threaded_inv_network:
  assumes inv: "threaded_inv accepts faults (sv, hs, owners)" and step: "server_step x P accepts faults (sv, []) (sv', [])"
  shows "threaded_inv accepts faults (sv', hs, owners)"
  using step
proof (rule server_stepE)
  fix sv1 n c a h
  assume "(sv, []) = (sv1, h)" "(sv', []) = (sv1\<lparr>sv_acceptor := a, sv_conns := sv_conns sv1 @ [c]\<rparr>, h)"
    "(Some c, a) = Acceptor_onAccept None ((sv_acceptor sv1)\<lparr>ac_pending := n\<rparr>)"
  moreover from this(3) have "c = new_connection" by (auto simp: Acceptor_onAccept_def split: if_splits)
  moreover have "length (sv_conns sv) \<notin> set owners" using inv by (auto simp: threaded_inv_def)
  moreover from this have "threaded_conn accepts faults hs owners (length (sv_conns sv)) new_connection"
    by (auto simp: threaded_conn_def in_set_conv_nth)
  ultimately show ?thesis using inv by (auto simp: threaded_inv_def nth_append less_Suc_eq)
next
  fix sv1 n message a h
  assume "(sv, []) = (sv1, h)" "(sv', []) = (sv1\<lparr>sv_acceptor := a\<rparr>, h)"
  then show ?thesis using inv by (simp add: threaded_inv_def)
next
  fix i bs h and sv1 :: server
  assume "(sv, []) = (sv1, h)" "i < length (sv_conns sv1)"
    "(sv', []) = (sv1\<lparr>sv_conns := (sv_conns sv1)[i := (sv_conns sv1 ! i)\<lparr>cn_in := cn_in (sv_conns sv1 ! i) @ bs\<rparr>]\<rparr>, h)"
  then show ?thesis using inv by (auto simp: threaded_inv_def nth_list_update intro: threaded_conn_arrived)
next
  fix i sv1 c e fs h
  assume a: "(sv, []) = (sv1, h)" "(sv', []) = (sv1\<lparr>sv_conns := (sv_conns sv1)[i := c], sv_engine := e, sv_fs := fs\<rparr>, h)"
    "i < length (sv_conns sv1)"
    "session_step x P accepts faults (sv_conns sv1 ! i, sv_engine sv1, sv_fs sv1) None (Inr c, e, fs)"
  then have conn: "threaded_conn accepts faults hs owners i (sv_conns sv ! i)" using inv by (simp add: threaded_inv_def)
  then have "session_ok (sv_conns sv ! i)" by (simp add: threaded_conn_def)
  from session_step_silent [OF this] a have "e = sv_engine sv" "fs = sv_fs sv" by auto
  with a threaded_conn_silent [OF conn] inv show ?thesis by (auto simp: threaded_inv_def nth_list_update)
qed simp

lemma threaded_conn_keep:
  assumes "threaded_conn accepts faults hs owners i c" "set (hs_history hs) \<subseteq> set (hs_history hs')"
    "\<forall>j < length owners. owners ! j = i \<longrightarrow> hd_returned (hs_handlers hs' ! j) = hd_returned (hs_handlers hs ! j) \<and>
       hd_request (hs_handlers hs' ! j) = hd_request (hs_handlers hs ! j)"
  shows "threaded_conn accepts faults hs' owners i c"
  unfolding threaded_conn_def
proof (intro conjI allI impI)
  fix j
  assume "j < length owners" "owners ! j = i"
  with assms show "if hd_returned (hs_handlers hs' ! j)
      then \<exists>r. Returned j r \<in> set (hs_history hs') \<and> conn_rel accepts faults [(i, hd_request (hs_handlers hs' ! j), r)] c
      else ss_pending (cn_session c) = None \<and> cn_out c = []"
    unfolding threaded_conn_def by (metis (no_types, lifting) subsetD)
qed (use assms(1) in \<open>simp_all add: threaded_conn_def\<close>)

text \<open>The request of a session begins, and ends.\<close>

lemma threaded_inv_request:
  assumes inv: "threaded_inv accepts faults (sv, hs, owners)" and i: "i < length (sv_conns sv)"
    and pending: "ss_pending (cn_session (sv_conns sv ! i)) = Some (Read_request n)"
    and take: "ServerSession_takeRequest (received (take n (cn_in (sv_conns sv ! i))) (cn_session (sv_conns sv ! i))) = (Inr q, ss)"
    and hs': "handle_exec x P (Call q) hs = Some hs'"
  shows "threaded_inv accepts faults (sv\<lparr>sv_conns := (sv_conns sv)[i := put_session n [] (sv_conns sv ! i) ss]\<rparr>, hs', owners @ [i])"
proof -
  let ?c = "sv_conns sv ! i" and ?c' = "put_session n [] (sv_conns sv ! i) ss"
  have conn: "threaded_conn accepts faults hs owners i ?c" using inv i by (simp add: threaded_inv_def)
  have new: "i \<notin> set owners"
  proof
    assume "i \<in> set owners"
    then obtain j where "j < length owners" "owners ! j = i" by (auto simp: in_set_conv_nth)
    with conn pending show False by (auto simp: threaded_conn_def conn_rel_def split: if_splits)
  qed
  with conn have rel: "conn_rel accepts faults [] ?c" by (simp add: threaded_conn_def)
  from take have c': "ss_pending (cn_session ?c') = None" "cn_out ?c' = cn_out ?c" "session_ok ?c'"
    by (auto simp: ServerSession_takeRequest_def received_def put_session_def server_session_ok_def)
  have len: "length owners = length (hs_handlers hs)" using inv by (simp add: threaded_inv_def)
  have "threaded_conn accepts faults hs' (owners @ [i]) k (sv_conns sv ! k)" if "k < length (sv_conns sv)" "k \<noteq> i" for k
    using inv hs' that len by (fastforce simp: threaded_inv_def threaded_conn_def nth_append less_Suc_eq)
  moreover have "threaded_conn accepts faults hs' (owners @ [i]) i ?c'"
    using hs' len rel pending c' new by (auto simp: threaded_conn_def conn_rel_def nth_append less_Suc_eq in_set_conv_nth)
  ultimately show ?thesis
    using inv hs' new i by (auto simp: threaded_inv_def nth_list_update)
qed

lemma threaded_inv_section:
  assumes inv: "threaded_inv accepts faults (sv, hs, owners)" and hs': "handle_exec x P (Run j) hs = Some hs'"
  shows "threaded_inv accepts faults (with_database hs' sv, hs', owners)"
proof -
  from hs' obtain a' e fs ops where
    "hs' = hs\<lparr>hs_engine := e, hs_fs := fs, hs_log := hs_log hs @ ops,
        hs_handlers := (hs_handlers hs)[j := (hs_handlers hs ! j)\<lparr>hd_activity := Some a'\<rparr>]\<rparr>" "j < length (hs_handlers hs)"
    by (auto split: if_splits option.splits prod.splits)
  then have "length (hs_handlers hs') = length (hs_handlers hs)" "hs_history hs' = hs_history hs"
    "hd_returned (hs_handlers hs' ! k) = hd_returned (hs_handlers hs ! k)"
    "hd_request (hs_handlers hs' ! k) = hd_request (hs_handlers hs ! k)" for k
    by (auto simp: nth_list_update)
  then show ?thesis using inv by (simp add: threaded_inv_def threaded_conn_def with_database_def)
qed

lemma threaded_inv_response:
  assumes inv: "threaded_inv accepts faults (sv, hs, owners)" and hs': "handle_exec x P (Return j) hs = Some hs'"
    and r: "hs_history hs' = hs_history hs @ [Returned j r]" and i: "i = owners ! j"
  shows "threaded_inv accepts faults (sv\<lparr>sv_conns := (sv_conns sv)[i := put_session 0 [] (sv_conns sv ! i)
      (ServerSession_respond r (cn_session (sv_conns sv ! i)))]\<rparr>, hs', owners)"
proof -
  let ?c = "sv_conns sv ! i"
  let ?c' = "put_session 0 [] ?c (ServerSession_respond r (cn_session ?c))"
  from hs' have j: "j < length (hs_handlers hs)" "\<not> hd_returned (hs_handlers hs ! j)"
    "hs_handlers hs' = (hs_handlers hs)[j := (hs_handlers hs ! j)\<lparr>hd_returned := True\<rparr>]"
    "hs_engine hs' = hs_engine hs" "hs_fs hs' = hs_fs hs"
    by (auto split: if_splits option.splits sum.splits)
  then have hd: "hd_returned (hs_handlers hs' ! k) = (k = j \<or> hd_returned (hs_handlers hs ! k))"
    "hd_request (hs_handlers hs' ! k) = hd_request (hs_handlers hs ! k)" for k
    by (auto simp: nth_list_update)
  have len: "length owners = length (hs_handlers hs)" "distinct owners" and bound: "i < length (sv_conns sv)"
    using inv i j(1) by (auto simp: threaded_inv_def)
  have conn: "threaded_conn accepts faults hs owners i ?c" using inv bound by (simp add: threaded_inv_def)
  with i j(1,2) len(1) have c: "ss_pending (cn_session ?c) = None" "cn_out ?c = []" "session_ok ?c"
    by (auto simp: threaded_conn_def)
  then have "session_ok ?c'" "conn_rel accepts faults [(i, q, r)] ?c'" for q
    by (simp_all add: conn_rel_def put_session_def ServerSession_respond_def server_session_ok_def)
  moreover have "k = j" if "owners ! k = i" "k < length owners" for k
    using that i j(1) len nth_eq_iff_index_eq by metis
  moreover have "i \<in> set owners" using i j(1) len(1) by simp
  ultimately have "threaded_conn accepts faults hs' owners i ?c'"
    using r hd by (auto simp: threaded_conn_def)
  moreover have "threaded_conn accepts faults hs' owners k (sv_conns sv ! k)" if "k < length (sv_conns sv)" "k \<noteq> i" for k
  proof -
    have "threaded_conn accepts faults hs owners k (sv_conns sv ! k)" using inv that(1) by (simp add: threaded_inv_def)
    then show ?thesis by (rule threaded_conn_keep) (use that(2) i r hd in auto)
  qed
  ultimately show ?thesis
    using inv j bound by (simp add: threaded_inv_def nth_list_update)
qed

lemma threaded_inv_step:
  assumes inv: "threaded_inv accepts faults s" and step: "threaded_step x P accepts faults s t"
  shows "threaded_inv accepts faults t"
  using step
proof cases
  case (threaded_network sv sv' hs owners)
  with inv threaded_inv_network show ?thesis by simp
next
  case (threaded_request i sv c n q ss hs hs' owners)
  with inv threaded_inv_request [of accepts faults sv hs owners i n q ss x P hs'] show ?thesis by simp
next
  case (threaded_section j hs hs' sv owners)
  with inv threaded_inv_section [of accepts faults sv hs owners x P j hs'] show ?thesis by simp
next
  case (threaded_response j hs hs' r i owners c sv)
  with inv threaded_inv_response [of accepts faults sv hs owners x P j hs' r i] show ?thesis by simp
qed

interpretation threaded: invariant_system "threaded_step x P accepts faults" "threaded_inv accepts faults" for x P accepts faults
  by unfold_locales (rule threaded_inv_step)

section \<open>Property\<close>

lemma DatabaseServer_start_open:
  assumes "DatabaseServer_start x P (Inr ()) (DatabaseServer_new P n dir opts fs) = (Inr (), sv0)"
  shows "Database_open x P dir opts (new_engine P) fs = (Inr (), sv_engine sv0, sv_fs sv0)" "sv_conns sv0 = []"
  using assms
  by (auto simp: DatabaseServer_start_def ServerBase_start_def DatabaseServerImpl_init_def DatabaseServer_new_def
      Let_def rmap_Inr_iff split: prod.splits sum.splits if_splits)

text \<open>What a session has written, and what it has written in the end.\<close>

lemma threaded_conn_written:
  assumes conn: "threaded_conn accepts faults hs owners i c" and out: "cn_out c \<noteq> []"
  shows "\<exists>j r wire. j < length owners \<and> owners ! j = i \<and> Returned j r \<in> set (hs_history hs) \<and>
    on_the_wire accepts (response_serialize r) wire \<and> prefix (cn_out c) wire"
proof -
  from conn out obtain j where j: "j < length owners" "owners ! j = i"
    by (cases "ss_pending (cn_session c)" rule: reading.cases)
      (auto simp: threaded_conn_def conn_rel_def in_set_conv_nth)
  with conn have "if hd_returned (hs_handlers hs ! j)
    then \<exists>r. Returned j r \<in> set (hs_history hs) \<and> conn_rel accepts faults [(i, hd_request (hs_handlers hs ! j), r)] c
    else ss_pending (cn_session c) = None \<and> cn_out c = []" unfolding threaded_conn_def by blast
  with out obtain r q where "Returned j r \<in> set (hs_history hs)" "conn_rel accepts faults [(i, q, r)] c"
    by (auto split: if_splits)
  moreover from this(2) out have "\<exists>wire. on_the_wire accepts (response_serialize r) wire \<and> prefix (cn_out c) wire"
    by (cases "ss_pending (cn_session c)" rule: reading.cases) (auto simp: conn_rel_def)
  ultimately show ?thesis using j by blast
qed

lemma threaded_conn_complete:
  assumes "threaded_conn accepts faults hs owners i c" "j < length owners" "owners ! j = i" "hd_returned (hs_handlers hs ! j)"
    "\<forall>message. \<not> faults message" "ss_pending (cn_session c) = None"
  shows "\<exists>r. Returned j r \<in> set (hs_history hs) \<and> on_the_wire accepts (response_serialize r) (cn_out c)"
  using assms by (fastforce simp: threaded_conn_def conn_rel_def)

text \<open>
  C4: The server is linearizable on any number of threads. From a server started on an empty
  directory, however the sessions' callbacks and the sections of their requests are interleaved,
  whatever the errors of the connections and however many bytes a socket takes at once, as long as
  the writes meet \<open>op_ok\<close> and the 32-bit bounds: the calls and returns of \<open>handle\<close> are linearizable, to
  the state the database is in; no session passes on more than one request; and a session writes
  nothing before its own request has returned, and then what \<open>async_write\<close> puts on the wire for the
  response that it returned with, all of it when the session is over without an error of the
  connection. That has the length of the serialized response and begins with the bytes that the
  socket takes at the call of \<open>async_write\<close>; if it takes all of them, it is the serialized response
  and nothing else (the others are read from memory that is freed by then).
\<close>

theorem threaded_server_is_linearizable:
  assumes "empty_directory fs dir" "createHasher (opt_hashType opts) = Some h"
    "0 < p_filterSize P" "p_filterSize P < 2 ^ 64" "c = createCompressor (opt_compressionType opts)"
    "DatabaseServer_start x P (Inr ()) (DatabaseServer_new P n dir opts fs) = (Inr (), sv0)"
    "reach (threaded_step x P accepts faults)
       (sv0, new_handle_system (sv_engine sv0) (sv_fs sv0), []) (sv, hs, owners)"
    "\<forall>op \<in> set (hs_log hs). op_ok x c op" "length (hs_log hs) < 2 ^ 32"
    "sum_list (map (op_bytes x c) (hs_log hs)) < 2 ^ 32"
  shows "linearizable x P (hs_history hs) (sv_engine sv0) (sv_fs sv0) (sv_engine sv) (sv_fs sv) \<and>
    distinct owners \<and> length owners = length (hs_handlers hs) \<and>
    (\<forall>i < length (sv_conns sv). cn_out (sv_conns sv ! i) \<noteq> [] \<longrightarrow>
       (\<exists>j r wire. j < length owners \<and> owners ! j = i \<and> Returned j r \<in> set (hs_history hs) \<and>
          on_the_wire accepts (response_serialize r) wire \<and> prefix (cn_out (sv_conns sv ! i)) wire \<and>
          (taken_whole accepts (response_serialize r) \<longrightarrow> prefix (cn_out (sv_conns sv ! i)) (response_serialize r)))) \<and>
    (\<forall>j < length owners. hd_returned (hs_handlers hs ! j) \<longrightarrow>
       (\<forall>message. \<not> faults message) \<longrightarrow> ss_pending (cn_session (sv_conns sv ! (owners ! j))) = None \<longrightarrow>
       (\<exists>r. Returned j r \<in> set (hs_history hs) \<and>
          on_the_wire accepts (response_serialize r) (cn_out (sv_conns sv ! (owners ! j))) \<and>
          (taken_whole accepts (response_serialize r) \<longrightarrow> cn_out (sv_conns sv ! (owners ! j)) = response_serialize r)))"
proof -
  note start = DatabaseServer_start_open [OF assms(6)]
  have hs: "reach (handle_step x P) (new_handle_system (sv_engine sv0) (sv_fs sv0)) hs"
    using threads.reach_simulated [OF assms(7)] by simp
  have "within x c (length (hs_log hs)) (sum_list (map (op_bytes x c) (hs_log hs))) (hs_log hs)"
    using assms(8) by (simp add: within_def)
  from handle_reach_linearizable(1) [OF concurrent_inv_open [OF assms(1-5) start(1) assms(9,10)] hs this]
  have lin: "linearizable x P (hs_history hs) (sv_engine sv0) (sv_fs sv0) (hs_engine hs) (hs_fs hs)" .
  have "threaded_inv accepts faults (sv0, new_handle_system (sv_engine sv0) (sv_fs sv0), [])"
    by (simp add: threaded_inv_def new_handle_system_def start(2))
  from threaded.inv_reach [OF assms(7) this] have inv: "threaded_inv accepts faults (sv, hs, owners)" .
  then have conns: "threaded_conn accepts faults hs owners i (sv_conns sv ! i)" if "i < length (sv_conns sv)" for i
    using that by (simp add: threaded_inv_def)
  have "\<exists>j r wire. j < length owners \<and> owners ! j = i \<and> Returned j r \<in> set (hs_history hs) \<and>
      on_the_wire accepts (response_serialize r) wire \<and> prefix (cn_out (sv_conns sv ! i)) wire \<and>
      (taken_whole accepts (response_serialize r) \<longrightarrow> prefix (cn_out (sv_conns sv ! i)) (response_serialize r))"
    if "i < length (sv_conns sv)" "cn_out (sv_conns sv ! i) \<noteq> []" for i
    using threaded_conn_written [OF conns [OF that(1)] that(2)] on_the_wire_whole by metis
  moreover have "\<exists>r. Returned j r \<in> set (hs_history hs) \<and>
      on_the_wire accepts (response_serialize r) (cn_out (sv_conns sv ! (owners ! j))) \<and>
      (taken_whole accepts (response_serialize r) \<longrightarrow> cn_out (sv_conns sv ! (owners ! j)) = response_serialize r)"
    if "j < length owners" "hd_returned (hs_handlers hs ! j)" "\<forall>message. \<not> faults message"
      "ss_pending (cn_session (sv_conns sv ! (owners ! j))) = None" for j
  proof -
    have "owners ! j < length (sv_conns sv)" using inv that(1) by (auto simp: threaded_inv_def)
    from threaded_conn_complete [OF conns [OF this] that(1) refl that(2-4)] on_the_wire_whole show ?thesis by metis
  qed
  moreover have "linearizable x P (hs_history hs) (sv_engine sv0) (sv_fs sv0) (sv_engine sv) (sv_fs sv)"
    "distinct owners" "length owners = length (hs_handlers hs)" using inv lin by (simp_all add: threaded_inv_def)
  ultimately show ?thesis by blast
qed

text \<open>A server that was started, and serves the small request.\<close>

lemma server_step_history: "reach (server_step x P accepts faults) s t \<Longrightarrow> snd t = [] \<Longrightarrow> snd s = []"
proof (induction rule: reach.induct)
  case (reach_step s t u)
  from reach_step.hyps(2) reach_step.prems have "snd t = []" by cases auto
  with reach_step.IH show ?case by blast
qed

lemma threaded_reach_network:
  assumes "reach (server_step x P accepts faults) (sv, []) s" "snd s = []"
  shows "reach (threaded_step x P accepts faults) (sv, hs, owners) (fst s, hs, owners)"
  using assms
proof (induction "(sv, [] :: served)" s rule: reach.induct)
  case (reach_step t u)
  from reach_step.hyps(3) reach_step.prems have t: "snd t = []" by cases auto
  with reach_step.hyps(3) reach_step.prems have "server_step x P accepts faults (fst t, []) (fst u, [])"
    by (metis prod.collapse)
  with reach_step.hyps(2) [OF t] show ?case by (blast intro: reach.reach_step threaded_network)
qed (auto intro: reach_refl)

lemma threaded_serves:
  assumes sv: "sv_conns sv = []" "ac_pending (sv_acceptor sv) = Suc n" "\<not> ac_isStopped (sv_acceptor sv)"
    and hs: "handle_exec x P (Call small_request) hs0 = Some hs1" "handle_exec x P (Run 0) hs1 = Some hs2"
      "handle_exec x P (Return 0) hs2 = Some hs" "hs_history hs = hs_history hs2 @ [Returned 0 r]"
  shows "\<exists>sv'. reach (threaded_step x P accepts faults) (sv, hs0, []) (sv', hs, [0]) \<and> length (sv_conns sv') = 1"
proof -
  let ?step = "threaded_step x P accepts faults"
  from small_session_reads [OF sv, of x P accepts faults] obtain a where
    "reach (server_step x P accepts faults) (sv, []) (sv\<lparr>sv_acceptor := a, sv_conns := [small_reading]\<rparr>, [])" by blast
  from threaded_reach_network [OF this, of hs0 "[]"]
  have s1: "reach ?step (sv, hs0, []) (sv\<lparr>sv_acceptor := a, sv_conns := [small_reading]\<rparr>, hs0, [])" by simp
  have "ServerSession_takeRequest (received (take 13 (cn_in small_reading)) (cn_session small_reading)) =
      (Inr small_request, (received (take 13 (cn_in small_reading)) (cn_session small_reading))\<lparr>ss_requestBuffer := []\<rparr>)"
    using request_des_ser [OF small_request_ok] small_request_bytes
    by (simp add: ServerSession_takeRequest_def received_def small_reading_def)
  then obtain ss where ss: "ServerSession_takeRequest (received (take 13 (cn_in small_reading)) (cn_session small_reading)) =
      (Inr small_request, ss)" by blast
  define sv1 where "sv1 = sv\<lparr>sv_acceptor := a, sv_conns := [put_session 13 [] small_reading ss]\<rparr>"
  have s2: "?step (sv\<lparr>sv_acceptor := a, sv_conns := [small_reading]\<rparr>, hs0, []) (sv1, hs1, [0])"
    using threaded_request [of 0 "sv\<lparr>sv_acceptor := a, sv_conns := [small_reading]\<rparr>" small_reading 13 small_request ss
        x P hs0 hs1 accepts faults "[]"] ss hs(1) small_request_bytes(1)
    by (simp add: sv1_def small_reading_def)
  have s3: "?step (sv1, hs1, [0]) (with_database hs2 sv1, hs2, [0])" by (rule threaded_section [OF hs(2)])
  have s4: "?step (with_database hs2 sv1, hs2, [0]) ((with_database hs2 sv1)\<lparr>sv_conns := (sv_conns (with_database hs2 sv1))[0 :=
      put_session 0 [] (sv_conns (with_database hs2 sv1) ! 0)
        (ServerSession_respond r (cn_session (sv_conns (with_database hs2 sv1) ! 0)))]\<rparr>, hs, [0])"
    by (rule threaded_response [OF hs(3,4)]) simp_all
  show ?thesis
    using reach_step [OF reach_step [OF reach_step [OF s1 s2] s3] s4]
    by (intro exI conjI, assumption) (simp add: with_database_def sv1_def)
qed

theorem threaded_server_is_linearizable_witness:
  "\<exists>(sv0 :: server) (sv :: server). linearizable plain_externals small_params [Called 0 small_request, Returned 0 (Response ResponseStatus_Ok [])]
     (sv_engine sv0) (sv_fs sv0) (sv_engine sv) (sv_fs sv)"
proof -
  let ?start = "DatabaseServer_start plain_externals small_params (Inr ())
      (DatabaseServer_new small_params 2 [''db''] small_options small_fs)"
  let ?exec = "handle_exec plain_externals small_params"
  have run: "case ?start of (r, sv0) \<Rightarrow> r = Inr () \<and> sv_conns sv0 = [] \<and> ac_pending (sv_acceptor sv0) = Suc 0 \<and>
      \<not> ac_isStopped (sv_acceptor sv0) \<and>
      (case ?exec (Call small_request) (new_handle_system (sv_engine sv0) (sv_fs sv0)) of None \<Rightarrow> False | Some hs1 \<Rightarrow>
      (case ?exec (Run 0) hs1 of None \<Rightarrow> False | Some hs2 \<Rightarrow>
      (case ?exec (Return 0) hs2 of None \<Rightarrow> False | Some hs \<Rightarrow>
         hs_history hs2 = [Called 0 small_request] \<and> hs_log hs = [Op_remove (Key 1)] \<and>
         hs_history hs = [Called 0 small_request, Returned 0 (Response ResponseStatus_Ok [])])))" by code_simp
  obtain r sv0 where o: "?start = (r, sv0)" by (cases ?start)
  from run obtain hs1 hs2 hs where s: "r = Inr ()" "sv_conns sv0 = []" "ac_pending (sv_acceptor sv0) = Suc 0"
    "\<not> ac_isStopped (sv_acceptor sv0)" "hs_history hs2 = [Called 0 small_request]" "hs_log hs = [Op_remove (Key 1)]"
    "hs_history hs = [Called 0 small_request, Returned 0 (Response ResponseStatus_Ok [])]"
    "?exec (Call small_request) (new_handle_system (sv_engine sv0) (sv_fs sv0)) = Some hs1"
    "?exec (Run 0) hs1 = Some hs2" "?exec (Return 0) hs2 = Some hs"
    unfolding o by (auto split: option.splits simp del: handle_exec.simps)
  from threaded_serves [OF s(2-4,8-10)] s(5,7) obtain sv where
    "reach (threaded_step plain_externals small_params complete_writes no_faults)
      (sv0, new_handle_system (sv_engine sv0) (sv_fs sv0), []) (sv, hs, [0])" by fastforce
  moreover have "createHasher (opt_hashType small_options) = Some CityHash128Adapter"
    "0 < p_filterSize small_params" "p_filterSize small_params < 2 ^ 64"
    by (simp_all add: small_options_def small_params_def)
  ultimately have "linearizable plain_externals small_params (hs_history hs) (sv_engine sv0) (sv_fs sv0) (sv_engine sv) (sv_fs sv)"
    using threaded_server_is_linearizable [OF small_fs_empty _ _ _ refl o [unfolded s(1)], of CityHash128Adapter complete_writes no_faults sv hs "[0]"] s(6)
    by (simp add: op_ok_def op_bytes_def npos_def small_options_def)
  then show ?thesis unfolding s(7) by blast
qed

end
