(* ===== verification/Spec2Isabelle.thy ===== *)
theory Spec2Isabelle
  imports Programs MappedFile EngineCrash EngineRestart EngineTorn SnapshotCrash ThreadedServer
begin

text \<open>
  OMXDB: a key-value store with a log-structured storage engine, a server and a client. This
  development models the program as it is written and proves what its parts guarantee, each by
  itself and together.

  \<^bold>\<open>The program.\<close> A \<open>Database\<close> (include/omx/Database.h) forwards to a \<open>StorageEngine\<close>, which keeps
  recent writes in a \<open>MemTable\<close> backed by a write-ahead log, moves them to a sorted segment file
  with an index file and a Bloom filter file when they reach a limit, and looks keys up first in
  memory and then in the segments. Values are compressed, and stored with a checksum. A
  \<open>DatabaseServer\<close> accepts connections, each of which a \<open>ServerSession\<close> serves with one request and
  one response; a \<open>DatabaseConnector\<close> starts a \<open>ClientSession\<close> per request and returns a future.

  \<^bold>\<open>How the program is represented.\<close> A class is a record, an enumeration a datatype, an integer a
  word of its width, a string of bytes a list of 8-bit words, a file system an association list
  from paths to nodes, a stream the list of bytes left with its state bits. A call that can throw
  returns \<open>error + 'a\<close>; an operation that changes state returns the state as it leaves it also
  when it throws. Undefined behaviour is an error of its own. Loops that may not end are
  \<^theory_text>\<open>partial_function\<close>s whose result \<open>None\<close> is not returning; no fuel is used anywhere.

  \<^bold>\<open>Foundations.\<close>
  \<^item> \<open>Prelude\<close>: words, little-endian bytes, errors. \<open>Streams\<close>: \<open>istream\<close>, files and directories of
    the standard library. \<open>StepSystems\<close>: reachability, and locales for step relations with an
    invariant, with a bound on the number of steps, with progress to a final state, and that are
    simulated by another.
  \<^item> \<open>Externals\<close>: the libraries the program calls (CityHash, MurmurHash3, Snappy, LZ4, the order of
    an \<open>unordered_map\<close>) as one record of functions, their documented contracts as predicates on it,
    and a concrete instance that meets the contracts.

  \<^bold>\<open>Storage\<close>, in the order the code builds it.
  \<^item> \<open>KeyOrder\<close> (Key, MemTableKey.h): the order of the memtable, newest entry of a key first.
  \<^item> \<open>SSTableRow\<close>, \<open>SSTable\<close>, \<open>SSTableIndex\<close>: rows and their binary form, tables, the index of a table
    and its file. Round trips of every format; every row is found where its index points;
    loading returns if the stream opened, and merging goes by address, not by key.
  \<^item> \<open>WriteAheadLog\<close>, \<open>MemTable\<close>: the log, and the memtable with its four walks (dump, table, index,
    replay of the log). Invariant, lookups after writes, recovery from the log, agreement of the
    walks, and the cases in which they lose or invent a row.
  \<^item> \<open>Index\<close>, \<open>BloomFilter\<close>, \<open>Compression\<close>, \<open>Hashing\<close>, \<open>EngineOptions\<close>: the remaining components of the
    engine, each with its file format. The Bloom filter and the codecs are locales interpreted on
    the code's models.
  \<^item> \<open>StorageEngine\<close> (StorageEngine.cpp, Database.cpp): open, put, remove, get, snapshot, handle.
  \<^item> \<open>EngineRefinement\<close>: the abstract store (a map for memory and one for each segment) and the
    invariant that relates the engine and the file system to it. \<open>EngineRun\<close>: sequences of writes and
    of requests. \<open>EngineDurable\<close>: what the files hold meanwhile. \<open>EngineOpen\<close>, \<open>EngineReopen\<close>: opening
    an empty directory and opening one again, the order of the segments after that.
    \<open>EngineProperties\<close>: the theorems about the engine.
  \<^item> \<open>EngineCrash\<close>: the process dies instead of closing the engine, and the log holds a prefix of
    what was logged, at least up to the last flush. What is lost is a suffix of the writes.
    \<open>EngineTorn\<close>: the log is cut within the value of a row, which corrupts the key of this row and
    no other. \<open>SnapshotCrash\<close>: the process dies in
    the middle of a snapshot, at each of the stages its files go through. \<open>EngineRestart\<close>: a
    database that is opened a third time, whose log was truncated the second time.
  \<^item> \<open>EngineConcurrent\<close>: calls of several threads. Each call is split into the sections that the
    locks of the code delimit, a step is one section of one thread. The writes take effect in the
    order of their locks, and each lookup answers as at a moment during its call.
    \<open>HandleConcurrent\<close>: requests that several threads pass to \<open>handle\<close>, with the history of its calls
    and returns, and the proof that every history is linearizable.
  \<^item> \<open>MappedFile\<close> (File.cpp): reads and writes through a memory mapping, which is a parameter.

  \<^bold>\<open>Network.\<close> Sessions are chains of callbacks; each callback is a function on the session's record,
  and boost::asio, which calls them, is the environment of a step relation: operations complete
  in any order, with errors or without, and bytes arrive in pieces of any size.
  \<^item> \<open>Messages\<close>: requests and responses and their framing.
  \<^item> \<open>ServerSession\<close>, \<open>Acceptor\<close>, \<open>DatabaseServer\<close>: a connection of the server, the loop of accepts, and
    a server with its threads and all its sessions on one database.
  \<^item> \<open>ClientSession\<close>, \<open>DatabaseConnector\<close>: a client session with its promise, and a connector.
  \<^item> \<open>Exchange\<close>: the two ends of one connection, with an invariant that ties the bytes under way to
    the state of both, a bound on the number of steps and progress. \<open>NetworkProperties\<close>: the theorems.
    How many bytes a socket takes at once is a parameter (\<open>accepts\<close>) of which nothing is assumed:
    the program gives buffers to \<open>async_send\<close> and \<open>async_write\<close> that are freed when the call returns, so
    that only the bytes taken at the call are those of the message. The theorems say what a session
    sends and a future gets in general, and what follows when a buffer is \<open>taken_whole\<close>.
  \<^item> \<open>ThreadedServer\<close>: the server on several threads, whose sessions pass their requests to the
    database at the same time.
  \<^item> \<open>Programs\<close>: the \<open>main\<close> functions of client, server and example.

  \<^bold>\<open>Bounds.\<close> Offsets in segments and segment ids are 32-bit in the index files: the theorems on
  sequences of writes assume that fewer than \<open>2\<^sup>3\<^sup>2\<close> writes with fewer than \<open>2\<^sup>3\<^sup>2\<close> bytes in all are
  made, the predicate \<open>room\<close> says how much is left. They also assume of every write that it meets
  \<open>op_ok\<close>: the key is not \<open>2\<^sup>6\<^sup>4 - 1\<close>, which the dump of a memtable loses, and the value is in the
  domain of the codec, which excludes the empty value with LZ4, the default: it is stored without an
  error and cannot be read back. Sizes and counters are 64-bit. The size of the
  Bloom filter is a parameter, so that instances can use a small one; \<open>omx_params\<close> has the values of
  the code.

  \<^bold>\<open>Not modelled.\<close> UUID tags, which are only printed; FastPimpl.h and Export.h, which have no
  behaviour of their own; what is printed on standard output by the server and the sessions; the
  parser of command lines. Of threads, the interleaving is modelled but not the memory model of C++:
  the sections of the engine's calls are atomic, also the test of the Bloom filter, which the code
  makes without the lock; of the callbacks of the server only the one that calls the database is
  divided, since the others touch nothing but their own session. A crash
  is the death of the process between two operations or at a stage of a snapshot: files other than
  the log are empty or complete, and what was handed to the operating system is not lost.
\<close>

end
